(* ===== verification/Prelude.thy ===== *)
theory Prelude
  imports Main "HOL-Library.Word" "HOL-Library.Multiset"
begin

text \<open>
  Shared ground of the development: the machine types of \<open>storage/Types.h\<close>,
  \<open>LockManager.h\<close> and \<open>Peer.h\<close>, C++ exceptions as values, the parts of the C++
  standard library whose behaviour is left open by the standard (\<open>std::hash\<close>,
  the iteration order of unordered containers) as parameters, and the generic
  lemmas on lists and maps that the component theories share.
\<close>

section \<open>Machine types\<close>

type_synonym KeyType = "64 word"
type_synonym ValueType = "64 word"
type_synonym ValueContainer = "ValueType list"
type_synonym TransactionId = "64 word"
type_synonym NodeID = "16 word"

text \<open>The vector of (key, value) pairs a transaction returns.\<close>

type_synonym Results = "(KeyType \<times> ValueContainer option) list"

section \<open>Exceptions and outcomes\<close>

text \<open>
  A C++ function that may throw returns \<open>exn + 'a\<close>. \<open>Undefined\<close> marks a path whose
  behaviour the language leaves undefined (an integer remainder by zero).
\<close>

datatype exn =
    RuntimeError string
  | LogicError string
  | SystemError string
  | OutOfRange string
  | InvalidArgument string
  | Undefined string

type_synonym 'a res = "exn + 'a"

text \<open>A function that waits for other threads may also never return.\<close>

datatype 'a outcome = Returns 'a | Throws exn | Blocked

section \<open>The open parts of the C++ standard library\<close>

text \<open>
  \<open>hash_i64\<close> is \<open>std::hash<int64_t>\<close>; \<open>key_order\<close> and \<open>node_order\<close> are the orders
  in which a range-for visits a \<open>std::unordered_set<KeyType>\<close> and a
  \<open>std::unordered_map<NodeID, std::unordered_set<KeyType>>\<close>. An unordered container
  is modelled by the list of its elements in order of insertion, without
  duplicates. The C++ standard fixes none of the three; it only promises that an
  iteration visits every element exactly once (\<open>std_ok\<close>).
\<close>

record stdlib =
  hash_i64 :: "KeyType \<Rightarrow> 64 word"
  key_order :: "KeyType list \<Rightarrow> KeyType list"
  node_order :: "(NodeID \<times> KeyType list) list \<Rightarrow> (NodeID \<times> KeyType list) list"

definition std_ok :: "stdlib \<Rightarrow> bool" where
  "std_ok L \<longleftrightarrow> (\<forall>xs. mset (key_order L xs) = mset xs) \<and> (\<forall>xs. mset (node_order L xs) = mset xs)"

lemma std_okD [dest]:
  assumes "std_ok L"
  shows "mset (key_order L xs) = mset xs" "mset (node_order L ys) = mset ys"
  using assms by (auto simp: std_ok_def)

lemma key_order_set [simp]: "std_ok L \<Longrightarrow> set (key_order L xs) = set xs"
  by (metis std_okD(1) set_mset_mset)

lemma key_order_distinct [simp]: "std_ok L \<Longrightarrow> distinct (key_order L xs) = distinct xs"
  by (metis std_okD(1) mset_eq_imp_distinct_iff)

lemma node_order_set [simp]: "std_ok L \<Longrightarrow> set (node_order L xs) = set xs"
  by (metis std_okD(2) set_mset_mset)

text \<open>A concrete library: the identity hash of libstdc++, iteration in insertion order.\<close>

definition std_ref :: stdlib where
  "std_ref = \<lparr>hash_i64 = (\<lambda>k. k), key_order = (\<lambda>xs. xs), node_order = (\<lambda>xs. xs)\<rparr>"

lemma std_ref_ok [simp]: "std_ok std_ref"
  by (simp add: std_ok_def std_ref_def)

lemma std_ref_simps [simp]:
  "hash_i64 std_ref k = k" "key_order std_ref xs = xs" "node_order std_ref ys = ys"
  by (simp_all add: std_ref_def)

section \<open>Generic lemmas\<close>

lemma case_sum_Inr_eq:
  "(case x of Inl e \<Rightarrow> Inl e | Inr a \<Rightarrow> f a) = Inr b \<longleftrightarrow> (\<exists>a. x = Inr a \<and> f a = Inr b)"
  by (cases x) auto

lemma removeAll_eq_Nil [simp]: "removeAll x xs = [] \<longleftrightarrow> set xs \<subseteq> {x}"
  by (induction xs) auto

lemma map_upd_eq_Some:
  "(m(k := v)) j = Some x \<longleftrightarrow> (if j = k then v = Some x else m j = Some x)"
  by auto

lemma sum_list_update_less:
  fixes f g :: "'a \<Rightarrow> nat"
  assumes "i < length xs" and "g y < f (xs ! i)" and "\<And>j. j < length xs \<Longrightarrow> j \<noteq> i \<Longrightarrow> g (xs ! j) = f (xs ! j)"
  shows "(\<Sum>x \<leftarrow> xs[i := y]. g x) < (\<Sum>x \<leftarrow> xs. f x)"
proof -
  have eq: "map g (xs[i := y]) = (map f xs)[i := g y]"
    using assms(1,3) by (intro nth_equalityI) (auto simp: nth_list_update)
  have "f (xs ! i) \<le> sum_list (map f xs)" using elem_le_sum_list [of i "map f xs"] assms(1) by simp
  with assms(1,2) show ?thesis unfolding eq by (simp add: sum_list_update)
qed


lemma run_the: "\<not> Option.is_none x \<Longrightarrow> x = Some (the x)"
  by (auto simp: Option.is_none_def)

end
