(* ===== verification/KVStore.thy ===== *)
theory KVStore
  imports Prelude
begin

text \<open>
  The storage layer: the \<open>KVStore\<close> interface (\<open>storage/KVStore.h\<close>) as a locale of
  laws, and its implementation \<open>ThreadSafeKVStore\<close>
  (\<open>storage/impl/ThreadSafeKVStore.h\<close>, \<open>.cpp\<close>): 256 stripes, each a mutex and a
  partition of the map. \<open>get\<close> and \<open>append\<close> hold the mutex of the key's stripe for
  their whole body, so each is one atomic step here; the mutexes themselves carry no
  data and do not appear in the records. \<open>Store_Mutexes\<close> has them in its state and
  justifies the atomic steps.
\<close>

section \<open>The interface\<close>

text \<open>
  What \<open>KVStore.h\<close> promises of \<open>get\<close> and \<open>append\<close>, over any implementation with an
  invariant \<open>inv\<close>.
\<close>

locale kv_store =
  fixes init :: "'s"
    and get :: "'s \<Rightarrow> KeyType \<Rightarrow> ValueContainer option"
    and app :: "'s \<Rightarrow> KeyType \<Rightarrow> ValueType \<Rightarrow> 's"
    and inv :: "'s \<Rightarrow> bool"
  assumes inv_init: "inv init"
    and inv_app: "inv s \<Longrightarrow> inv (app s k v)"
    and get_init: "get init k = None"
    and get_app_same: "inv s \<Longrightarrow>
      get (app s k v) k = Some ((case get s k of None \<Rightarrow> [] | Some xs \<Rightarrow> xs) @ [v])"
    and get_app_other: "inv s \<Longrightarrow> j \<noteq> k \<Longrightarrow> get (app s k v) j = get s j"
begin

text \<open>The abstract content of a store is its lookup function.\<close>

lemma get_app:
  "inv s \<Longrightarrow> get (app s k v) =
     (get s)(k \<mapsto> (case get s k of None \<Rightarrow> [] | Some xs \<Rightarrow> xs) @ [v])"
  by (rule ext) (simp add: get_app_same get_app_other)

lemma inv_foldl: "inv s \<Longrightarrow> inv (foldl (\<lambda>s (k, v). app s k v) s ws)"
  by (induction ws arbitrary: s) (auto simp: inv_app)

text \<open>After any sequence of appends a key holds its old values followed by the
  values appended to it, in order.\<close>

lemma get_foldl:
  "inv s \<Longrightarrow> get (foldl (\<lambda>s (k, v). app s k v) s ws) j =
     (let new = map snd (filter (\<lambda>(k, v). k = j) ws)
      in case get s j of None \<Rightarrow> (if new = [] then None else Some new) | Some xs \<Rightarrow> Some (xs @ new))"
proof (induction ws arbitrary: s)
  case Nil
  then show ?case by (simp split: option.split)
next
  case (Cons w ws)
  obtain k v where w: "w = (k, v)" by (cases w)
  show ?case
    using Cons.IH [OF inv_app [OF Cons.prems, of k v]] Cons.prems
    by (auto simp: w get_app Let_def split: option.split)
qed

text \<open>Appends to different keys commute, as seen through \<open>get\<close>.\<close>

lemma app_commute:
  "inv s \<Longrightarrow> j \<noteq> k \<Longrightarrow> get (app (app s j u) k v) = get (app (app s k v) j u)"
  by (rule ext) (simp add: get_app inv_app)

end

section \<open>The striped implementation\<close>

definition NUM_STRIPES :: nat where
  "NUM_STRIPES = 256"

record Stripe =
  stripe_partition :: "KeyType \<rightharpoonup> ValueContainer"

record ThreadSafeKVStore =
  stripes :: "Stripe list"

definition empty_store :: ThreadSafeKVStore where
  "empty_store = \<lparr>stripes = replicate NUM_STRIPES \<lparr>stripe_partition = Map.empty\<rparr>\<rparr>"

definition get_stripe_index :: "stdlib \<Rightarrow> KeyType \<Rightarrow> nat" where
  "get_stripe_index L key = unat (hash_i64 L key) mod NUM_STRIPES"

definition get_stripe :: "stdlib \<Rightarrow> ThreadSafeKVStore \<Rightarrow> KeyType \<Rightarrow> Stripe" where
  "get_stripe L s key = stripes s ! get_stripe_index L key"

definition kv_get :: "stdlib \<Rightarrow> ThreadSafeKVStore \<Rightarrow> KeyType \<Rightarrow> ValueContainer option" where
  "kv_get L s key =
     (let p = stripe_partition (get_stripe L s key)
      in if key \<in> dom p then Some (the (p key)) else None)"

definition kv_append :: "stdlib \<Rightarrow> ThreadSafeKVStore \<Rightarrow> KeyType \<Rightarrow> ValueType \<Rightarrow> ThreadSafeKVStore" where
  "kv_append L s key value =
     (let i = get_stripe_index L key;
          p = stripe_partition (get_stripe L s key);
          p' = (if key \<in> dom p then p(key \<mapsto> the (p key) @ [value]) else p(key \<mapsto> [value]))
      in s\<lparr>stripes := (stripes s)[i := (stripes s ! i)\<lparr>stripe_partition := p'\<rparr>]\<rparr>)"

text \<open>
  Well-formed: the array has its 256 stripes, and a key is stored in no stripe but
  the one it hashes to.
\<close>

definition kv_wf :: "stdlib \<Rightarrow> ThreadSafeKVStore \<Rightarrow> bool" where
  "kv_wf L s \<longleftrightarrow> length (stripes s) = NUM_STRIPES \<and>
     (\<forall>i < NUM_STRIPES. \<forall>k \<in> dom (stripe_partition (stripes s ! i)). get_stripe_index L k = i)"

section \<open>Correctness\<close>

lemma get_stripe_index_lt [simp]: "get_stripe_index L k < NUM_STRIPES"
  by (simp add: get_stripe_index_def NUM_STRIPES_def)

lemma kv_get_eq: "kv_get L s k = stripe_partition (stripes s ! get_stripe_index L k) k"
  by (cases "stripe_partition (stripes s ! get_stripe_index L k) k")
     (auto simp: kv_get_def get_stripe_def Let_def)

lemma kv_wf_empty [simp]: "kv_wf L empty_store"
  by (simp add: kv_wf_def empty_store_def)

lemma kv_wf_length: "kv_wf L s \<Longrightarrow> length (stripes s) = NUM_STRIPES"
  by (simp add: kv_wf_def)

lemma kv_wf_append [simp]: "kv_wf L s \<Longrightarrow> kv_wf L (kv_append L s k v)"
  by (auto simp: kv_wf_def kv_append_def get_stripe_def Let_def nth_list_update split: if_splits)

lemma kv_get_empty [simp]: "kv_get L empty_store k = None"
  by (simp add: kv_get_eq empty_store_def)

lemma kv_get_append_same:
  "kv_wf L s \<Longrightarrow>
     kv_get L (kv_append L s k v) k =
       Some ((case kv_get L s k of None \<Rightarrow> [] | Some xs \<Rightarrow> xs) @ [v])"
  by (auto simp: kv_get_eq kv_append_def get_stripe_def Let_def kv_wf_length split: option.split)

lemma kv_get_append_other:
  "kv_wf L s \<Longrightarrow> j \<noteq> k \<Longrightarrow> kv_get L (kv_append L s k v) j = kv_get L s j"
  by (cases "get_stripe_index L j = get_stripe_index L k")
     (auto simp: kv_get_eq kv_append_def get_stripe_def Let_def kv_wf_length)

interpretation ts: kv_store empty_store "kv_get L" "kv_append L" "kv_wf L" for L
  by unfold_locales (simp_all add: kv_get_append_same kv_get_append_other)

section \<open>Properties\<close>

text \<open>
  C34 (the store is a log per key). For every hash function and every sequence of
  appends to a new store: a key holds exactly the values appended to it, in order, and
  does not exist if there are none; the stripes stay well-formed, so keys that share
  a stripe never mix.
\<close>

theorem store_is_log:
  "kv_get L (foldl (\<lambda>s (k, v). kv_append L s k v) empty_store ws) j =
     (let vs = map snd (filter (\<lambda>(k, v). k = j) ws) in if vs = [] then None else Some vs) \<and>
   kv_wf L (foldl (\<lambda>s (k, v). kv_append L s k v) empty_store ws)"
  using ts.get_foldl [OF ts.inv_init, of L ws j] ts.inv_foldl [OF ts.inv_init, of L ws] by simp

end
