(* ===== verification/Operations.thy ===== *)
theory Operations
  imports KVStore
begin

text \<open>
  \<open>transactions/Operations.h\<close>: the two operations of a transaction. Their \<open>Accept\<close>
  methods and the visitor \<open>NaiveOpExecutor\<close> (\<open>impl/NaiveOpExecutor.h\<close>) are declared
  in the repository but their bodies are not part of it: they are the parameter
  \<open>executor_api\<close>, and \<open>executor_ok\<close> states what the headers say of them.
\<close>

section \<open>Operations\<close>

datatype OpType = READ | APPEND

datatype Operation = ReadOp KeyType | AppendOp KeyType ValueType

fun op_type :: "Operation \<Rightarrow> OpType" where
  "op_type (ReadOp _) = READ"
| "op_type (AppendOp _ _) = APPEND"

fun op_key :: "Operation \<Rightarrow> KeyType" where
  "op_key (ReadOp key) = key"
| "op_key (AppendOp key _) = key"

fun op_value :: "Operation \<Rightarrow> ValueType" where
  "op_value (ReadOp _) = -1"
| "op_value (AppendOp _ value) = value"

text \<open>\<open>transactions/Transaction.h\<close>: a vector of operations, iterated from begin to end.\<close>

type_synonym Transaction = "Operation list"

section \<open>The visitor\<close>

record NaiveOpExecutor =
  exec_store :: ThreadSafeKVStore
  opResult :: "ValueContainer option"

text \<open>
  \<open>make_executor\<close> is the constructor, \<open>Accept op\<close> the double dispatch
  \<open>op->Accept(&visitor)\<close>, and \<open>exec_result\<close> the member function \<open>result()\<close>, which is
  not const and may change the visitor. The store is shared by pointer, so the
  store of the visitor after the call is the scheduler's store.
\<close>

record executor_api =
  make_executor :: "ThreadSafeKVStore \<Rightarrow> NaiveOpExecutor"
  Accept :: "Operation \<Rightarrow> NaiveOpExecutor \<Rightarrow> unit res \<times> NaiveOpExecutor"
  exec_result :: "NaiveOpExecutor \<Rightarrow> ValueContainer option \<times> NaiveOpExecutor"

text \<open>
  A read leaves the store alone and makes \<open>result()\<close> return what \<open>get\<close> returns; an
  append calls \<open>append\<close>; asking for the result does not touch the store.
\<close>

definition executor_ok :: "stdlib \<Rightarrow> executor_api \<Rightarrow> bool" where
  "executor_ok L X \<longleftrightarrow>
     (\<forall>st. exec_store (make_executor X st) = st) \<and>
     (\<forall>k e. \<exists>e'. Accept X (ReadOp k) e = (Inr (), e') \<and> exec_store e' = exec_store e \<and>
        fst (exec_result X e') = kv_get L (exec_store e) k) \<and>
     (\<forall>k v e. \<exists>e'. Accept X (AppendOp k v) e = (Inr (), e') \<and> exec_store e' = kv_append L (exec_store e) k v) \<and>
     (\<forall>e. exec_store (snd (exec_result X e)) = exec_store e)"

definition executor_ref :: "stdlib \<Rightarrow> executor_api" where
  "executor_ref L = \<lparr>
     make_executor = (\<lambda>st. \<lparr>exec_store = st, opResult = None\<rparr>),
     Accept = (\<lambda>op e. case op of
        ReadOp k \<Rightarrow> (Inr (), e\<lparr>opResult := kv_get L (exec_store e) k\<rparr>)
      | AppendOp k v \<Rightarrow> (Inr (), e\<lparr>exec_store := kv_append L (exec_store e) k v\<rparr>)),
     exec_result = (\<lambda>e. (opResult e, e))\<rparr>"

lemma executor_ref_ok [simp]: "executor_ok L (executor_ref L)"
  by (simp add: executor_ok_def executor_ref_def)

text \<open>Running one operation with a visitor, and what the contract says of it.\<close>

definition visit :: "executor_api \<Rightarrow> Operation \<Rightarrow> NaiveOpExecutor \<Rightarrow> Results res \<times> NaiveOpExecutor" where
  "visit X op v =
     (case Accept X op v of
        (Inl e, v') \<Rightarrow> (Inl e, v')
      | (Inr _, v') \<Rightarrow>
          if op_type op = READ
          then (case exec_result X v' of (r, v'') \<Rightarrow> (Inr [(op_key op, r)], v''))
          else (Inr [], v'))"

section \<open>Reference semantics of a transaction\<close>

text \<open>
  The abstract specification the scheduler is measured against: a transaction run
  alone on a map from keys to lists.
\<close>

type_synonym kv_map = "KeyType \<rightharpoonup> ValueContainer"

fun op_write :: "kv_map \<Rightarrow> Operation \<Rightarrow> kv_map" where
  "op_write m (ReadOp k) = m"
| "op_write m (AppendOp k v) = m(k \<mapsto> (case m k of None \<Rightarrow> [] | Some xs \<Rightarrow> xs) @ [v])"

fun op_read :: "kv_map \<Rightarrow> Operation \<Rightarrow> Results" where
  "op_read m (ReadOp k) = [(k, m k)]"
| "op_read m (AppendOp k v) = []"

fun run_ops :: "kv_map \<Rightarrow> Operation list \<Rightarrow> Results \<times> kv_map" where
  "run_ops m [] = ([], m)"
| "run_ops m (op # ops) =
     (let (rs, m') = run_ops (op_write m op) ops in (op_read m op @ rs, m'))"

abbreviation op_keys :: "Operation list \<Rightarrow> KeyType set" where
  "op_keys ops \<equiv> op_key ` set ops"

lemma run_ops_Cons [simp]:
  "fst (run_ops m (op # ops)) = op_read m op @ fst (run_ops (op_write m op) ops)"
  "snd (run_ops m (op # ops)) = snd (run_ops (op_write m op) ops)"
  by (simp_all add: case_prod_beta)

declare run_ops.simps(2) [simp del]

lemma run_ops_append:
  "run_ops m (xs @ ys) =
     (let (r1, m1) = run_ops m xs; (r2, m2) = run_ops m1 ys in (r1 @ r2, m2))"
  by (induction xs arbitrary: m) (simp_all add: run_ops.simps(2) case_prod_beta)

lemma run_ops_snoc:
  "run_ops m (xs @ [op]) =
     (fst (run_ops m xs) @ op_read (snd (run_ops m xs)) op, op_write (snd (run_ops m xs)) op)"
  by (simp add: run_ops_append run_ops.simps(2) case_prod_beta)

lemma op_write_other: "j \<noteq> op_key op \<Longrightarrow> op_write m op j = m j"
  by (cases op) auto

lemma op_write_cong: "m (op_key op) = m' (op_key op) \<Longrightarrow> op_write m op (op_key op) = op_write m' op (op_key op)"
  by (cases op) auto

lemma op_read_cong: "m (op_key op) = m' (op_key op) \<Longrightarrow> op_read m op = op_read m' op"
  by (cases op) auto

text \<open>One visit implements one step of the reference semantics.\<close>

lemma make_executor_store [simp]: "executor_ok L X \<Longrightarrow> exec_store (make_executor X st) = st"
  by (simp add: executor_ok_def)

lemma visit_refines:
  assumes "executor_ok L X" and "kv_wf L (exec_store v)"
  obtains v' where "visit X op v = (Inr (op_read (kv_get L (exec_store v)) op), v')"
    and "kv_wf L (exec_store v')"
    and "kv_get L (exec_store v') = op_write (kv_get L (exec_store v)) op"
proof (cases op)
  case (ReadOp k)
  obtain e' where e': "Accept X (ReadOp k) v = (Inr (), e')" "exec_store e' = exec_store v"
      "fst (exec_result X e') = kv_get L (exec_store v) k"
    using assms(1) unfolding executor_ok_def by blast
  obtain r v' where rv: "exec_result X e' = (r, v')" by force
  moreover have "exec_store v' = exec_store v"
    using assms(1) rv e'(2) unfolding executor_ok_def by (metis snd_conv)
  ultimately show ?thesis using e' assms(2) ReadOp by (intro that [of v']) (auto simp: visit_def)
next
  case (AppendOp k x)
  obtain e' where "Accept X (AppendOp k x) v = (Inr (), e')"
      "exec_store e' = kv_append L (exec_store v) k x"
    using assms(1) unfolding executor_ok_def by blast
  then show ?thesis
    using assms(2) AppendOp by (intro that [of e']) (auto simp: visit_def ts.get_app)
qed

text \<open>A transaction does not touch other keys, and depends only on its own.\<close>

lemma run_ops_other: "j \<notin> op_keys ops \<Longrightarrow> snd (run_ops m ops) j = m j"
  by (induction ops arbitrary: m) (auto simp: op_write_other)

lemma op_write_agree:
  assumes "\<And>j. j \<in> A \<Longrightarrow> m j = m' j" and "op_key op \<in> A" and "j \<in> A"
  shows "op_write m op j = op_write m' op j"
  using assms by (cases "j = op_key op") (auto simp: op_write_other intro: op_write_cong)

lemma run_ops_agree:
  "(\<And>j. j \<in> A \<Longrightarrow> m j = m' j) \<Longrightarrow> op_keys ops \<subseteq> A \<Longrightarrow>
   fst (run_ops m ops) = fst (run_ops m' ops) \<and> (\<forall>j \<in> A. snd (run_ops m ops) j = snd (run_ops m' ops) j)"
proof (induction ops arbitrary: m m')
  case (Cons op ops)
  have "op_read m op = op_read m' op" using Cons.prems by (auto intro: op_read_cong)
  moreover have "op_write m op j = op_write m' op j" if "j \<in> A" for j
    using Cons.prems that by (intro op_write_agree [of A]) auto
  ultimately show ?case
    using Cons.IH [of "op_write m op" "op_write m' op"] Cons.prems(2) by simp
qed simp

end
