(* ===== verification/Lock_Manager.thy ===== *)
theory Lock_Manager
  imports Prelude
begin

text \<open>
  \<open>transactions/LockManager.h\<close> and \<open>LockManager.cpp\<close>: exclusive per-key locks with
  bounded retrying. The records keep the data the mutexes protect; a mutex is
  modelled by the extent of the critical section it guards. While \<open>acquire\<close> does
  not hold the entry's mutex other threads may change the lock manager: each such
  window is an application of an interference function \<open>env w\<close>, where \<open>w\<close> counts
  the windows of the call. Window 0 lies between the lookup of the entry and the
  first check, windows 1 to 1000 follow the checks of the spin loop, windows 1001 to
  1500 those of the yield loop.
\<close>

section \<open>State and operations\<close>

datatype AcquireResult = ACQUIRED | ABORTED

record LockEntry =
  owner :: "TransactionId option"

record LockManager =
  lock_table :: "KeyType \<rightharpoonup> LockEntry"
  held_locks :: "TransactionId \<rightharpoonup> KeyType list"

type_synonym interference = "nat \<Rightarrow> LockManager \<Rightarrow> LockManager"

definition init_lock_manager :: LockManager where
  "init_lock_manager = \<lparr>lock_table = Map.empty, held_locks = Map.empty\<rparr>"

definition owner_of :: "LockManager \<Rightarrow> KeyType \<Rightarrow> TransactionId option" where
  "owner_of lm key = (case lock_table lm key of None \<Rightarrow> None | Some e \<Rightarrow> owner e)"

text \<open>\<open>lock_table.contains(key)\<close>\<close>

definition has_entry :: "LockManager \<Rightarrow> KeyType \<Rightarrow> bool" where
  "has_entry lm key = (case lock_table lm key of None \<Rightarrow> False | Some _ \<Rightarrow> True)"

definition set_owner :: "KeyType \<Rightarrow> TransactionId option \<Rightarrow> LockManager \<Rightarrow> LockManager" where
  "set_owner key o' lm =
     (case lock_table lm key of
        None \<Rightarrow> lm
      | Some e \<Rightarrow> lm\<lparr>lock_table := (lock_table lm)(key \<mapsto> e\<lparr>owner := o'\<rparr>)\<rparr>)"

text \<open>The section under \<open>table_mutex\<close>: create the entry if it does not exist.\<close>

definition ensure_entry :: "KeyType \<Rightarrow> LockManager \<Rightarrow> LockManager" where
  "ensure_entry key lm =
     (if has_entry lm key then lm
      else lm\<lparr>lock_table := (lock_table lm)(key \<mapsto> \<lparr>owner = None\<rparr>)\<rparr>)"

text \<open>The section under \<open>held_locks_mutex\<close>: \<open>held_locks[tx_id].insert(key)\<close>.\<close>

definition track :: "KeyType \<Rightarrow> TransactionId \<Rightarrow> LockManager \<Rightarrow> LockManager" where
  "track key tx lm =
     lm\<lparr>held_locks := (held_locks lm)(tx \<mapsto>
       List.insert key (case held_locks lm tx of None \<Rightarrow> [] | Some ks \<Rightarrow> ks))\<rparr>"

definition MAX_SPINS :: nat where
  "MAX_SPINS = 1000"

definition MAX_YIELDS :: nat where
  "MAX_YIELDS = 500"

text \<open>The two retry loops; the third argument from the right counts the iterations
  left, the next one the windows passed so far. \<open>None\<close>: the loop ran out.\<close>

fun spin_loop :: "interference \<Rightarrow> KeyType \<Rightarrow> TransactionId \<Rightarrow> nat \<Rightarrow> nat \<Rightarrow> LockManager
    \<Rightarrow> AcquireResult option \<times> LockManager" where
  "spin_loop env key tx 0 w lm = (None, lm)"
| "spin_loop env key tx (Suc n) w lm =
     (case owner_of lm key of
        None \<Rightarrow> (Some ACQUIRED, set_owner key (Some tx) lm)
      | Some owner_id \<Rightarrow>
          if owner_id = tx then (Some ACQUIRED, lm)
          else spin_loop env key tx n (Suc w) (env w lm))"

fun yield_loop :: "interference \<Rightarrow> KeyType \<Rightarrow> TransactionId \<Rightarrow> nat \<Rightarrow> nat \<Rightarrow> LockManager
    \<Rightarrow> AcquireResult option \<times> LockManager" where
  "yield_loop env key tx 0 w lm = (None, lm)"
| "yield_loop env key tx (Suc n) w lm =
     (case owner_of lm key of
        None \<Rightarrow> (Some ACQUIRED, set_owner key (Some tx) lm)
      | Some _ \<Rightarrow> yield_loop env key tx n (Suc w) (env w lm))"

definition acquire_with_wait_die ::
  "interference \<Rightarrow> KeyType \<Rightarrow> TransactionId \<Rightarrow> LockManager \<Rightarrow> AcquireResult \<times> LockManager" where
  "acquire_with_wait_die env key tx lm =
     (case spin_loop env key tx MAX_SPINS 1 lm of
        (Some r, lm') \<Rightarrow> (r, lm')
      | (None, lm') \<Rightarrow>
          (case yield_loop env key tx MAX_YIELDS (1 + MAX_SPINS) lm' of
             (Some r, lm'') \<Rightarrow> (r, lm'')
           | (None, lm'') \<Rightarrow> (ABORTED, lm'')))"

definition acquire ::
  "interference \<Rightarrow> KeyType \<Rightarrow> TransactionId \<Rightarrow> LockManager \<Rightarrow> AcquireResult \<times> LockManager" where
  "acquire env key tx lm =
     acquire_with_wait_die env key tx (track key tx (env 0 (ensure_entry key lm)))"

definition release :: "KeyType \<Rightarrow> TransactionId \<Rightarrow> LockManager \<Rightarrow> LockManager" where
  "release key tx lm =
     (case lock_table lm key of
        None \<Rightarrow> lm
      | Some e \<Rightarrow>
          if owner e \<noteq> Some tx then lm
          else
            (let lm1 = set_owner key None lm
             in (case held_locks lm1 tx of
                   None \<Rightarrow> lm1
                 | Some ks \<Rightarrow>
                     (let ks' = removeAll key ks
                      in lm1\<lparr>held_locks := (held_locks lm1)(tx := (if ks' = [] then None else Some ks'))\<rparr>))))"

definition release_all :: "stdlib \<Rightarrow> TransactionId \<Rightarrow> LockManager \<Rightarrow> LockManager" where
  "release_all L tx lm =
     (case held_locks lm tx of
        None \<Rightarrow> lm
      | Some keys_to_release \<Rightarrow>
          foldl (\<lambda>m key. release key tx m)
            (lm\<lparr>held_locks := (held_locks lm)(tx := None)\<rparr>)
            (key_order L keys_to_release))"

definition holds_lock :: "LockManager \<Rightarrow> KeyType \<Rightarrow> TransactionId \<Rightarrow> bool" where
  "holds_lock lm key tx =
     (case held_locks lm tx of None \<Rightarrow> False | Some ks \<Rightarrow> key \<in> set ks)"

text \<open>No other thread runs.\<close>

definition quiet :: interference where
  "quiet = (\<lambda>_ lm. lm)"

lemma quiet_apply: "quiet w lm = lm"
  by (simp add: quiet_def)

section \<open>The invariant\<close>

text \<open>
  Of one transaction: it is tracked under the keys it owns, its tracked set is not
  empty and has no duplicates, and the keys in it have entries. In the middle of
  \<open>release_all\<close> a transaction owns keys it is no longer tracked under, so the
  invariant is stated per transaction: it is what a transaction knows of itself
  between its own calls, whatever the others are in the middle of.
\<close>

definition tx_inv :: "TransactionId \<Rightarrow> LockManager \<Rightarrow> bool" where
  "tx_inv t lm \<longleftrightarrow>
     (\<forall>k. owner_of lm k = Some t \<longrightarrow> holds_lock lm k t) \<and>
     (\<forall>k. holds_lock lm k t \<longrightarrow> has_entry lm k) \<and>
     (\<forall>ks. held_locks lm t = Some ks \<longrightarrow> ks \<noteq> [] \<and> distinct ks)"

lemma tx_invI [intro?]:
  assumes "\<And>k. owner_of lm k = Some t \<Longrightarrow> holds_lock lm k t"
    and "\<And>k. holds_lock lm k t \<Longrightarrow> has_entry lm k"
    and "\<And>ks. held_locks lm t = Some ks \<Longrightarrow> ks \<noteq> [] \<and> distinct ks"
  shows "tx_inv t lm"
  using assms unfolding tx_inv_def by blast

lemma tx_invD:
  assumes "tx_inv t lm"
  shows "owner_of lm k = Some t \<Longrightarrow> holds_lock lm k t"
    and "holds_lock lm k t \<Longrightarrow> has_entry lm k"
    and "held_locks lm t = Some ks \<Longrightarrow> ks \<noteq> [] \<and> distinct ks"
  using assms unfolding tx_inv_def by blast+

lemma tx_inv_init [simp]: "tx_inv t init_lock_manager"
  by (simp add: tx_inv_def init_lock_manager_def owner_of_def holds_lock_def)

subsection \<open>Effects of the elementary sections\<close>

lemma ensure_entry_effects [simp]:
  "owner_of (ensure_entry k lm) j = owner_of lm j"
  "held_locks (ensure_entry k lm) = held_locks lm"
  "holds_lock (ensure_entry k lm) = holds_lock lm"
  "has_entry (ensure_entry k lm) j \<longleftrightarrow> j = k \<or> has_entry lm j"
  by (cases "lock_table lm k";
      auto simp: ensure_entry_def has_entry_def owner_of_def holds_lock_def fun_eq_iff)+

lemma track_effects [simp]:
  "owner_of (track k t lm) j = owner_of lm j"
  "has_entry (track k t lm) = has_entry lm"
  "holds_lock (track k t lm) j u \<longleftrightarrow> (j = k \<and> u = t) \<or> holds_lock lm j u"
  "u \<noteq> t \<Longrightarrow> held_locks (track k t lm) u = held_locks lm u"
  by (auto simp: track_def has_entry_def owner_of_def holds_lock_def fun_eq_iff split: option.splits)

lemma set_owner_effects [simp]:
  "has_entry lm k \<Longrightarrow> owner_of (set_owner k x lm) j = (if j = k then x else owner_of lm j)"
  "held_locks (set_owner k x lm) = held_locks lm"
  "holds_lock (set_owner k x lm) = holds_lock lm"
  "has_entry (set_owner k x lm) j = has_entry lm j"
  by (auto simp: set_owner_def has_entry_def owner_of_def holds_lock_def fun_eq_iff
      split: option.splits)

lemma owner_of_entry: "owner_of lm k = Some t \<Longrightarrow> has_entry lm k"
  by (auto simp: owner_of_def has_entry_def split: option.splits)

lemma tx_inv_ensure_entry [simp]: "tx_inv t lm \<Longrightarrow> tx_inv t (ensure_entry k lm)"
  unfolding tx_inv_def by simp

lemma tx_inv_track [simp]:
  assumes "tx_inv t lm" and "has_entry lm k"
  shows "tx_inv t (track k u lm)"
proof
  fix j
  assume "owner_of (track k u lm) j = Some t"
  then show "holds_lock (track k u lm) j t" using tx_invD(1) [OF assms(1)] by simp
next
  fix j
  assume "holds_lock (track k u lm) j t"
  then show "has_entry (track k u lm) j" using tx_invD(2) [OF assms(1)] assms(2) by auto
next
  fix ks
  assume "held_locks (track k u lm) t = Some ks"
  then show "ks \<noteq> [] \<and> distinct ks"
    using tx_invD(3) [OF assms(1)]
    by (cases "u = t") (auto simp: track_def List.insert_def split: option.splits if_splits)
qed

lemma tx_inv_set_owner [simp]:
  "tx_inv t lm \<Longrightarrow> has_entry lm k \<Longrightarrow> holds_lock lm k t \<Longrightarrow> tx_inv t (set_owner k (Some t) lm)"
  unfolding tx_inv_def by auto

subsection \<open>Releasing\<close>

lemma release_not_owner: "owner_of lm k \<noteq> Some t \<Longrightarrow> release k t lm = lm"
  by (auto simp: release_def owner_of_def split: option.splits)

lemma release_owned:
  assumes "owner_of lm k = Some t"
  shows "release k t lm = (set_owner k None lm)\<lparr>held_locks := (held_locks lm)(t :=
     (case held_locks lm t of None \<Rightarrow> None
      | Some ks \<Rightarrow> if removeAll k ks = [] then None else Some (removeAll k ks)))\<rparr>"
proof -
  obtain e where "lock_table lm k = Some e" "owner e = Some t"
    using assms by (auto simp: owner_of_def split: option.splits)
  then show ?thesis
    by (cases lm; cases "held_locks lm t")
       (auto simp: release_def Let_def set_owner_def fun_upd_idem)
qed

lemma held_update_effects [simp]:
  "owner_of (lm\<lparr>held_locks := h\<rparr>) k = owner_of lm k"
  "has_entry (lm\<lparr>held_locks := h\<rparr>) k = has_entry lm k"
  by (simp_all add: owner_of_def has_entry_def)

lemma release_effects [simp]:
  "owner_of (release k t lm) j = (if j = k \<and> owner_of lm k = Some t then None else owner_of lm j)"
  "has_entry (release k t lm) j = has_entry lm j"
  "u \<noteq> t \<Longrightarrow> held_locks (release k t lm) u = held_locks lm u"
  by (cases "owner_of lm k = Some t";
      simp add: release_owned release_not_owner owner_of_entry)+

lemma holds_lock_release [simp]:
  "holds_lock (release k t lm) j u \<longleftrightarrow>
     holds_lock lm j u \<and> \<not> (j = k \<and> u = t \<and> owner_of lm k = Some t)"
proof (cases "owner_of lm k = Some t \<and> u = t")
  case True
  then show ?thesis
    by (cases "held_locks lm t") (auto simp: release_owned holds_lock_def)
next
  case False
  then show ?thesis
    by (cases "u = t") (auto simp: release_not_owner holds_lock_def)
qed

lemma release_untracked:
  "held_locks lm t = None \<Longrightarrow> held_locks (release k t lm) = held_locks lm"
  by (cases "owner_of lm k = Some t") (auto simp: release_owned release_not_owner)

lemma tx_inv_release [simp]:
  assumes "tx_inv t lm"
  shows "tx_inv t (release k u lm)"
proof
  fix j
  assume "owner_of (release k u lm) j = Some t"
  then show "holds_lock (release k u lm) j t"
    using tx_invD(1) [OF assms] by (auto split: if_splits)
next
  fix j
  assume "holds_lock (release k u lm) j t"
  then show "has_entry (release k u lm) j" using tx_invD(2) [OF assms, of j] by simp
next
  fix ks
  assume "held_locks (release k u lm) t = Some ks"
  then show "ks \<noteq> [] \<and> distinct ks"
    using tx_invD(3) [OF assms]
    by (cases "owner_of lm k = Some u")
       (auto simp: release_owned release_not_owner distinct_removeAll
         split: option.splits if_splits)
qed

text \<open>A run of releases of one transaction's keys.\<close>

lemma releases_effects:
  "owner_of (foldl (\<lambda>m k. release k t m) lm ks) j =
     (if j \<in> set ks \<and> owner_of lm j = Some t then None else owner_of lm j)"
  "has_entry (foldl (\<lambda>m k. release k t m) lm ks) j = has_entry lm j"
  by (induction ks arbitrary: lm) auto

lemma releases_untracked:
  "held_locks lm t = None \<Longrightarrow> held_locks (foldl (\<lambda>m k. release k t m) lm ks) = held_locks lm"
  by (induction ks arbitrary: lm) (simp_all add: release_untracked)

lemma lock_table_release:
  "lock_table (release k t lm) =
     (if owner_of lm k = Some t then (lock_table lm)(k \<mapsto> \<lparr>owner = None\<rparr>) else lock_table lm)"
proof (cases "owner_of lm k = Some t")
  case True
  then obtain e where "lock_table lm k = Some e"
    by (auto simp: owner_of_def split: option.splits)
  then obtain x where "lock_table lm k = Some \<lparr>owner = x\<rparr>" by (cases e) simp
  with True show ?thesis by (simp add: release_owned set_owner_def)
next
  case False
  then show ?thesis by (simp add: release_not_owner)
qed

lemma lock_table_releases:
  "lock_table (foldl (\<lambda>m k. release k t m) lm ks) =
     (\<lambda>j. if j \<in> set ks \<and> owner_of lm j = Some t then Some \<lparr>owner = None\<rparr> else lock_table lm j)"
  by (induction ks arbitrary: lm) (auto simp: lock_table_release)

lemma release_all_lock_table:
  assumes "tx_inv t lm" and "std_ok L"
  shows "lock_table (release_all L t lm) =
     (\<lambda>j. if owner_of lm j = Some t then Some \<lparr>owner = None\<rparr> else lock_table lm j)"
proof (cases "held_locks lm t")
  case None
  then have "owner_of lm j \<noteq> Some t" for j
    using tx_invD(1) [OF assms(1), of j] by (auto simp: holds_lock_def)
  with None show ?thesis by (simp add: release_all_def)
next
  case (Some ks)
  then have "owner_of lm j = Some t \<Longrightarrow> j \<in> set ks" for j
    using tx_invD(1) [OF assms(1), of j] by (simp add: holds_lock_def)
  with Some assms(2) show ?thesis
    by (auto simp: release_all_def lock_table_releases fun_eq_iff)
qed

lemma release_all_held:
  "held_locks (release_all L t lm) = (held_locks lm)(t := None)"
  by (cases "held_locks lm t") (auto simp: release_all_def releases_untracked)

lemma release_all_owner:
  assumes "tx_inv t lm" and "std_ok L"
  shows "owner_of (release_all L t lm) k =
     (if owner_of lm k = Some t then None else owner_of lm k)"
  by (simp add: owner_of_def release_all_lock_table [OF assms])

lemma release_all_has_entry [simp]: "has_entry (release_all L t lm) k = has_entry lm k"
  by (cases "held_locks lm t") (simp_all add: release_all_def releases_effects)

section \<open>Rely and guarantee\<close>

text \<open>
  What a transaction may rely on while others run, and what each operation
  guarantees to the others: the locks and the tracking of \<open>t\<close> are left alone, and
  no entry disappears.
\<close>

definition leaves :: "TransactionId \<Rightarrow> LockManager \<Rightarrow> LockManager \<Rightarrow> bool" where
  "leaves t lm lm' \<longleftrightarrow>
     (\<forall>k. owner_of lm' k = Some t \<longleftrightarrow> owner_of lm k = Some t) \<and>
     held_locks lm' t = held_locks lm t \<and>
     (\<forall>k. has_entry lm k \<longrightarrow> has_entry lm' k)"

lemma leaves_refl [simp]: "leaves t lm lm"
  by (simp add: leaves_def)

lemma leaves_trans [trans]: "leaves t a b \<Longrightarrow> leaves t b c \<Longrightarrow> leaves t a c"
  by (auto simp: leaves_def)

lemma leavesD:
  assumes "leaves t lm lm'"
  shows "owner_of lm' k = Some t \<longleftrightarrow> owner_of lm k = Some t"
    and "held_locks lm' t = held_locks lm t"
    and "has_entry lm k \<Longrightarrow> has_entry lm' k"
    and "holds_lock lm' k t = holds_lock lm k t"
  using assms by (auto simp: leaves_def holds_lock_def)

lemma leaves_elementary:
  "leaves t lm (ensure_entry k lm)"
  "t \<noteq> u \<Longrightarrow> leaves t lm (track k u lm)"
  "t \<noteq> u \<Longrightarrow> leaves t lm (release k u lm)"
  by (auto simp: leaves_def)

lemma set_owner_no_entry: "\<not> has_entry lm k \<Longrightarrow> set_owner k x lm = lm"
  by (simp add: set_owner_def has_entry_def split: option.splits)

lemma leaves_take:
  "t \<noteq> u \<Longrightarrow> owner_of lm k = None \<Longrightarrow> leaves t lm (set_owner k (Some u) lm)"
  by (cases "has_entry lm k") (auto simp: leaves_def set_owner_no_entry)

lemma leaves_release_all:
  "tx_inv u lm \<Longrightarrow> std_ok L \<Longrightarrow> t \<noteq> u \<Longrightarrow> leaves t lm (release_all L u lm)"
  by (auto simp: leaves_def release_all_owner release_all_held)

lemma tx_inv_leaves: "tx_inv t lm \<Longrightarrow> leaves t lm lm' \<Longrightarrow> tx_inv t lm'"
  using leavesD [of t lm lm'] unfolding tx_inv_def by metis

lemma tx_inv_release_all:
  assumes "tx_inv u lm" and "std_ok L" and "tx_inv t lm"
  shows "tx_inv t (release_all L u lm)"
proof (cases "t = u")
  case True
  with assms show ?thesis
    by (auto simp: tx_inv_def release_all_owner release_all_held holds_lock_def)
next
  case False
  with assms show ?thesis using leaves_release_all tx_inv_leaves by blast
qed

text \<open>The contract of the other threads towards \<open>tx\<close>, window by window.\<close>

locale rely_env =
  fixes tx :: TransactionId and env :: interference
  assumes env_leaves: "leaves tx lm (env w lm)"
begin

text \<open>What every exit of a retry loop establishes.\<close>

definition settled :: "KeyType \<Rightarrow> LockManager \<Rightarrow> AcquireResult option \<Rightarrow> LockManager \<Rightarrow> bool" where
  "settled key lm r lm' \<longleftrightarrow>
     tx_inv tx lm' \<and> has_entry lm' key \<and> holds_lock lm' key tx \<and>
     r \<noteq> Some ABORTED \<and> (r = Some ACQUIRED \<longleftrightarrow> owner_of lm' key = Some tx) \<and>
     (\<forall>j. owner_of lm j = Some tx \<longrightarrow> owner_of lm' j = Some tx)"

lemma spin_loop_settled:
  assumes "tx_inv tx lm" "has_entry lm key" "holds_lock lm key tx"
    and "owner_of lm key = Some tx \<longrightarrow> 0 < n"
    and "spin_loop env key tx n w lm = (r, lm')"
  shows "settled key lm r lm'"
  using assms
proof (induction n arbitrary: w lm)
  case 0
  then show ?case by (auto simp: settled_def)
next
  case (Suc n)
  show ?case
  proof (cases "owner_of lm key = None \<or> owner_of lm key = Some tx")
    case True
    with Suc.prems show ?thesis by (auto simp: settled_def split: if_splits)
  next
    case False
    then obtain u where u: "owner_of lm key = Some u" "u \<noteq> tx" by auto
    note step = leavesD [OF env_leaves [of lm w]]
    have "settled key (env w lm) r lm'"
      using Suc.prems u tx_inv_leaves [OF _ env_leaves] step by (intro Suc.IH [of _ "Suc w"]) auto
    with step show ?thesis by (auto simp: settled_def)
  qed
qed

lemma yield_loop_settled:
  assumes "tx_inv tx lm" "has_entry lm key" "holds_lock lm key tx"
    and "owner_of lm key \<noteq> Some tx"
    and "yield_loop env key tx n w lm = (r, lm')"
  shows "settled key lm r lm'"
  using assms
proof (induction n arbitrary: w lm)
  case 0
  then show ?case by (auto simp: settled_def)
next
  case (Suc n)
  show ?case
  proof (cases "owner_of lm key")
    case None
    with Suc.prems show ?thesis by (auto simp: settled_def split: if_splits)
  next
    case (Some u)
    note step = leavesD [OF env_leaves [of lm w]]
    have "settled key (env w lm) r lm'"
      using Suc.prems Some tx_inv_leaves [OF _ env_leaves] step by (intro Suc.IH [of _ "Suc w"]) auto
    with step show ?thesis by (auto simp: settled_def)
  qed
qed

lemma acquire_with_wait_die_settled:
  assumes "tx_inv tx lm" "has_entry lm key" "holds_lock lm key tx"
    and "acquire_with_wait_die env key tx lm = (r, lm')"
  shows "tx_inv tx lm' \<and> holds_lock lm' key tx \<and> (r = ACQUIRED \<longleftrightarrow> owner_of lm' key = Some tx) \<and>
    (\<forall>j. owner_of lm j = Some tx \<longrightarrow> owner_of lm' j = Some tx)"
proof -
  obtain r1 lm1 where 1: "spin_loop env key tx MAX_SPINS 1 lm = (r1, lm1)" by force
  have s1: "settled key lm r1 lm1"
    using spin_loop_settled [OF assms(1-3) _ 1] by (simp add: MAX_SPINS_def)
  show ?thesis
  proof (cases r1)
    case (Some r')
    with s1 1 assms(4) show ?thesis
      by (cases r') (auto simp: acquire_with_wait_die_def settled_def)
  next
    case None
    obtain r2 lm2 where 2: "yield_loop env key tx MAX_YIELDS (1 + MAX_SPINS) lm1 = (r2, lm2)"
      by force
    have "settled key lm1 r2 lm2"
      using s1 None by (intro yield_loop_settled [OF _ _ _ _ 2]) (auto simp: settled_def)
    with s1 None 1 2 assms(4) show ?thesis
      by (cases r2) (auto simp: acquire_with_wait_die_def settled_def elim: AcquireResult.exhaust)
  qed
qed

lemma acquire_settled:
  assumes "tx_inv tx lm" and "acquire env key tx lm = (r, lm')"
  shows "tx_inv tx lm' \<and> holds_lock lm' key tx \<and> (r = ACQUIRED \<longleftrightarrow> owner_of lm' key = Some tx) \<and>
    (\<forall>j. owner_of lm j = Some tx \<longrightarrow> owner_of lm' j = Some tx)"
proof -
  let ?lm0 = "env 0 (ensure_entry key lm)"
  note step = leavesD [OF env_leaves [of "ensure_entry key lm" 0]]
  have "tx_inv tx ?lm0" "has_entry ?lm0 key"
    using tx_inv_leaves [OF _ env_leaves [of "ensure_entry key lm"]] step(3) assms(1) by auto
  then show ?thesis
    using acquire_with_wait_die_settled [of "track key tx ?lm0" key r lm'] assms(2) step(1)
    by (simp add: acquire_def)
qed

end

interpretation quiet: rely_env tx quiet for tx
  by unfold_locales (simp_all add: quiet_apply)

section \<open>What an acquisition guarantees to the other transactions\<close>

lemma spin_loop_leaves:
  "(\<And>w lm. leaves u lm (env w lm)) \<Longrightarrow> u \<noteq> tx \<Longrightarrow> leaves u lm (snd (spin_loop env key tx n w lm))"
proof (induction n arbitrary: w lm)
  case (Suc n)
  have "leaves u lm (snd (spin_loop env key tx n (Suc w) (env w lm)))"
    by (rule leaves_trans [OF Suc.prems(1) Suc.IH [OF Suc.prems]])
  with Suc.prems(2) show ?case by (auto split: option.split intro: leaves_take)
qed simp

lemma yield_loop_leaves:
  "(\<And>w lm. leaves u lm (env w lm)) \<Longrightarrow> u \<noteq> tx \<Longrightarrow> leaves u lm (snd (yield_loop env key tx n w lm))"
proof (induction n arbitrary: w lm)
  case (Suc n)
  have "leaves u lm (snd (yield_loop env key tx n (Suc w) (env w lm)))"
    by (rule leaves_trans [OF Suc.prems(1) Suc.IH [OF Suc.prems]])
  with Suc.prems(2) show ?case by (auto split: option.split intro: leaves_take)
qed simp

lemma acquire_leaves:
  assumes "\<And>w lm. leaves u lm (env w lm)" and "u \<noteq> tx"
  shows "leaves u lm (snd (acquire env key tx lm))"
proof -
  let ?lm0 = "track key tx (env 0 (ensure_entry key lm))"
  have "leaves u lm (ensure_entry key lm)" by (rule leaves_elementary)
  also have "leaves u (ensure_entry key lm) (env 0 (ensure_entry key lm))" by (rule assms(1))
  also have "leaves u (env 0 (ensure_entry key lm)) ?lm0"
    by (rule leaves_elementary(2) [OF assms(2)])
  finally have "leaves u lm ?lm0" .
  moreover have "leaves u ?lm0 (snd (acquire_with_wait_die env key tx ?lm0))"
    using spin_loop_leaves [of u env tx, OF assms, where key = key and n = MAX_SPINS and w = 1 and lm = ?lm0]
      yield_loop_leaves [of u env tx, OF assms, where key = key and n = MAX_YIELDS and w = "1 + MAX_SPINS"
        and lm = "snd (spin_loop env key tx MAX_SPINS 1 ?lm0)"]
    by (auto simp: acquire_with_wait_die_def split: prod.splits option.splits intro: leaves_trans)
  ultimately show ?thesis unfolding acquire_def by (rule leaves_trans)
qed

section \<open>The retry loops against a reference\<close>

text \<open>The state seen by the \<open>i\<close>-th check if all checks before it failed.\<close>

fun windows :: "interference \<Rightarrow> nat \<Rightarrow> nat \<Rightarrow> LockManager \<Rightarrow> LockManager" where
  "windows env w 0 lm = lm"
| "windows env w (Suc i) lm = windows env (Suc w) i (env w lm)"

lemma ex_less_Suc_0: "(\<exists>i < Suc n. P i) \<longleftrightarrow> P 0 \<or> (\<exists>i < n. P (Suc i))"
  using less_Suc_eq_0_disj by auto

lemma windows_add: "windows env (w + i) j (windows env w i lm) = windows env w (i + j) lm"
  by (induction i arbitrary: w lm) (simp, metis add_Suc add_Suc_shift windows.simps(2))

lemma spin_loop_reference:
  "fst (spin_loop env key tx n w lm) =
     (if \<exists>i < n. owner_of (windows env w i lm) key \<in> {None, Some tx} then Some ACQUIRED else None)"
  by (induction n arbitrary: w lm) (auto simp: ex_less_Suc_0 split: option.split)

lemma spin_loop_exhausted:
  "fst (spin_loop env key tx n w lm) = None \<Longrightarrow> snd (spin_loop env key tx n w lm) = windows env w n lm"
  by (induction n arbitrary: w lm) (auto split: option.splits if_splits)

lemma yield_loop_reference:
  "fst (yield_loop env key tx n w lm) =
     (if \<exists>i < n. owner_of (windows env w i lm) key = None then Some ACQUIRED else None)"
  by (induction n arbitrary: w lm) (auto simp: ex_less_Suc_0 split: option.split)

lemma acquire_with_wait_die_reference:
  "fst (acquire_with_wait_die env key tx lm) = ACQUIRED \<longleftrightarrow>
     (\<exists>i < MAX_SPINS. owner_of (windows env 1 i lm) key \<in> {None, Some tx}) \<or>
     (\<exists>i < MAX_YIELDS. owner_of (windows env 1 (MAX_SPINS + i) lm) key = None)"
proof -
  obtain r lm' where sp: "spin_loop env key tx MAX_SPINS 1 lm = (r, lm')" by force
  note ref = spin_loop_reference [of env key tx MAX_SPINS 1 lm, unfolded sp, simplified fst_conv]
  show ?thesis
  proof (cases "\<exists>i < MAX_SPINS. owner_of (windows env 1 i lm) key \<in> {None, Some tx}")
    case True
    then have "r = Some ACQUIRED" using ref by simp
    with True sp show ?thesis by (simp add: acquire_with_wait_die_def)
  next
    case False
    then have r: "r = None" using ref by simp
    then have lm': "lm' = windows env 1 MAX_SPINS lm"
      using spin_loop_exhausted [of env key tx MAX_SPINS 1 lm] sp by simp
    obtain r2 lm2 where y: "yield_loop env key tx MAX_YIELDS (1 + MAX_SPINS) lm' = (r2, lm2)" by force
    have "r2 = (if \<exists>i < MAX_YIELDS. owner_of (windows env 1 (MAX_SPINS + i) lm) key = None
                then Some ACQUIRED else None)"
      using yield_loop_reference [of env key tx MAX_YIELDS "1 + MAX_SPINS" lm', unfolded y]
      unfolding lm' windows_add by simp
    with False sp y r show ?thesis by (auto simp: acquire_with_wait_die_def)
  qed
qed

section \<open>The lock interface of the scheduler\<close>

text \<open>
  The growing phase of a transaction: lock the keys one after the other, stop at the
  first refusal.
\<close>

fun acquire_each :: "('k \<Rightarrow> 's \<Rightarrow> AcquireResult \<times> 's) \<Rightarrow> 'k list \<Rightarrow> 's \<Rightarrow> bool \<times> 's" where
  "acquire_each acq [] s = (True, s)"
| "acquire_each acq (k # ks) s =
     (case acq k s of
        (ACQUIRED, s') \<Rightarrow> acquire_each acq ks s'
      | (ABORTED, s') \<Rightarrow> (False, s'))"

text \<open>
  What a client with one transaction relies on: \<open>acq\<close> locks a key or refuses,
  \<open>owns\<close> is the ownership of that transaction, \<open>rel_all\<close> gives everything back.
\<close>

locale exclusive_locks =
  fixes acq :: "'k \<Rightarrow> 's \<Rightarrow> AcquireResult \<times> 's"
    and rel_all :: "'s \<Rightarrow> 's"
    and owns :: "'s \<Rightarrow> 'k \<Rightarrow> bool"
    and inv :: "'s \<Rightarrow> bool"
  assumes acq_inv: "inv s \<Longrightarrow> inv (snd (acq k s))"
    and acq_owns: "inv s \<Longrightarrow> fst (acq k s) = ACQUIRED \<longleftrightarrow> owns (snd (acq k s)) k"
    and acq_keeps: "inv s \<Longrightarrow> owns s j \<Longrightarrow> owns (snd (acq k s)) j"
    and rel_inv: "inv s \<Longrightarrow> inv (rel_all s)"
    and rel_none: "inv s \<Longrightarrow> \<not> owns (rel_all s) k"
begin

lemma acquire_each_correct:
  assumes "inv s" and "acquire_each acq ks s = (b, s')"
  shows "inv s' \<and> (\<forall>j. owns s j \<longrightarrow> owns s' j) \<and>
    (if b then \<forall>k \<in> set ks. owns s' k else \<exists>k \<in> set ks. \<not> owns s' k)"
  using assms
proof (induction ks arbitrary: s)
  case Nil
  then show ?case by auto
next
  case (Cons k ks)
  obtain r s1 where 1: "acq k s = (r, s1)" by force
  have s1: "inv s1" "r = ACQUIRED \<longleftrightarrow> owns s1 k" "\<And>j. owns s j \<Longrightarrow> owns s1 j"
    using acq_inv [OF Cons.prems(1), of k] acq_owns [OF Cons.prems(1), of k]
      acq_keeps [OF Cons.prems(1), of _ k] 1 by auto
  show ?case
  proof (cases r)
    case ACQUIRED
    then have "acquire_each acq ks s1 = (b, s')" using Cons.prems(2) 1 by simp
    from Cons.IH [OF s1(1) this] s1 ACQUIRED show ?thesis by (auto split: if_splits)
  next
    case ABORTED
    then show ?thesis using Cons.prems(2) 1 s1 by (auto split: if_splits)
  qed
qed

lemma acquire_each_abort:
  "inv s \<Longrightarrow> acquire_each acq ks s = (False, s') \<Longrightarrow> inv (rel_all s') \<and> \<not> owns (rel_all s') k"
  using acquire_each_correct rel_inv rel_none by blast

end

text \<open>
  The lock manager provides it to a transaction \<open>tx\<close> while the other threads keep
  their contract during each of its calls.
\<close>

locale rely_family =
  fixes tx :: TransactionId and envs :: "KeyType \<Rightarrow> interference" and L :: stdlib
  assumes envs: "rely_env tx (envs k)" and std: "std_ok L"

sublocale rely_family \<subseteq> exclusive_locks "\<lambda>k. acquire (envs k) k tx" "release_all L tx"
    "\<lambda>lm k. owner_of lm k = Some tx" "tx_inv tx"
proof
  fix s k j
  assume inv: "tx_inv tx s"
  obtain r s' where a: "acquire (envs k) k tx s = (r, s')" by force
  note * = rely_env.acquire_settled [OF envs inv a]
  show "tx_inv tx (snd (acquire (envs k) k tx s))"
    and "fst (acquire (envs k) k tx s) = ACQUIRED \<longleftrightarrow>
       owner_of (snd (acquire (envs k) k tx s)) k = Some tx"
    and "owner_of s j = Some tx \<Longrightarrow> owner_of (snd (acquire (envs k) k tx s)) j = Some tx"
    using * a by auto
  show "tx_inv tx (release_all L tx s)" by (rule tx_inv_release_all [OF inv std inv])
  show "owner_of (release_all L tx s) k \<noteq> Some tx"
    by (simp add: release_all_owner [OF inv std])
qed

context rely_family
begin

text \<open>The growing phase of \<open>tx\<close>: all of the keys or a refusal, and nothing left after
  the release.\<close>

lemma growing_phase:
  assumes "tx_inv tx lm" and "acquire_each (\<lambda>k. acquire (envs k) k tx) ks lm = (b, lm')"
  shows "tx_inv tx lm'" and "b \<Longrightarrow> k \<in> set ks \<Longrightarrow> owner_of lm' k = Some tx"
    and "tx_inv tx (release_all L tx lm')" and "owner_of (release_all L tx lm') k \<noteq> Some tx"
proof -
  have "tx_inv tx lm' \<and> (b \<longrightarrow> (\<forall>k \<in> set ks. owner_of lm' k = Some tx))"
    using acquire_each_correct [OF assms] by (simp split: if_splits)
  then show "tx_inv tx lm'" "b \<Longrightarrow> k \<in> set ks \<Longrightarrow> owner_of lm' k = Some tx"
      "tx_inv tx (release_all L tx lm')" "owner_of (release_all L tx lm') k \<noteq> Some tx"
    using rel_inv rel_none by blast+
qed

end

interpretation quiet_family: rely_family tx "\<lambda>_. quiet" std_ref for tx
  by unfold_locales (simp_all add: quiet_apply)

text \<open>
  The calls of other transactions on the same lock manager keep the contract: in every
  window any number of them, each undisturbed.
\<close>

datatype lock_call = Acquire KeyType TransactionId | Release KeyType TransactionId | ReleaseAll TransactionId

fun caller :: "lock_call \<Rightarrow> TransactionId" where
  "caller (Acquire k u) = u"
| "caller (Release k u) = u"
| "caller (ReleaseAll u) = u"

fun call_effect :: "stdlib \<Rightarrow> lock_call \<Rightarrow> LockManager \<Rightarrow> LockManager" where
  "call_effect L (Acquire k u) lm = snd (acquire quiet k u lm)"
| "call_effect L (Release k u) lm = release k u lm"
| "call_effect L (ReleaseAll u) lm = release_all L u lm"

definition calls_env :: "stdlib \<Rightarrow> (nat \<Rightarrow> lock_call list) \<Rightarrow> interference" where
  "calls_env L calls w lm = fold (call_effect L) (calls w) lm"

lemma releases_leaves: "t \<noteq> u \<Longrightarrow> leaves t lm (foldl (\<lambda>m key. release key u m) lm ks)"
  by (induction ks arbitrary: lm) (auto intro: leaves_trans [OF leaves_elementary(3)])

lemma call_leaves:
  assumes "caller c \<noteq> t"
  shows "leaves t lm (call_effect L c lm)"
proof (cases c)
  case (Acquire k u)
  with assms show ?thesis using acquire_leaves [of t quiet u lm k] by (simp add: quiet_apply)
next
  case (Release k u)
  with assms show ?thesis by (simp add: leaves_elementary)
next
  case (ReleaseAll u)
  let ?lm = "lm\<lparr>held_locks := (held_locks lm)(u := None)\<rparr>"
  have "leaves t lm ?lm" using assms ReleaseAll by (simp add: leaves_def)
  moreover have "leaves t ?lm (foldl (\<lambda>m key. release key u m) ?lm ks)" for ks
    using assms ReleaseAll by (intro releases_leaves) simp
  ultimately show ?thesis using ReleaseAll by (auto simp: release_all_def intro: leaves_trans split: option.split)
qed

lemma calls_leaves: "list_all (\<lambda>c. caller c \<noteq> t) cs \<Longrightarrow> leaves t lm (fold (call_effect L) cs lm)"
  by (induction cs arbitrary: lm) (auto intro: leaves_trans [OF call_leaves])

interpretation calls: rely_env tx "calls_env L (\<lambda>w. filter (\<lambda>c. caller c \<noteq> tx) (calls w))" for tx L calls
  by unfold_locales (auto simp: calls_env_def list_all_iff intro!: calls_leaves)

interpretation calls_family: rely_family tx "\<lambda>k. calls_env std_ref (\<lambda>w. filter (\<lambda>c. caller c \<noteq> tx) (calls k w))" std_ref
    for tx calls
  by unfold_locales (auto simp: calls_env_def list_all_iff intro!: calls_leaves)

section \<open>Properties\<close>

lemma spin_loop_pos:
  "0 < n \<Longrightarrow> spin_loop env key tx n w lm =
     (case owner_of lm key of
        None \<Rightarrow> (Some ACQUIRED, set_owner key (Some tx) lm)
      | Some owner_id \<Rightarrow>
          if owner_id = tx then (Some ACQUIRED, lm)
          else spin_loop env key tx (n - 1) (Suc w) (env w lm))"
  by (cases n) (simp_all split: option.split)

lemma windows_quiet [simp]: "windows quiet w i lm = lm"
  by (induction i arbitrary: w) (simp_all add: quiet_apply)

lemma spin_loop_busy:
  "owner_of lm key = Some u \<Longrightarrow> u \<noteq> tx \<Longrightarrow> spin_loop quiet key tx n w lm = (None, lm)"
  by (induction n arbitrary: w) (simp_all add: quiet_apply)

lemma yield_loop_busy:
  "owner_of lm key = Some u \<Longrightarrow> yield_loop quiet key tx n w lm = (None, lm)"
  by (induction n arbitrary: w) (simp_all add: quiet_apply)

lemma acquire_busy:
  "owner_of lm key = Some u \<Longrightarrow> u \<noteq> tx \<Longrightarrow> acquire quiet key tx lm = (ABORTED, track key tx lm)"
  using owner_of_entry [of lm key u]
  by (simp add: acquire_def acquire_with_wait_die_def spin_loop_busy yield_loop_busy ensure_entry_def
      quiet_apply [of 0])

lemma acquire_free:
  "owner_of lm key = None \<Longrightarrow>
   acquire quiet key tx lm = (ACQUIRED, set_owner key (Some tx) (track key tx (ensure_entry key lm)))"
  by (simp add: acquire_def acquire_with_wait_die_def spin_loop_pos MAX_SPINS_def quiet_apply [of 0])

lemma acquire_reentrant:
  "owner_of lm key = Some tx \<Longrightarrow> acquire quiet key tx lm = (ACQUIRED, track key tx lm)"
  using owner_of_entry [of lm key tx]
  by (simp add: acquire_def acquire_with_wait_die_def spin_loop_pos MAX_SPINS_def ensure_entry_def
      quiet_apply [of 0])

text \<open>
  A lock manager in which transaction 7 holds key 5, and the interference of a thread
  that releases it after the first failed check of a competitor.
\<close>

definition lm_held :: LockManager where
  "lm_held = \<lparr>lock_table = [5 \<mapsto> \<lparr>owner = Some 7\<rparr>], held_locks = [7 \<mapsto> [5]]\<rparr>"

definition env_release :: interference where
  "env_release = (\<lambda>w lm. if w = 1 then release 5 7 lm else lm)"

lemma owner_lm_held [simp]: "owner_of lm_held k = (if k = 5 then Some 7 else None)"
  by (simp add: owner_of_def lm_held_def)

lemma held_lm_held [simp]: "held_locks lm_held t = (if t = 7 then Some [5] else None)"
  by (simp add: lm_held_def)

lemma tx_inv_held [simp]: "tx_inv t lm_held"
  by (auto simp: tx_inv_def lm_held_def owner_of_def holds_lock_def has_entry_def
      split: option.splits if_splits)

lemma env_release_rely: "tx \<noteq> 7 \<Longrightarrow> rely_env tx env_release"
  by unfold_locales (simp_all add: env_release_def leaves_elementary)

lemma acquire_env_release:
  "acquire env_release 5 9 lm_held = (ACQUIRED, set_owner 5 (Some 9) (release 5 7 (track 5 9 lm_held)))"
  using owner_of_entry [of lm_held 5 7]
  by (simp add: acquire_def acquire_with_wait_die_def spin_loop_pos MAX_SPINS_def ensure_entry_def
      env_release_def)

text \<open>
  C23 (exclusive acquisition). Whatever the other threads do within their contract
  while \<open>acquire\<close> is waiting, it returns \<open>ACQUIRED\<close> exactly when the calling
  transaction owns the key afterwards, keeps every lock the transaction had, and
  preserves the transaction's invariant.
\<close>

theorem acquire_exclusive:
  assumes "rely_env tx env" and "tx_inv tx lm" and "acquire env key tx lm = (r, lm')"
  shows "tx_inv tx lm' \<and> (r = ACQUIRED \<longleftrightarrow> owner_of lm' key = Some tx) \<and>
    (\<forall>j. owner_of lm j = Some tx \<longrightarrow> owner_of lm' j = Some tx)"
  using rely_env.acquire_settled [OF assms] by blast

theorem acquire_exclusive_witness:
  "rely_env 9 env_release \<and> tx_inv 9 lm_held \<and>
   fst (acquire env_release 5 9 lm_held) = ACQUIRED \<and>
   owner_of (snd (acquire env_release 5 9 lm_held)) 5 = Some 9"
  using acquire_exclusive [OF env_release_rely tx_inv_held acquire_env_release]
  by (simp add: acquire_env_release env_release_rely)

text \<open>
  No stealing. An acquisition never takes, gives or forgets a lock of another
  transaction: if the other threads leave the locks of \<open>u\<close> alone during the call,
  then so does the call of \<open>tx\<close> as a whole, whether it succeeds or aborts.
\<close>

theorem acquire_never_steals:
  assumes "\<And>w lm. leaves u lm (env w lm)" and "u \<noteq> tx"
  shows "(owner_of (snd (acquire env key tx lm)) k = Some u \<longleftrightarrow> owner_of lm k = Some u) \<and>
    held_locks (snd (acquire env key tx lm)) u = held_locks lm u"
  using leavesD(1,2) [OF acquire_leaves [of u env tx lm key, OF assms]] by simp

theorem acquire_never_steals_witness:
  "owner_of (snd (acquire quiet 5 9 lm_held)) 5 = Some 7 \<and>
   held_locks (snd (acquire quiet 5 9 lm_held)) 7 = Some [5]"
  using acquire_never_steals [of 7 quiet 9 5 lm_held 5] by (simp add: quiet_apply)

text \<open>
  C24 (bounded retrying, against a reference). \<open>acquire\<close> makes at most 1500 checks: it
  succeeds exactly when the key is free, or already owned by the caller, at one of
  the first 1000, or free at one of the next 500. Nothing that happens after
  window 1500 matters, and it always returns. The result depends on the owners at the
  checks alone and ids are never compared by age: this is not the wait-die rule of the
  documentation, by which a caller older than the owner gets \<open>ABORTED\<close> and a younger one
  waits for the lock.
\<close>

theorem acquire_reference:
  "fst (acquire env key tx lm) =
     (let lm0 = track key tx (env 0 (ensure_entry key lm))
      in if (\<exists>i < 1000. owner_of (windows env 1 i lm0) key \<in> {None, Some tx}) \<or>
            (\<exists>i < 500. owner_of (windows env 1 (1000 + i) lm0) key = None)
         then ACQUIRED else ABORTED)"
  using acquire_with_wait_die_reference [of env key tx "track key tx (env 0 (ensure_entry key lm))"]
  by (auto simp: acquire_def Let_def MAX_SPINS_def MAX_YIELDS_def intro: AcquireResult.exhaust)

text \<open>
  No wait-die. If the key stays with another transaction, the caller aborts
  after its retries whichever of the two is older: the timestamps are never
  compared. The aborted call leaves the key tracked, so \<open>holds_lock\<close> answers true
  for a lock the caller does not own.
\<close>

theorem acquire_contended:
  assumes "owner_of lm key = Some u" and "u \<noteq> tx"
  shows "fst (acquire quiet key tx lm) = ABORTED \<and>
    owner_of (snd (acquire quiet key tx lm)) key = Some u \<and>
    holds_lock (snd (acquire quiet key tx lm)) key tx"
  using assms by (simp add: acquire_busy)

theorem acquire_contended_witness:
  "fst (acquire quiet 5 3 lm_held) = ABORTED \<and> fst (acquire quiet 5 9 lm_held) = ABORTED \<and>
   owner_of (snd (acquire quiet 5 9 lm_held)) 5 = Some 7 \<and>
   holds_lock (snd (acquire quiet 5 9 lm_held)) 5 9"
  using acquire_contended [of lm_held 5 7 3] acquire_contended [of lm_held 5 7 9] by simp

text \<open>
  C25 (shrinking phase). \<open>release_all\<close> frees exactly the keys its transaction owns,
  forgets its tracking and nothing else, keeps the invariant, and its result does
  not depend on the order in which the unordered set is traversed.
\<close>

theorem release_all_exact:
  assumes "tx_inv tx lm" and "std_ok L" and "std_ok L'"
  shows "owner_of (release_all L tx lm) key =
      (if owner_of lm key = Some tx then None else owner_of lm key) \<and>
    held_locks (release_all L tx lm) = (held_locks lm)(tx := None) \<and>
    (\<forall>t. tx_inv t lm \<longrightarrow> tx_inv t (release_all L tx lm)) \<and>
    release_all L tx lm = release_all L' tx lm"
proof -
  have "release_all L tx lm = release_all L' tx lm"
    using release_all_lock_table [OF assms(1,2)] release_all_lock_table [OF assms(1,3)]
    by (intro LockManager.equality) (simp_all add: release_all_held)
  then show ?thesis
    using release_all_owner [OF assms(1,2)] release_all_held tx_inv_release_all [OF assms(1,2)] by blast
qed

theorem release_all_exact_witness:
  "owner_of (release_all std_ref 7 lm_held) 5 = None \<and>
   held_locks (release_all std_ref 7 lm_held) 7 = None"
  using release_all_exact [OF tx_inv_held std_ref_ok std_ref_ok, of 7 5] by simp

end
