(* ===== verification/Json.thy ===== *)
theory Json
  imports Prelude
begin

text \<open>
  The JSON values the program exchanges. \<open>boost::json\<close> is a third-party library: its
  values are the datatype of the kinds its documentation lists, and every operation
  the program calls on them is a field of the parameter \<open>boost_json\<close>. \<open>boost_ok\<close> states
  the documented behaviour of those operations: an \<open>as_\<close> accessor returns the value
  of exactly its own kind and throws otherwise (no numeric conversion), \<open>at\<close> throws
  where there is no element, \<open>operator[]\<close> followed by an assignment sets one member,
  \<open>erase\<close> removes one; nothing is said about the order of members.
\<close>

section \<open>Values\<close>

datatype json =
    JNull
  | JBool bool
  | JInt "64 word"
  | JUint "64 word"
  | JDouble "64 word"
  | JString string
  | JArray "json list"
  | JObject "(string \<times> json) list"

type_synonym jobject = "(string \<times> json) list"

section \<open>The library\<close>

record boost_json =
  is_null :: "json \<Rightarrow> bool"
  is_object :: "json \<Rightarrow> bool"
  as_bool :: "json \<Rightarrow> bool res"
  as_int64 :: "json \<Rightarrow> 64 word res"
  as_uint64 :: "json \<Rightarrow> 64 word res"
  as_string :: "json \<Rightarrow> string res"
  as_array :: "json \<Rightarrow> json list res"
  as_object :: "json \<Rightarrow> jobject res"
  obj_contains :: "jobject \<Rightarrow> string \<Rightarrow> bool"
  obj_at :: "jobject \<Rightarrow> string \<Rightarrow> json res"
  obj_set :: "jobject \<Rightarrow> string \<Rightarrow> json \<Rightarrow> jobject"
  obj_erase :: "jobject \<Rightarrow> string \<Rightarrow> jobject"
  arr_at :: "json list \<Rightarrow> nat \<Rightarrow> json res"

abbreviation not_kind :: "'a res" where
  "not_kind \<equiv> Inl (SystemError ''not_kind'')"

abbreviation no_element :: "'a res" where
  "no_element \<equiv> Inl (OutOfRange ''at'')"

definition boost_kinds :: "boost_json \<Rightarrow> bool" where
  "boost_kinds J \<longleftrightarrow>
     (\<forall>v. is_null J v = (case v of JNull \<Rightarrow> True | _ \<Rightarrow> False)) \<and>
     (\<forall>v. is_object J v = (case v of JObject _ \<Rightarrow> True | _ \<Rightarrow> False)) \<and>
     (\<forall>v. as_bool J v = (case v of JBool b \<Rightarrow> Inr b | _ \<Rightarrow> not_kind)) \<and>
     (\<forall>v. as_int64 J v = (case v of JInt n \<Rightarrow> Inr n | _ \<Rightarrow> not_kind)) \<and>
     (\<forall>v. as_uint64 J v = (case v of JUint n \<Rightarrow> Inr n | _ \<Rightarrow> not_kind)) \<and>
     (\<forall>v. as_string J v = (case v of JString s \<Rightarrow> Inr s | _ \<Rightarrow> not_kind)) \<and>
     (\<forall>v. as_array J v = (case v of JArray xs \<Rightarrow> Inr xs | _ \<Rightarrow> not_kind)) \<and>
     (\<forall>v. as_object J v = (case v of JObject ob \<Rightarrow> Inr ob | _ \<Rightarrow> not_kind))"

definition boost_containers :: "boost_json \<Rightarrow> bool" where
  "boost_containers J \<longleftrightarrow>
     (\<forall>ob k. obj_contains J ob k = (map_of ob k \<noteq> None)) \<and>
     (\<forall>ob k. obj_at J ob k = (case map_of ob k of None \<Rightarrow> no_element | Some v \<Rightarrow> Inr v)) \<and>
     (\<forall>ob k v. map_of (obj_set J ob k v) = (map_of ob)(k \<mapsto> v)) \<and>
     (\<forall>ob k. map_of (obj_erase J ob k) = (map_of ob)(k := None)) \<and>
     (\<forall>xs i. arr_at J xs i = (if i < length xs then Inr (xs ! i) else no_element))"

definition boost_ok :: "boost_json \<Rightarrow> bool" where
  "boost_ok J \<longleftrightarrow> boost_kinds J \<and> boost_containers J"

lemma boost_accessors [simp]:
  assumes "boost_ok J"
  shows "is_null J v = (case v of JNull \<Rightarrow> True | _ \<Rightarrow> False)"
    and "is_object J v = (case v of JObject _ \<Rightarrow> True | _ \<Rightarrow> False)"
    and "as_bool J v = (case v of JBool b \<Rightarrow> Inr b | _ \<Rightarrow> not_kind)"
    and "as_int64 J v = (case v of JInt n \<Rightarrow> Inr n | _ \<Rightarrow> not_kind)"
    and "as_uint64 J v = (case v of JUint n \<Rightarrow> Inr n | _ \<Rightarrow> not_kind)"
    and "as_string J v = (case v of JString s \<Rightarrow> Inr s | _ \<Rightarrow> not_kind)"
    and "as_array J v = (case v of JArray xs \<Rightarrow> Inr xs | _ \<Rightarrow> not_kind)"
    and "as_object J v = (case v of JObject ob \<Rightarrow> Inr ob | _ \<Rightarrow> not_kind)"
  using assms unfolding boost_ok_def boost_kinds_def by blast+

lemma boost_members [simp]:
  assumes "boost_ok J"
  shows "obj_contains J ob k = (map_of ob k \<noteq> None)"
    and "obj_at J ob k = (case map_of ob k of None \<Rightarrow> no_element | Some v \<Rightarrow> Inr v)"
    and "map_of (obj_set J ob k v) = (map_of ob)(k \<mapsto> v)"
    and "map_of (obj_erase J ob k) = (map_of ob)(k := None)"
    and "arr_at J xs i = (if i < length xs then Inr (xs ! i) else no_element)"
  using assms unfolding boost_ok_def boost_containers_def by blast+

text \<open>
  \<open>std::string s = x.c_str()\<close> stops at the first NUL character.
\<close>

definition c_str :: "string \<Rightarrow> string" where
  "c_str s = takeWhile (\<lambda>c. c \<noteq> CHR 0x00) s"

text \<open>\<open>obj.at(key).as_X()\<close>\<close>

definition member_as :: "boost_json \<Rightarrow> (json \<Rightarrow> 'a res) \<Rightarrow> jobject \<Rightarrow> string \<Rightarrow> 'a res" where
  "member_as J conv ob k = (case obj_at J ob k of Inl e \<Rightarrow> Inl e | Inr v \<Rightarrow> conv v)"

lemma member_as_eq [simp]:
  "boost_ok J \<Longrightarrow> member_as J conv ob k = (case map_of ob k of None \<Rightarrow> no_element | Some v \<Rightarrow> conv v)"
  by (simp add: member_as_def split: option.split)

section \<open>A concrete library\<close>

text \<open>An instance that satisfies the documented behaviour, for concrete evaluations.\<close>

definition boost_ref :: boost_json where
  "boost_ref = \<lparr>
     is_null = (\<lambda>v. case v of JNull \<Rightarrow> True | _ \<Rightarrow> False),
     is_object = (\<lambda>v. case v of JObject _ \<Rightarrow> True | _ \<Rightarrow> False),
     as_bool = (\<lambda>v. case v of JBool b \<Rightarrow> Inr b | _ \<Rightarrow> not_kind),
     as_int64 = (\<lambda>v. case v of JInt n \<Rightarrow> Inr n | _ \<Rightarrow> not_kind),
     as_uint64 = (\<lambda>v. case v of JUint n \<Rightarrow> Inr n | _ \<Rightarrow> not_kind),
     as_string = (\<lambda>v. case v of JString s \<Rightarrow> Inr s | _ \<Rightarrow> not_kind),
     as_array = (\<lambda>v. case v of JArray xs \<Rightarrow> Inr xs | _ \<Rightarrow> not_kind),
     as_object = (\<lambda>v. case v of JObject ob \<Rightarrow> Inr ob | _ \<Rightarrow> not_kind),
     obj_contains = (\<lambda>ob k. map_of ob k \<noteq> None),
     obj_at = (\<lambda>ob k. case map_of ob k of None \<Rightarrow> no_element | Some v \<Rightarrow> Inr v),
     obj_set = (\<lambda>ob k v. (k, v) # filter (\<lambda>(j, _). j \<noteq> k) ob),
     obj_erase = (\<lambda>ob k. filter (\<lambda>(j, _). j \<noteq> k) ob),
     arr_at = (\<lambda>xs i. if i < length xs then Inr (xs ! i) else no_element)\<rparr>"

lemma map_of_filter_key: "map_of (filter (\<lambda>(j, _). j \<noteq> k) ob) = (map_of ob)(k := None)"
  by (induction ob) auto

lemma boost_ref_ok [simp]: "boost_ok boost_ref"
  by (simp add: boost_ok_def boost_kinds_def boost_containers_def boost_ref_def map_of_filter_key
      fun_eq_iff)

section \<open>Text on the wire\<close>

text \<open>
  A value that is serialized and parsed again. The documented behaviour of the parser
  that the program depends on: an integer that fits \<open>int64_t\<close> comes back with kind
  \<open>int64\<close>, whatever its kind was before; objects keep their members.
\<close>

definition wire_ok :: "(json \<Rightarrow> json) \<Rightarrow> bool" where
  "wire_ok W \<longleftrightarrow>
     (\<forall>n. W (JUint n) = (if unat n < 2 ^ 63 then JInt n else JUint n)) \<and>
     (\<forall>n. W (JInt n) = JInt n) \<and> (\<forall>b. W (JBool b) = JBool b) \<and> (\<forall>s. W (JString s) = JString s) \<and>
     (\<forall>ob. \<exists>ob'. W (JObject ob) = JObject ob' \<and> (\<forall>k. map_of ob' k = map_option W (map_of ob k)))"

lemma wire_ok_simps [simp]:
  assumes "wire_ok W"
  shows "W (JUint n) = (if unat n < 2 ^ 63 then JInt n else JUint n)"
    and "W (JInt n) = JInt n" and "W (JBool b) = JBool b" and "W (JString s) = JString s"
  using assms unfolding wire_ok_def by blast+

lemma wire_object:
  assumes "wire_ok W"
  obtains ob' where "W (JObject ob) = JObject ob'" "\<And>k. map_of ob' k = map_option W (map_of ob k)"
  using assms unfolding wire_ok_def by blast

fun wire_ref :: "json \<Rightarrow> json" where
  "wire_ref (JUint n) = (if unat n < 2 ^ 63 then JInt n else JUint n)"
| "wire_ref (JArray xs) = JArray (map wire_ref xs)"
| "wire_ref (JObject ob) = JObject (map (\<lambda>(k, v). (k, wire_ref v)) ob)"
| "wire_ref v = v"

lemma wire_ref_ok [simp]: "wire_ok wire_ref"
proof -
  have "map_of (map (\<lambda>(k, v). (k, wire_ref v)) ob) k = map_option wire_ref (map_of ob k)" for ob k
    by (induction ob) auto
  then have "\<exists>ob'. wire_ref (JObject ob) = JObject ob' \<and>
      (\<forall>k. map_of ob' k = map_option wire_ref (map_of ob k))" for ob
    by (intro exI [of _ "map (\<lambda>(k, v). (k, wire_ref v)) ob"] conjI allI) (simp only: wire_ref.simps)
  then show ?thesis unfolding wire_ok_def by (intro conjI allI) simp_all
qed

end
