(* ===== verification/Coordinator.thy ===== *)
theory Coordinator
  imports Json
begin

text \<open>
  \<open>transactions/DistributedCoordinator.h\<close> and \<open>.cpp\<close>: the routing of keys to nodes and
  the construction and parsing of its lock messages.
\<close>

section \<open>State and routing\<close>

record DistributedCoordinator =
  coord_local_node_id :: NodeID
  all_nodes :: "NodeID list"

definition make_coordinator :: "NodeID \<Rightarrow> NodeID list \<Rightarrow> DistributedCoordinator" where
  "make_coordinator local_id nodes = \<lparr>coord_local_node_id = local_id, all_nodes = nodes\<rparr>"

text \<open>
  \<open>hash_value % all_nodes.size()\<close> is undefined for an empty node list; otherwise the
  remainder, a 64-bit \<open>size_t\<close>, is cast to the 16-bit \<open>NodeID\<close>.
\<close>

definition get_primary_node :: "stdlib \<Rightarrow> DistributedCoordinator \<Rightarrow> KeyType \<Rightarrow> NodeID res" where
  "get_primary_node L c key =
     (if all_nodes c = [] then Inl (Undefined ''remainder by zero'')
      else Inr (ucast (word_of_nat (unat (hash_i64 L key) mod length (all_nodes c)) :: 64 word)))"

definition is_local :: "stdlib \<Rightarrow> DistributedCoordinator \<Rightarrow> KeyType \<Rightarrow> bool res" where
  "is_local L c key =
     (case get_primary_node L c key of Inl e \<Rightarrow> Inl e | Inr p \<Rightarrow> Inr (p = coord_local_node_id c))"

definition set_nodes :: "NodeID list \<Rightarrow> DistributedCoordinator \<Rightarrow> DistributedCoordinator" where
  "set_nodes nodes c = c\<lparr>all_nodes := nodes\<rparr>"

definition get_local_node_id :: "DistributedCoordinator \<Rightarrow> NodeID" where
  "get_local_node_id c = coord_local_node_id c"

definition get_all_nodes :: "DistributedCoordinator \<Rightarrow> NodeID list" where
  "get_all_nodes c = all_nodes c"

text \<open>Two types of the class that none of its functions uses.\<close>

record DistributedTxInfo =
  info_tx_id :: TransactionId
  originating_node :: NodeID
  participating_nodes :: "NodeID list"

record LockResult =
  lock_granted :: bool
  lock_reason :: string

section \<open>Messages\<close>

datatype DistTxMessage =
    LOCK_REQUEST
  | LOCK_GRANTED
  | LOCK_DENIED
  | LOCK_RELEASE
  | OPERATION_REQUEST
  | OPERATION_RESULT

text \<open>\<open>static_cast<uint8_t>\<close>; assigned to a JSON value it has kind \<open>uint64\<close>.\<close>

fun dist_code :: "DistTxMessage \<Rightarrow> 64 word" where
  "dist_code LOCK_REQUEST = 0"
| "dist_code LOCK_GRANTED = 1"
| "dist_code LOCK_DENIED = 2"
| "dist_code LOCK_RELEASE = 3"
| "dist_code OPERATION_REQUEST = 4"
| "dist_code OPERATION_RESULT = 5"

definition create_lock_request ::
  "boost_json \<Rightarrow> TransactionId \<Rightarrow> KeyType \<Rightarrow> 64 word \<Rightarrow> json" where
  "create_lock_request J tx_id key timestamp =
     (let msg = obj_set J [] ''type'' (JUint (dist_code LOCK_REQUEST));
          msg = obj_set J msg ''tx_id'' (JUint tx_id);
          msg = obj_set J msg ''key'' (JInt key);
          msg = obj_set J msg ''timestamp'' (JUint timestamp)
      in JObject msg)"

definition create_lock_response :: "boost_json \<Rightarrow> TransactionId \<Rightarrow> bool \<Rightarrow> json" where
  "create_lock_response J tx_id granted =
     (let msg = obj_set J [] ''type'' (JUint (dist_code LOCK_GRANTED));
          msg = obj_set J msg ''tx_id'' (JUint tx_id);
          msg = obj_set J msg ''granted'' (JBool granted)
      in JObject msg)"

definition create_lock_release :: "boost_json \<Rightarrow> TransactionId \<Rightarrow> KeyType \<Rightarrow> json" where
  "create_lock_release J tx_id key =
     (let msg = obj_set J [] ''type'' (JUint (dist_code LOCK_RELEASE));
          msg = obj_set J msg ''tx_id'' (JUint tx_id);
          msg = obj_set J msg ''key'' (JInt key)
      in JObject msg)"

text \<open>
  The parsers assign their output parameters one after the other; \<open>out\<close> holds their
  values before the call, and a failure keeps those assigned so far.
\<close>

definition parse_lock_request ::
  "boost_json \<Rightarrow> json \<Rightarrow> TransactionId \<times> KeyType \<times> 64 word \<Rightarrow> bool \<times> TransactionId \<times> KeyType \<times> 64 word" where
  "parse_lock_request J msg out =
     (case out of (t0, k0, s0) \<Rightarrow>
      if \<not> is_object J msg then (False, out)
      else (case as_object J msg of
          Inl _ \<Rightarrow> (False, out)
        | Inr obj \<Rightarrow>
            if \<not> obj_contains J obj ''tx_id'' \<or> \<not> obj_contains J obj ''key'' \<or>
               \<not> obj_contains J obj ''timestamp'' then (False, out)
            else (case member_as J (as_uint64 J) obj ''tx_id'' of
                Inl _ \<Rightarrow> (False, out)
              | Inr t \<Rightarrow> (case member_as J (as_int64 J) obj ''key'' of
                  Inl _ \<Rightarrow> (False, t, k0, s0)
                | Inr k \<Rightarrow> (case member_as J (as_uint64 J) obj ''timestamp'' of
                    Inl _ \<Rightarrow> (False, t, k, s0)
                  | Inr s \<Rightarrow> (True, t, k, s))))))"

definition parse_lock_response ::
  "boost_json \<Rightarrow> json \<Rightarrow> TransactionId \<times> bool \<Rightarrow> bool \<times> TransactionId \<times> bool" where
  "parse_lock_response J msg out =
     (case out of (t0, g0) \<Rightarrow>
      if \<not> is_object J msg then (False, out)
      else (case as_object J msg of
          Inl _ \<Rightarrow> (False, out)
        | Inr obj \<Rightarrow>
            if \<not> obj_contains J obj ''tx_id'' \<or> \<not> obj_contains J obj ''granted'' then (False, out)
            else (case member_as J (as_uint64 J) obj ''tx_id'' of
                Inl _ \<Rightarrow> (False, out)
              | Inr t \<Rightarrow> (case member_as J (as_bool J) obj ''granted'' of
                  Inl _ \<Rightarrow> (False, t, g0)
                | Inr g \<Rightarrow> (True, t, g)))))"

section \<open>Properties\<close>

lemma primary_node_eq:
  assumes "all_nodes c \<noteq> []" and "length (all_nodes c) \<le> 2 ^ 16"
  shows "get_primary_node L c key = Inr (word_of_nat (unat (hash_i64 L key) mod length (all_nodes c)))"
proof -
  let ?i = "unat (hash_i64 L key) mod length (all_nodes c)"
  have "?i < length (all_nodes c)" using assms(1) by simp
  then have "?i < 2 ^ 16" using assms(2) by linarith
  then have "ucast (word_of_nat ?i :: 64 word) = (word_of_nat ?i :: 16 word)"
    by (simp add: unsigned_of_nat take_bit_nat_eq_self)
  with assms(1) show ?thesis by (simp add: get_primary_node_def)
qed

text \<open>
  One primary per key. In a cluster of \<open>n\<close> nodes numbered 0 to n-1 that agree on
  the hash function, exactly one node takes a key for local.
\<close>

theorem unique_primary:
  assumes "0 < n" and "n \<le> 65536"
  shows "\<exists>!i. i < n \<and>
    is_local L (make_coordinator (word_of_nat i) (map word_of_nat [0..<n])) key = Inr True"
proof -
  let ?p = "unat (hash_i64 L key) mod n"
  have p: "?p < n" using assms(1) by simp
  then have tb: "take_bit 16 ?p = ?p" using assms(2) by (intro take_bit_nat_eq_self) simp
  have "is_local L (make_coordinator (word_of_nat i) (map word_of_nat [0..<n])) key = Inr (i = ?p)"
    if "i < n" for i
    using assms that p tb
    by (auto simp: is_local_def primary_node_eq make_coordinator_def word_of_nat_eq_iff take_bit_nat_eq_self)
  with p show ?thesis by auto
qed

theorem unique_primary_witness:
  "\<exists>!i. i < 3 \<and>
    is_local std_ref (make_coordinator (word_of_nat i) (map word_of_nat [0..<3])) 8 = Inr True"
  using unique_primary [of 3 std_ref 8] by simp

text \<open>
  The primary is an index. \<open>get_primary_node\<close> returns a position below the number
  of nodes, not an element of the node list: in a cluster whose node ids are all at
  least its size, no key has a primary in the cluster and no key is local anywhere.
\<close>

theorem primary_outside_cluster:
  assumes "all_nodes c \<noteq> []" and "length (all_nodes c) \<le> 65536"
    and "\<forall>n \<in> set (all_nodes c). length (all_nodes c) \<le> unat n"
    and "coord_local_node_id c \<in> set (all_nodes c)"
  shows "\<exists>p. get_primary_node L c key = Inr p \<and> p \<notin> set (all_nodes c) \<and>
    is_local L c key = Inr False"
proof -
  let ?i = "unat (hash_i64 L key) mod length (all_nodes c)"
  have i: "?i < length (all_nodes c)" using assms(1) by simp
  then have "unat (word_of_nat ?i :: NodeID) = ?i"
    using assms(2) by (simp add: unat_of_nat)
  then have "(word_of_nat ?i :: NodeID) \<notin> set (all_nodes c)"
    using i assms(3) by (metis linorder_not_less)
  then show ?thesis
    using assms primary_node_eq [of c L key] by (auto simp: is_local_def)
qed

theorem primary_outside_cluster_witness:
  "\<exists>p. get_primary_node std_ref (make_coordinator 5 [5, 7]) 4 = Inr p \<and> p \<notin> {5, 7} \<and>
    is_local std_ref (make_coordinator 5 [5, 7]) 4 = Inr False"
  using primary_outside_cluster [of "make_coordinator 5 [5, 7]" std_ref 4]
  by (simp add: make_coordinator_def)

text \<open>
  Lock responses. Parsing recovers the transaction and the granted flag; the
  \<open>type\<close> member says LOCK_GRANTED even when the lock was denied.
\<close>

theorem lock_response_roundtrip:
  assumes "boost_ok J"
  shows "parse_lock_response J (create_lock_response J t g) out = (True, t, g) \<and>
    (\<exists>ob. create_lock_response J t g = JObject ob \<and>
       map_of ob ''type'' = Some (JUint (dist_code LOCK_GRANTED)))"
  using assms by (cases out) (simp add: parse_lock_response_def create_lock_response_def Let_def)

theorem lock_response_roundtrip_witness:
  "parse_lock_response boost_ref (create_lock_response boost_ref 7 False) (0, True) = (True, 7, False)"
  using lock_response_roundtrip [OF boost_ref_ok, of 7 False "(0, True)"] by blast

text \<open>
  Round trip of lock requests, and its limit. Parsing a lock request that was created
  in the same process returns the transaction, the key and the timestamp it was made
  from. After serialization and parsing, however, the transaction id comes back as a
  signed integer unless it is at least 2^63, \<open>as_uint64\<close> throws, and the request is
  rejected.
\<close>

theorem lock_request_roundtrip:
  assumes "boost_ok J" and "wire_ok W" and "unat t < 2 ^ 63"
  shows "parse_lock_request J (create_lock_request J t k s) out = (True, t, k, s) \<and>
    parse_lock_request J (W (create_lock_request J t k s)) out = (False, out)"
proof -
  obtain ob where ob: "create_lock_request J t k s = JObject ob"
      "map_of ob ''tx_id'' = Some (JUint t)" "map_of ob ''key'' = Some (JInt k)"
      "map_of ob ''timestamp'' = Some (JUint s)"
    using assms(1) by (simp add: create_lock_request_def Let_def)
  obtain ob' where "W (JObject ob) = JObject ob'" "\<And>k. map_of ob' k = map_option W (map_of ob k)"
    using wire_object [OF assms(2), of ob] by blast
  with ob assms show ?thesis by (cases out) (simp add: parse_lock_request_def)
qed

theorem lock_request_roundtrip_witness:
  "parse_lock_request boost_ref (create_lock_request boost_ref 7 5 7) (0, 0, 0) = (True, 7, 5, 7) \<and>
   parse_lock_request boost_ref (wire_ref (create_lock_request boost_ref 7 5 7)) (0, 0, 0) = (False, 0, 0, 0)"
  using lock_request_roundtrip [OF boost_ref_ok wire_ref_ok, of 7 5 7 "(0, 0, 0)"] by simp

end
