(* ===== verification/Scheduler_State.thy ===== *)
theory Scheduler_State
  imports Operations Lock_Manager Coordinator
begin

text \<open>
  The state of \<open>TwoPLScheduler\<close> (\<open>transactions/impl/TwoPLScheduler.h\<close>), its
  construction and start-up, the routing of keys, and the calls it makes to the
  transaction server. The server (\<open>TransactionServer\<close>) is declared in the
  repository without its implementation: it is the parameter \<open>server_api\<close>. The
  scheduler record keeps the calls made to it and the errors logged.
\<close>

section \<open>The transaction server\<close>

text \<open>
  Whether a call of \<open>send\<close> throws may depend on all calls before it; the same holds
  for \<open>startup\<close> and its arguments.
\<close>

record server_api =
  srv_send :: "(NodeID \<times> jobject) list \<Rightarrow> NodeID \<Rightarrow> jobject \<Rightarrow> exn option"
  srv_startup :: "NodeID \<Rightarrow> NodeID list \<Rightarrow> exn option"

definition server_up :: server_api where
  "server_up = \<lparr>srv_send = (\<lambda>_ _ _. None), srv_startup = (\<lambda>_ _. None)\<rparr>"

lemma server_up_simps [simp]: "srv_send server_up h p m = None" "srv_startup server_up i ps = None"
  by (simp_all add: server_up_def)

section \<open>State\<close>

record TwoPLScheduler =
  sched_id :: NodeID
  store :: ThreadSafeKVStore
  lock_manager :: LockManager
  coordinator :: "DistributedCoordinator option"
  next_tx_id :: TransactionId
  local_node_id :: NodeID
  num_nodes :: nat
  pending_remote_locks :: "TransactionId \<rightharpoonup> (NodeID \<times> KeyType list) list"
  granted_remote_locks :: "TransactionId \<rightharpoonup> KeyType list"
  remote_results :: "TransactionId \<rightharpoonup> (KeyType \<rightharpoonup> ValueContainer)"
  pending_remote_ops :: "TransactionId \<rightharpoonup> (NodeID \<times> KeyType) list"
  stop_listener :: bool
  listener_running :: bool
  sent :: "(NodeID \<times> jobject) list"
  startups :: "(NodeID \<times> NodeID list) list"
  logged :: "exn list"

text \<open>The constructor; the base class does not initialize \<open>_id\<close>.\<close>

definition make_scheduler :: "NodeID \<Rightarrow> ThreadSafeKVStore \<Rightarrow> TwoPLScheduler" where
  "make_scheduler id0 st = \<lparr>
     sched_id = id0, store = st, lock_manager = init_lock_manager, coordinator = None,
     next_tx_id = 1, local_node_id = 0, num_nodes = 1,
     pending_remote_locks = Map.empty, granted_remote_locks = Map.empty,
     remote_results = Map.empty, pending_remote_ops = Map.empty,
     stop_listener = False, listener_running = False, sent = [], startups = [], logged = []\<rparr>"

text \<open>\<open>_server->send(peer, msg)\<close>\<close>

definition send :: "server_api \<Rightarrow> NodeID \<Rightarrow> jobject \<Rightarrow> TwoPLScheduler \<Rightarrow> unit res \<times> TwoPLScheduler" where
  "send S peer msg s =
     (case srv_send S (sent s) peer msg of
        None \<Rightarrow> (Inr (), s\<lparr>sent := sent s @ [(peer, msg)]\<rparr>)
      | Some e \<Rightarrow> (Inl e, s\<lparr>sent := sent s @ [(peer, msg)]\<rparr>))"

text \<open>A loop of sends stops at the first exception.\<close>

fun send_each :: "server_api \<Rightarrow> (NodeID \<times> jobject) list \<Rightarrow> TwoPLScheduler \<Rightarrow> unit res \<times> TwoPLScheduler" where
  "send_each S [] s = (Inr (), s)"
| "send_each S ((peer, msg) # rest) s =
     (case send S peer msg s of
        (Inl e, s') \<Rightarrow> (Inl e, s')
      | (Inr _, s') \<Rightarrow> send_each S rest s')"

section \<open>Start-up\<close>

definition is_digit :: "char \<Rightarrow> bool" where
  "is_digit c \<longleftrightarrow> 48 \<le> (of_char c :: nat) \<and> (of_char c :: nat) \<le> 57"

definition decimal :: "string \<Rightarrow> nat" where
  "decimal ds = foldl (\<lambda>n c. 10 * n + (of_char c - 48)) 0 ds"

text \<open>
  \<open>std::from_chars\<close> into an unsigned 16-bit integer: the longest prefix of digits, no
  sign and no white space; no digits or a value out of range is an error that
  leaves the target unchanged. Trailing characters are not an error.
\<close>

definition from_chars_u16 :: "string \<Rightarrow> NodeID option" where
  "from_chars_u16 s =
     (let ds = takeWhile is_digit s
      in if ds = [] \<or> 2 ^ 16 \<le> decimal ds then None else Some (word_of_nat (decimal ds)))"

definition is_space :: "char \<Rightarrow> bool" where
  "is_space c \<longleftrightarrow> (of_char c :: nat) = 32 \<or> (9 \<le> (of_char c :: nat) \<and> (of_char c :: nat) \<le> 13)"

text \<open>
  \<open>std::stoi\<close>: white space, an optional sign, digits; throws without digits or when
  the value does not fit an \<open>int\<close>.
\<close>

definition stoi :: "string \<Rightarrow> int res" where
  "stoi s =
     (let s1 = dropWhile is_space s;
          neg = (case s1 of [] \<Rightarrow> False | c # _ \<Rightarrow> c = CHR ''-'');
          s2 = (case s1 of [] \<Rightarrow> [] | c # cs \<Rightarrow> if c = CHR ''-'' \<or> c = CHR ''+'' then cs else s1);
          ds = takeWhile is_digit s2;
          n = (if neg then - int (decimal ds) else int (decimal ds))
      in if ds = [] then Inl (InvalidArgument ''stoi'')
         else if n < - (2 ^ 31) \<or> 2 ^ 31 \<le> n then Inl (OutOfRange ''stoi'')
         else Inr n)"

text \<open>The peers of the form \<open>n<number>\<close>; the \<open>int\<close> is narrowed to a \<open>NodeID\<close>.\<close>

fun peer_ids :: "string list \<Rightarrow> NodeID list res" where
  "peer_ids [] = Inr []"
| "peer_ids (peer # peers) =
     (case peer of
        [] \<Rightarrow> peer_ids peers
      | c # rest \<Rightarrow>
          if c = CHR ''n'' then
            (case stoi rest of
               Inl e \<Rightarrow> Inl e
             | Inr i \<Rightarrow> (case peer_ids peers of Inl e \<Rightarrow> Inl e | Inr ids \<Rightarrow> Inr (word_of_int i # ids)))
          else peer_ids peers)"

text \<open>Assigning to a joinable \<open>std::thread\<close> terminates the program.\<close>

definition start_message_listener :: "TwoPLScheduler \<Rightarrow> unit res \<times> TwoPLScheduler" where
  "start_message_listener s =
     (let s1 = s\<lparr>stop_listener := False\<rparr>
      in if listener_running s then (Inl (Undefined ''std::terminate''), s1)
         else (Inr (), s1\<lparr>listener_running := True\<rparr>))"

text \<open>Set the flag and join the thread, if there is one; so does the destructor.\<close>

definition stop_message_listener :: "TwoPLScheduler \<Rightarrow> TwoPLScheduler" where
  "stop_message_listener s =
     (let s1 = s\<lparr>stop_listener := True\<rparr>
      in if listener_running s1 then s1\<lparr>listener_running := False\<rparr> else s1)"

definition destroy_TwoPLScheduler :: "TwoPLScheduler \<Rightarrow> TwoPLScheduler" where
  "destroy_TwoPLScheduler s =
     (let s1 = s\<lparr>stop_listener := True\<rparr>
      in if listener_running s1 then s1\<lparr>listener_running := False\<rparr> else s1)"

definition startup_server :: "server_api \<Rightarrow> TwoPLScheduler \<Rightarrow> bool res \<times> TwoPLScheduler" where
  "startup_server S s =
     (let s1 = s\<lparr>startups := startups s @ [(sched_id s, [])]\<rparr>
      in case srv_startup S (sched_id s) [] of None \<Rightarrow> (Inr True, s1) | Some e \<Rightarrow> (Inl e, s1))"

text \<open>Sorted and without duplicates.\<close>

definition cluster_ids :: "NodeID list \<Rightarrow> NodeID list" where
  "cluster_ids ids = remdups_adj (sort ids)"

definition start :: "server_api \<Rightarrow> string \<Rightarrow> string list \<Rightarrow> TwoPLScheduler \<Rightarrow> bool res \<times> TwoPLScheduler" where
  "start S nodeID peers s =
     (let named = (case nodeID of c # _ \<Rightarrow> c = CHR ''n'' | [] \<Rightarrow> False);
          parsed = from_chars_u16 (tl nodeID)
      in if named \<and> parsed = None then (Inr False, s)
         else
           (let s1 = (if named then s\<lparr>sched_id := the parsed, local_node_id := the parsed\<rparr> else s)
            in if peers = [] then startup_server S s1
               else (case peer_ids peers of
                   Inl e \<Rightarrow> (Inl e, s1)
                 | Inr ids \<Rightarrow>
                     (let node_ids = cluster_ids (local_node_id s1 # ids);
                          s2 = s1\<lparr>num_nodes := length node_ids,
                                  coordinator := Some (make_coordinator (local_node_id s1) node_ids)\<rparr>
                      in case start_message_listener s2 of
                           (Inl e, s3) \<Rightarrow> (Inl e, s3)
                         | (Inr _, s3) \<Rightarrow> startup_server S s3))))"

section \<open>Routing\<close>

definition is_local_key :: "stdlib \<Rightarrow> TwoPLScheduler \<Rightarrow> KeyType \<Rightarrow> bool res" where
  "is_local_key L s key = (case coordinator s of Some c \<Rightarrow> is_local L c key | None \<Rightarrow> Inr True)"

text \<open>\<open>is_local_key(key) ? local_node_id : coordinator->get_primary_node(key)\<close>\<close>

definition primary_of :: "stdlib \<Rightarrow> TwoPLScheduler \<Rightarrow> KeyType \<Rightarrow> NodeID res" where
  "primary_of L s key =
     (case is_local_key L s key of
        Inl e \<Rightarrow> Inl e
      | Inr True \<Rightarrow> Inr (local_node_id s)
      | Inr False \<Rightarrow>
          (case coordinator s of
             Some c \<Rightarrow> get_primary_node L c key
           | None \<Rightarrow> Inl (Undefined ''null coordinator'')))"

text \<open>\<open>m[n].insert(k)\<close> on an unordered map of unordered sets.\<close>

fun nk_insert :: "'n \<Rightarrow> 'k \<Rightarrow> ('n \<times> 'k list) list \<Rightarrow> ('n \<times> 'k list) list" where
  "nk_insert n k [] = [(n, [k])]"
| "nk_insert n k ((m, ks) # rest) =
     (if m = n then (m, List.insert k ks) # rest else (m, ks) # nk_insert n k rest)"

text \<open>The categorization loop of \<open>execute_with_distributed_support\<close>.\<close>

fun categorize :: "stdlib \<Rightarrow> TwoPLScheduler \<Rightarrow> Operation list \<Rightarrow>
    (KeyType \<rightharpoonup> NodeID) \<times> (NodeID \<times> KeyType list) list \<Rightarrow>
    ((KeyType \<rightharpoonup> NodeID) \<times> (NodeID \<times> KeyType list) list) res" where
  "categorize L s [] acc = Inr acc"
| "categorize L s (op # ops) (key_to_node, node_to_keys) =
     (case primary_of L s (op_key op) of
        Inl e \<Rightarrow> Inl e
      | Inr primary \<Rightarrow>
          categorize L s ops
            (key_to_node(op_key op \<mapsto> primary), nk_insert primary (op_key op) node_to_keys))"

section \<open>Properties\<close>

lemma set_cluster_ids [simp]: "set (cluster_ids ids) = set ids"
  by (simp add: cluster_ids_def)

lemma sorted_distinct_remdups_adj: "sorted xs \<Longrightarrow> distinct (remdups_adj xs)"
  by (induction xs rule: remdups_adj.induct) (auto simp: less_le_not_le)

lemma cluster_ids_sorted: "sorted (cluster_ids ids)" "distinct (cluster_ids ids)"
  by (simp_all add: cluster_ids_def sorted_remdups_adj sorted_distinct_remdups_adj)

lemma listener_stopped:
  "\<not> listener_running (stop_message_listener s)" "destroy_TwoPLScheduler s = stop_message_listener s"
  by (simp_all add: stop_message_listener_def destroy_TwoPLScheduler_def Let_def)

lemma startup_server_result:
  "startup_server S s = (Inr b, s') \<Longrightarrow>
     b \<and> s' = s\<lparr>startups := startups s @ [(sched_id s, [])]\<rparr>"
  by (auto simp: startup_server_def Let_def split: option.splits)

text \<open>
  Start-up of a cluster. A successful start of a named node with peers parses
  the node id, builds a coordinator over the sorted, duplicate-free ids of all nodes
  in which the local id occurs, so that routing never divides by zero, and starts
  the listener. The transaction server is started with an empty peer list.
\<close>

theorem start_builds_cluster:
  assumes "start S (CHR ''n'' # num) peers s = (Inr True, s')" and "peers \<noteq> []"
  shows "from_chars_u16 num = Some (local_node_id s') \<and> listener_running s' \<and>
    startups s' = startups s @ [(local_node_id s', [])] \<and>
    (\<exists>c. coordinator s' = Some c \<and> coord_local_node_id c = local_node_id s' \<and>
       local_node_id s' \<in> set (all_nodes c) \<and> sorted (all_nodes c) \<and> distinct (all_nodes c) \<and>
       num_nodes s' = length (all_nodes c) \<and> (\<exists>p. get_primary_node L c key = Inr p))"
proof -
  obtain i where i: "from_chars_u16 num = Some i"
    using assms(1) by (auto simp: start_def Let_def split: if_splits)
  let ?s1 = "s\<lparr>sched_id := i, local_node_id := i\<rparr>"
  obtain ids where ids: "peer_ids peers = Inr ids"
    using assms i by (auto simp: start_def Let_def split: sum.splits)
  let ?nodes = "cluster_ids (i # ids)"
  have mem: "i \<in> set ?nodes" by simp
  then have ne: "?nodes \<noteq> []" by (metis list.set(1) empty_iff)
  have "s' = ?s1\<lparr>num_nodes := length ?nodes, coordinator := Some (make_coordinator i ?nodes),
      stop_listener := False, listener_running := True, startups := startups s @ [(i, [])]\<rparr>"
    using assms i ids
    by (auto simp: start_def Let_def start_message_listener_def
        split: if_splits dest!: startup_server_result)
  then show ?thesis
    using i mem ne cluster_ids_sorted [of "i # ids"]
    by (simp add: make_coordinator_def get_primary_node_def)
qed

theorem start_builds_cluster_witness:
  "let s' = snd (start server_up ''n1'' [''n0'', ''n2'', ''n0''] (make_scheduler 9 empty_store))
   in fst (start server_up ''n1'' [''n0'', ''n2'', ''n0''] (make_scheduler 9 empty_store)) = Inr True \<and>
      local_node_id s' = 1 \<and> num_nodes s' = 3 \<and> startups s' = [(1, [])]"
proof -
  let ?r = "start server_up ''n1'' [''n0'', ''n2'', ''n0''] (make_scheduler 9 empty_store)"
  have r: "?r = (Inr True, snd ?r)" and n: "num_nodes (snd ?r) = 3"
    by (simp_all add: start_def from_chars_u16_def is_digit_def decimal_def stoi_def is_space_def Let_def
        start_message_listener_def startup_server_def make_scheduler_def cluster_ids_def)
  have "from_chars_u16 ''1'' = Some 1" by (simp add: from_chars_u16_def is_digit_def decimal_def)
  moreover have "startups (make_scheduler 9 empty_store) = []" by (simp add: make_scheduler_def)
  ultimately show ?thesis
    using start_builds_cluster [OF r, where L = std_ref and key = 0] r n
    unfolding Let_def by (metis append_Nil list.distinct(1) option.inject fst_conv)
qed

end
