(* ===== verification/Scheduler.thy ===== *)
theory Scheduler
  imports Scheduler_State
begin

text \<open>
  The execution of transactions by \<open>TwoPLScheduler\<close>
  (\<open>transactions/impl/TwoPLScheduler.cpp\<close>): growing phase, execution phase and
  shrinking phase, on the local node and on remote nodes. What other threads do to
  the lock manager while this one waits for the lock of key \<open>k\<close> is \<open>envs k\<close>; what
  they do to the scheduler during each wait on a condition variable is an event of
  the tape, which also says how the wait ended. A call whose tape is used up while
  it still waits is \<open>Blocked\<close>.
\<close>

section \<open>Waiting\<close>

datatype wait_event =
    Wake "TwoPLScheduler \<Rightarrow> TwoPLScheduler"
  | Timeout "TwoPLScheduler \<Rightarrow> TwoPLScheduler"

type_synonym 'a run = "'a outcome \<times> wait_event list \<times> TwoPLScheduler"

section \<open>Message types\<close>

definition MT_LOCK_REQUEST :: string where "MT_LOCK_REQUEST = ''lock_req''"
definition MT_LOCK_GRANTED :: string where "MT_LOCK_GRANTED = ''lock_granted''"
definition MT_LOCK_DENIED :: string where "MT_LOCK_DENIED = ''lock_denied''"
definition MT_LOCK_RELEASE :: string where "MT_LOCK_RELEASE = ''lock_rel''"
definition MT_OP_REQUEST :: string where "MT_OP_REQUEST = ''op_req''"
definition MT_OP_RESPONSE :: string where "MT_OP_RESPONSE = ''op_resp''"
definition MT_TXN_PREPARE :: string where "MT_TXN_PREPARE = ''txn_prep''"
definition MT_TXN_COMMIT :: string where "MT_TXN_COMMIT = ''txn_commit''"
definition MT_TXN_ABORT :: string where "MT_TXN_ABORT = ''txn_abort''"

lemmas MT_defs = MT_LOCK_REQUEST_def MT_LOCK_GRANTED_def MT_LOCK_DENIED_def MT_LOCK_RELEASE_def
  MT_OP_REQUEST_def MT_OP_RESPONSE_def MT_TXN_PREPARE_def MT_TXN_COMMIT_def MT_TXN_ABORT_def

text \<open>The request object with members \<open>type\<close>, \<open>tx_id\<close> and \<open>key\<close>.\<close>

definition lock_message :: "boost_json \<Rightarrow> string \<Rightarrow> TransactionId \<Rightarrow> KeyType \<Rightarrow> jobject" where
  "lock_message J type tx key =
     (let request = obj_set J [] ''type'' (JString type);
          request = obj_set J request ''tx_id'' (JUint tx)
      in obj_set J request ''key'' (JInt key))"

section \<open>Growing phase\<close>

text \<open>The (node, key) pairs in the order the nested loops visit them.\<close>

definition key_pairs :: "stdlib \<Rightarrow> (NodeID \<times> KeyType list) list \<Rightarrow> (NodeID \<times> KeyType) list" where
  "key_pairs L m = concat (map (\<lambda>(n, ks). map (Pair n) (key_order L ks)) (node_order L m))"

text \<open>\<open>pending_remote_locks[tx_id]\<close>: reading through \<open>operator[]\<close> creates the entry.\<close>

definition pending_of :: "TwoPLScheduler \<Rightarrow> TransactionId \<Rightarrow> (NodeID \<times> KeyType list) list" where
  "pending_of s tx = (case pending_remote_locks s tx of None \<Rightarrow> [] | Some m \<Rightarrow> m)"

definition touch_pending :: "TransactionId \<Rightarrow> TwoPLScheduler \<Rightarrow> TwoPLScheduler" where
  "touch_pending tx s =
     s\<lparr>pending_remote_locks := (pending_remote_locks s)(tx \<mapsto> pending_of s tx)\<rparr>"

definition add_pending :: "TransactionId \<Rightarrow> NodeID \<times> KeyType \<Rightarrow> TwoPLScheduler \<Rightarrow> TwoPLScheduler" where
  "add_pending tx nk s =
     s\<lparr>pending_remote_locks :=
         (pending_remote_locks s)(tx \<mapsto> nk_insert (fst nk) (snd nk) (pending_of s tx))\<rparr>"

fun wait_remote_locks :: "stdlib \<Rightarrow> boost_json \<Rightarrow> server_api \<Rightarrow> TransactionId \<Rightarrow>
    wait_event list \<Rightarrow> TwoPLScheduler \<Rightarrow> bool run" where
  "wait_remote_locks L J S tx tape s =
     (let s1 = touch_pending tx s
      in if pending_of s1 tx = [] then (Returns True, tape, s1)
         else (case tape of
             [] \<Rightarrow> (Blocked, [], s1)
           | Wake f # tape' \<Rightarrow> wait_remote_locks L J S tx tape' (f s1)
           | Timeout f # tape' \<Rightarrow>
               (let s2 = touch_pending tx (f s1);
                    releases = map (\<lambda>(n, k). (n, lock_message J MT_LOCK_RELEASE tx k))
                                 (key_pairs L (pending_of s2 tx))
                in case send_each S releases s2 of
                     (Inl e, s3) \<Rightarrow> (Throws e, tape', s3)
                   | (Inr _, s3) \<Rightarrow>
                       (Returns False, tape',
                        s3\<lparr>pending_remote_locks := (pending_remote_locks s3)(tx := None)\<rparr>))))"

declare wait_remote_locks.simps [simp del]

definition acquire_remote_locks_with_retry :: "stdlib \<Rightarrow> boost_json \<Rightarrow> server_api \<Rightarrow> wait_event list \<Rightarrow>
    (NodeID \<times> KeyType list) list \<Rightarrow> TransactionId \<Rightarrow> TwoPLScheduler \<Rightarrow> bool run" where
  "acquire_remote_locks_with_retry L J S tape remote_keys tx s =
     (let pairs = key_pairs L remote_keys;
          s1 = foldl (\<lambda>s nk. add_pending tx nk s) s pairs;
          requests = map (\<lambda>(n, k). (n, lock_message J MT_LOCK_REQUEST tx k)) pairs
      in case send_each S requests s1 of
           (Inl e, s2) \<Rightarrow> (Throws e, tape, s2)
         | (Inr _, s2) \<Rightarrow> wait_remote_locks L J S tx tape s2)"

text \<open>The local keys as a set, the remote keys as a map without the local node.\<close>

definition local_keys :: "stdlib \<Rightarrow> NodeID \<Rightarrow> (NodeID \<times> KeyType list) list \<Rightarrow> KeyType list" where
  "local_keys L here node_to_keys =
     foldl (\<lambda>ls (n, ks). if n = here then foldl (\<lambda>l k. List.insert k l) ls (key_order L ks) else ls)
       [] (node_order L node_to_keys)"

definition remote_keys :: "stdlib \<Rightarrow> NodeID \<Rightarrow> (NodeID \<times> KeyType list) list \<Rightarrow> (NodeID \<times> KeyType list) list" where
  "remote_keys L here node_to_keys = filter (\<lambda>(n, ks). n \<noteq> here) (node_order L node_to_keys)"

definition acquire_all_locks :: "stdlib \<Rightarrow> boost_json \<Rightarrow> server_api \<Rightarrow> (KeyType \<Rightarrow> interference) \<Rightarrow>
    wait_event list \<Rightarrow> (NodeID \<times> KeyType list) list \<Rightarrow> TransactionId \<Rightarrow> TwoPLScheduler \<Rightarrow> bool run" where
  "acquire_all_locks L J S envs tape node_to_keys tx s =
     (let locals = local_keys L (local_node_id s) node_to_keys;
          remotes = remote_keys L (local_node_id s) node_to_keys
      in case acquire_each (\<lambda>k. acquire (envs k) k tx) (key_order L locals) (lock_manager s) of
           (False, lm) \<Rightarrow> (Returns False, tape, s\<lparr>lock_manager := release_all L tx lm\<rparr>)
         | (True, lm) \<Rightarrow>
             (let s1 = s\<lparr>lock_manager := lm\<rparr>
              in if remotes = [] then (Returns True, tape, s1)
                 else (case acquire_remote_locks_with_retry L J S tape remotes tx s1 of
                     (Returns False, tape', s2) \<Rightarrow>
                       (Returns False, tape', s2\<lparr>lock_manager := release_all L tx (lock_manager s2)\<rparr>)
                   | r \<Rightarrow> r)))"

section \<open>Shrinking phase\<close>

definition release_all_locks :: "stdlib \<Rightarrow> boost_json \<Rightarrow> server_api \<Rightarrow>
    (NodeID \<times> KeyType list) list \<Rightarrow> TransactionId \<Rightarrow> TwoPLScheduler \<Rightarrow> unit res \<times> TwoPLScheduler" where
  "release_all_locks L J S node_to_keys tx s =
     (let s1 = s\<lparr>lock_manager := release_all L tx (lock_manager s)\<rparr>;
          pairs = filter (\<lambda>(n, k). n \<noteq> local_node_id s) (key_pairs L node_to_keys)
      in send_each S (map (\<lambda>(n, k). (n, lock_message J MT_LOCK_RELEASE tx k)) pairs) s1)"

section \<open>Execution phase\<close>

definition ops_pending :: "TwoPLScheduler \<Rightarrow> TransactionId \<Rightarrow> (NodeID \<times> KeyType) list" where
  "ops_pending s tx = (case pending_remote_ops s tx of None \<Rightarrow> [] | Some ps \<Rightarrow> ps)"

text \<open>The wait of \<open>execute_remote_operation\<close>; the result says whether a response came.\<close>

fun wait_remote_op :: "TransactionId \<Rightarrow> NodeID \<Rightarrow> KeyType \<Rightarrow> wait_event list \<Rightarrow> TwoPLScheduler \<Rightarrow> bool run" where
  "wait_remote_op tx target key tape s =
     (if (target, key) \<notin> set (ops_pending s tx) then (Returns True, tape, s)
      else (case tape of
          [] \<Rightarrow> (Blocked, [], s)
        | Wake f # tape' \<Rightarrow> wait_remote_op tx target key tape' (f s)
        | Timeout f # tape' \<Rightarrow>
            (let s1 = f s
             in (Returns False, tape',
                 s1\<lparr>pending_remote_ops :=
                   (pending_remote_ops s1)(tx \<mapsto> removeAll (target, key) (ops_pending s1 tx))\<rparr>))))"

declare wait_remote_op.simps [simp del]

definition op_request :: "boost_json \<Rightarrow> TransactionId \<Rightarrow> Operation \<Rightarrow> jobject" where
  "op_request J tx op =
     (let request = lock_message J MT_OP_REQUEST tx (op_key op)
      in if op_type op = APPEND
         then obj_set J (obj_set J request ''op_type'' (JString ''append'')) ''value'' (JInt (op_value op))
         else obj_set J request ''op_type'' (JString ''read''))"

definition execute_remote_operation :: "boost_json \<Rightarrow> server_api \<Rightarrow> NodeID \<Rightarrow> TransactionId \<Rightarrow>
    Operation \<Rightarrow> wait_event list \<Rightarrow> TwoPLScheduler \<Rightarrow> ValueContainer option run" where
  "execute_remote_operation J S target tx op tape s =
     (let s1 = s\<lparr>pending_remote_ops :=
            (pending_remote_ops s)(tx \<mapsto> List.insert (target, op_key op) (ops_pending s tx))\<rparr>
      in case send S target (op_request J tx op) s1 of
           (Inl _, s2) \<Rightarrow> (Returns None, tape, s2)
         | (Inr _, s2) \<Rightarrow>
             (case wait_remote_op tx target (op_key op) tape s2 of
                (Returns True, tape', s3) \<Rightarrow>
                  (Returns (case remote_results s3 tx of None \<Rightarrow> None | Some m \<Rightarrow> m (op_key op)), tape', s3)
              | (Returns False, tape', s3) \<Rightarrow> (Returns None, tape', s3)
              | (Throws e, tape', s3) \<Rightarrow> (Returns None, tape', s3)
              | (Blocked, tape', s3) \<Rightarrow> (Blocked, tape', s3)))"

fun exec_ops :: "boost_json \<Rightarrow> server_api \<Rightarrow> executor_api \<Rightarrow> (KeyType \<rightharpoonup> NodeID) \<Rightarrow> TransactionId \<Rightarrow>
    Operation list \<Rightarrow> Results \<Rightarrow> wait_event list \<Rightarrow> TwoPLScheduler \<Rightarrow> Results run" where
  "exec_ops J S X key_to_node tx [] results tape s = (Returns results, tape, s)"
| "exec_ops J S X key_to_node tx (op # ops) results tape s =
     (let primary = (case key_to_node (op_key op) of None \<Rightarrow> 0 | Some n \<Rightarrow> n)
      in if primary = local_node_id s then
           (case visit X op (make_executor X (store s)) of
              (Inl e, v) \<Rightarrow> (Throws e, tape, s\<lparr>store := exec_store v\<rparr>)
            | (Inr rs, v) \<Rightarrow>
                exec_ops J S X key_to_node tx ops (results @ rs) tape (s\<lparr>store := exec_store v\<rparr>))
         else
           (case execute_remote_operation J S primary tx op tape s of
              (Returns r, tape', s') \<Rightarrow>
                exec_ops J S X key_to_node tx ops
                  (case r of None \<Rightarrow> results | Some v \<Rightarrow> results @ [(op_key op, Some v)]) tape' s'
            | (Throws e, tape', s') \<Rightarrow> (Throws e, tape', s')
            | (Blocked, tape', s') \<Rightarrow> (Blocked, tape', s')))"

section \<open>Transactions\<close>

text \<open>The \<open>catch (...)\<close> block: release again, then rethrow.\<close>

definition cleanup :: "stdlib \<Rightarrow> boost_json \<Rightarrow> server_api \<Rightarrow> (NodeID \<times> KeyType list) list \<Rightarrow> TransactionId \<Rightarrow>
    exn \<Rightarrow> wait_event list \<Rightarrow> TwoPLScheduler \<Rightarrow> Results run" where
  "cleanup L J S node_to_keys tx e tape s =
     (case release_all_locks L J S node_to_keys tx s of
        (Inl e', s') \<Rightarrow> (Throws e', tape, s')
      | (Inr _, s') \<Rightarrow> (Throws e, tape, s'))"

definition execute_with_distributed_support :: "stdlib \<Rightarrow> boost_json \<Rightarrow> server_api \<Rightarrow> executor_api \<Rightarrow>
    (KeyType \<Rightarrow> interference) \<Rightarrow> wait_event list \<Rightarrow> Transaction \<Rightarrow> TransactionId \<Rightarrow>
    TwoPLScheduler \<Rightarrow> Results run" where
  "execute_with_distributed_support L J S X envs tape tx_ops tx s =
     (case categorize L s tx_ops (Map.empty, []) of
        Inl e \<Rightarrow> (Throws e, tape, s)
      | Inr (key_to_node, node_to_keys) \<Rightarrow>
          (case acquire_all_locks L J S envs tape node_to_keys tx s of
             (Blocked, tape1, s1) \<Rightarrow> (Blocked, tape1, s1)
           | (Throws e, tape1, s1) \<Rightarrow> (Throws e, tape1, s1)
           | (Returns False, tape1, s1) \<Rightarrow> (Returns [], tape1, s1)
           | (Returns True, tape1, s1) \<Rightarrow>
               (case exec_ops J S X key_to_node tx tx_ops [] tape1 s1 of
                  (Blocked, tape2, s2) \<Rightarrow> (Blocked, tape2, s2)
                | (Throws e, tape2, s2) \<Rightarrow> cleanup L J S node_to_keys tx e tape2 s2
                | (Returns results, tape2, s2) \<Rightarrow>
                    (case release_all_locks L J S node_to_keys tx s2 of
                       (Inr _, s3) \<Rightarrow> (Returns results, tape2, s3)
                     | (Inl e, s3) \<Rightarrow> cleanup L J S node_to_keys tx e tape2 s3))))"

text \<open>\<open>next_tx_id.fetch_add(1)\<close> wraps around at 2^64.\<close>

definition execute_transaction :: "stdlib \<Rightarrow> boost_json \<Rightarrow> server_api \<Rightarrow> executor_api \<Rightarrow>
    (KeyType \<Rightarrow> interference) \<Rightarrow> wait_event list \<Rightarrow> Transaction \<Rightarrow> TwoPLScheduler \<Rightarrow> Results run" where
  "execute_transaction L J S X envs tape tx_ops s =
     execute_with_distributed_support L J S X envs tape tx_ops (next_tx_id s)
       (s\<lparr>next_tx_id := next_tx_id s + 1\<rparr>)"

text \<open>The single-node variant with one visitor for the whole transaction.\<close>

fun visit_all :: "executor_api \<Rightarrow> Operation list \<Rightarrow> Results \<Rightarrow> NaiveOpExecutor \<Rightarrow> Results res \<times> NaiveOpExecutor" where
  "visit_all X [] results v = (Inr results, v)"
| "visit_all X (op # ops) results v =
     (case visit X op v of
        (Inl e, v') \<Rightarrow> (Inl e, v')
      | (Inr rs, v') \<Rightarrow> visit_all X ops (results @ rs) v')"

definition execute_with_id :: "stdlib \<Rightarrow> executor_api \<Rightarrow> (KeyType \<Rightarrow> interference) \<Rightarrow> Transaction \<Rightarrow>
    TransactionId \<Rightarrow> TwoPLScheduler \<Rightarrow> (Results \<times> bool) res \<times> TwoPLScheduler" where
  "execute_with_id L X envs tx_ops tx s =
     (let keys_to_lock = foldl (\<lambda>ks op. List.insert (op_key op) ks) [] tx_ops
      in case acquire_each (\<lambda>k. acquire (envs k) k tx) (key_order L keys_to_lock) (lock_manager s) of
           (False, lm) \<Rightarrow> (Inr ([], False), s\<lparr>lock_manager := release_all L tx lm\<rparr>)
         | (True, lm) \<Rightarrow>
             (case visit_all X tx_ops [] (make_executor X (store s)) of
                (Inl e, v) \<Rightarrow>
                  (Inl e, s\<lparr>store := exec_store v, lock_manager := release_all L tx lm\<rparr>)
              | (Inr results, v) \<Rightarrow>
                  (Inr (results, True), s\<lparr>store := exec_store v, lock_manager := release_all L tx lm\<rparr>)))"

end
