(* ===== verification/Single_Node.thy ===== *)
theory Single_Node
  imports Scheduler
begin

text \<open>
  Transactions on a scheduler without a coordinator, the mode of a node without
  peers: every key is local. The scheduler's execution is related to the reference
  semantics of \<open>Operations\<close>.
\<close>

section \<open>Growing phase\<close>

lemma acquire_each_leaves:
  assumes "\<And>k w lm. leaves u lm (envs k w lm)" and "u \<noteq> tx"
  shows "leaves u lm (snd (acquire_each (\<lambda>k. acquire (envs k) k tx) ks lm))"
proof (induction ks arbitrary: lm)
  case (Cons k ks)
  have step: "leaves u lm (snd (acquire (envs k) k tx lm))"
    by (rule acquire_leaves [of u "envs k" tx, OF assms(1) assms(2)])
  obtain r lm' where a: "acquire (envs k) k tx lm = (r, lm')" by force
  with step have "leaves u lm lm'" by simp
  with a Cons.IH [of lm'] show ?case by (cases r) (auto intro: leaves_trans)
qed simp

text \<open>Without interference the outcome is decided by the owners at the start.\<close>

lemma acquire_quiet_free:
  assumes "owner_of lm k \<in> {None, Some tx}"
  shows "fst (acquire quiet k tx lm) = ACQUIRED"
    and "owner_of (snd (acquire quiet k tx lm)) j \<in> {None, Some tx} \<longleftrightarrow> owner_of lm j \<in> {None, Some tx}"
  using assms by (auto simp: acquire_free acquire_reentrant split: if_splits)

lemma acquire_each_quiet:
  "fst (acquire_each (\<lambda>k. acquire quiet k tx) ks lm) \<longleftrightarrow>
     (\<forall>k \<in> set ks. owner_of lm k \<in> {None, Some tx})"
proof (induction ks arbitrary: lm)
  case (Cons k ks)
  obtain r lm' where a: "acquire quiet k tx lm = (r, lm')" by force
  show ?case
  proof (cases "owner_of lm k \<in> {None, Some tx}")
    case True
    then have "r = ACQUIRED"
        "\<And>j. owner_of lm' j \<in> {None, Some tx} \<longleftrightarrow> owner_of lm j \<in> {None, Some tx}"
      using acquire_quiet_free [OF True] a by auto
    with True a Cons.IH [of lm'] show ?thesis by simp
  next
    case False
    then obtain u where "owner_of lm k = Some u" "u \<noteq> tx" by auto
    with a False show ?thesis by (simp add: acquire_busy)
  qed
qed simp

lemma quiet_growing_shrinking:
  assumes "tx_inv tx lm" and "std_ok L"
    and "acquire_each (\<lambda>k. acquire quiet k tx) ks lm = (b, lm')"
  shows "tx_inv t lm \<Longrightarrow> tx_inv t (release_all L tx lm')"
    and "owner_of (release_all L tx lm') j = (if owner_of lm j = Some tx then None else owner_of lm j)"
proof -
  have inv: "tx_inv tx lm'"
    using quiet_family.acquire_each_correct [OF assms(1), of ks b lm'] assms(3) by simp
  have other: "leaves u lm lm'" if "u \<noteq> tx" for u
    using acquire_each_leaves [of u "\<lambda>_. quiet" tx lm ks] assms(3) that by (simp add: quiet_apply)
  then have "tx_inv t lm'" if "tx_inv t lm" using that inv tx_inv_leaves by (cases "t = tx") auto
  then show "tx_inv t lm \<Longrightarrow> tx_inv t (release_all L tx lm')"
    using tx_inv_release_all [OF inv assms(2)] by blast
  have "owner_of lm' j = Some u \<longleftrightarrow> owner_of lm j = Some u" if "u \<noteq> tx" for u
    using leavesD(1) [OF other [OF that]] .
  then show "owner_of (release_all L tx lm') j = (if owner_of lm j = Some tx then None else owner_of lm j)"
    unfolding release_all_owner [OF inv assms(2)]
    by (metis option.exhaust)
qed

section \<open>Routing without a coordinator\<close>

lemma primary_of_single [simp]: "coordinator s = None \<Longrightarrow> primary_of L s k = Inr (local_node_id s)"
  by (simp add: primary_of_def is_local_key_def)

definition insert_keys :: "KeyType list \<Rightarrow> Operation list \<Rightarrow> KeyType list" where
  "insert_keys ks ops = foldl (\<lambda>ks op. List.insert (op_key op) ks) ks ops"

lemma insert_keys_simps [simp]:
  "set (insert_keys ks ops) = set ks \<union> op_keys ops"
  "distinct (insert_keys ks ops) = distinct ks"
  unfolding insert_keys_def by (induction ops arbitrary: ks) auto

lemma categorize_single_acc:
  "coordinator s = None \<Longrightarrow>
   \<exists>m'. categorize L s ops (m, [(local_node_id s, ks)]) = Inr (m', [(local_node_id s, insert_keys ks ops)]) \<and>
     (\<forall>k. m' k = (if k \<in> op_keys ops then Some (local_node_id s) else m k))"
proof (induction ops arbitrary: m ks)
  case Nil
  then show ?case by (simp add: insert_keys_def)
next
  case (Cons op ops)
  let ?m = "m(op_key op \<mapsto> local_node_id s)"
  obtain m' where m': "categorize L s ops (?m, [(local_node_id s, List.insert (op_key op) ks)]) =
        Inr (m', [(local_node_id s, insert_keys (List.insert (op_key op) ks) ops)])"
      "\<And>k. m' k = (if k \<in> op_keys ops then Some (local_node_id s) else ?m k)"
    using Cons.IH [OF Cons.prems] by blast
  have "categorize L s (op # ops) (m, [(local_node_id s, ks)]) =
      Inr (m', [(local_node_id s, insert_keys ks (op # ops))])"
    using m'(1) Cons.prems by (simp add: insert_keys_def)
  moreover have "m' k = (if k \<in> op_keys (op # ops) then Some (local_node_id s) else m k)" for k
    using m'(2) [of k] by auto
  ultimately show ?case by blast
qed

lemma categorize_single:
  assumes "coordinator s = None"
  obtains m ntk where "categorize L s ops (Map.empty, []) = Inr (m, ntk)"
    and "\<forall>k \<in> op_keys ops. m k = Some (local_node_id s)"
    and "ntk = (if ops = [] then [] else [(local_node_id s, insert_keys [] ops)])"
proof (cases ops)
  case Nil
  then show ?thesis by (intro that) auto
next
  case (Cons op ops')
  obtain m' where "categorize L s ops' ([op_key op \<mapsto> local_node_id s], [(local_node_id s, [op_key op])]) =
      Inr (m', [(local_node_id s, insert_keys [op_key op] ops')])"
      "\<forall>k. m' k = (if k \<in> op_keys ops' then Some (local_node_id s)
                     else [op_key op \<mapsto> local_node_id s] k)"
    using categorize_single_acc [OF assms] by blast
  with assms Cons show ?thesis by (intro that [of m']) (auto simp: insert_keys_def)
qed

lemma node_order_single [simp]: "std_ok L \<Longrightarrow> node_order L [x] = [x]"
  using std_okD(2) [of L "[x]"] by simp

lemma node_order_Nil [simp]: "std_ok L \<Longrightarrow> node_order L [] = []"
  using std_okD(2) [of L "[]"] by simp

lemma foldl_insert [simp]:
  "set (foldl (\<lambda>l k. List.insert k l) ls ks) = set ls \<union> set ks"
  "distinct (foldl (\<lambda>l k. List.insert k l) ls ks) = distinct ls"
  by (induction ks arbitrary: ls) auto

text \<open>What the growing phase of a transaction on a single node amounts to.\<close>

lemma acquire_all_locks_single:
  assumes "std_ok L" and "ntk = (if ops = [] then [] else [(local_node_id s, insert_keys [] ops)])"
  obtains ks where "set ks = op_keys ops" and "distinct ks"
    and "acquire_all_locks L J S envs tape ntk tx s =
      (case acquire_each (\<lambda>k. acquire (envs k) k tx) ks (lock_manager s) of
         (False, lm) \<Rightarrow> (Returns False, tape, s\<lparr>lock_manager := release_all L tx lm\<rparr>)
       | (True, lm) \<Rightarrow> (Returns True, tape, s\<lparr>lock_manager := lm\<rparr>))"
proof -
  let ?ks = "key_order L (local_keys L (local_node_id s) ntk)"
  have "set (local_keys L (local_node_id s) ntk) = op_keys ops"
       "distinct (local_keys L (local_node_id s) ntk)"
       "remote_keys L (local_node_id s) ntk = []"
    using assms by (auto simp: local_keys_def remote_keys_def)
  with assms(1) show ?thesis
    by (intro that [of ?ks]) (auto simp: acquire_all_locks_def Let_def split: prod.split bool.split)
qed

lemma release_all_locks_single:
  assumes "std_ok L" and "ntk = (if ops = [] then [] else [(here, insert_keys [] ops)])"
    and "local_node_id s = here"
  shows "release_all_locks L J S ntk tx s = (Inr (), s\<lparr>lock_manager := release_all L tx (lock_manager s)\<rparr>)"
proof -
  have "filter (\<lambda>(n, k). n \<noteq> local_node_id s) (key_pairs L ntk) = []"
    using assms by (auto simp: key_pairs_def filter_empty_conv)
  then show ?thesis by (simp add: release_all_locks_def Let_def)
qed

section \<open>Execution phase\<close>

lemma visit_all_refines:
  assumes "executor_ok L X" and "kv_wf L (exec_store v)"
  shows "\<exists>v'. visit_all X ops rs v = (Inr (rs @ fst (run_ops (kv_get L (exec_store v)) ops)), v') \<and>
    kv_wf L (exec_store v') \<and> kv_get L (exec_store v') = snd (run_ops (kv_get L (exec_store v)) ops)"
  using assms(2)
proof (induction ops arbitrary: rs v)
  case (Cons op ops)
  obtain v1 where v1: "visit X op v = (Inr (op_read (kv_get L (exec_store v)) op), v1)"
      "kv_wf L (exec_store v1)" "kv_get L (exec_store v1) = op_write (kv_get L (exec_store v)) op"
    by (rule visit_refines [OF assms(1) Cons.prems])
  from Cons.IH [OF v1(2), of "rs @ op_read (kv_get L (exec_store v)) op"] v1 show ?case by auto
qed simp

lemma exec_ops_single:
  assumes "executor_ok L X" and "kv_wf L (store s)"
    and "\<forall>k \<in> op_keys ops. m k = Some (local_node_id s)"
  shows "\<exists>st. exec_ops J S X m tx ops rs tape s =
      (Returns (rs @ fst (run_ops (kv_get L (store s)) ops)), tape, s\<lparr>store := st\<rparr>) \<and>
    kv_wf L st \<and> kv_get L st = snd (run_ops (kv_get L (store s)) ops)"
  using assms(2,3)
proof (induction ops arbitrary: rs s)
  case Nil
  then show ?case by (intro exI [of _ "store s"]) simp
next
  case (Cons op ops)
  have e: "exec_store (make_executor X (store s)) = store s" using assms(1) by simp
  obtain v where v: "visit X op (make_executor X (store s)) = (Inr (op_read (kv_get L (store s)) op), v)"
      "kv_wf L (exec_store v)" "kv_get L (exec_store v) = op_write (kv_get L (store s)) op"
    using visit_refines [OF assms(1), of "make_executor X (store s)" op] Cons.prems(1) unfolding e by blast
  from Cons.IH [of "s\<lparr>store := exec_store v\<rparr>" "rs @ op_read (kv_get L (store s)) op"] v Cons.prems
  show ?case by auto
qed

section \<open>Whole transactions\<close>

lemma execute_single:
  assumes "coordinator s = None" "std_ok L" "executor_ok L X" "kv_wf L (store s)"
  obtains ks st where "set ks = op_keys ops" "distinct ks" "kv_wf L st"
    "kv_get L st = snd (run_ops (kv_get L (store s)) ops)"
    "execute_with_distributed_support L J S X envs tape ops tx s =
      (case acquire_each (\<lambda>k. acquire (envs k) k tx) ks (lock_manager s) of
         (False, lm) \<Rightarrow> (Returns [], tape, s\<lparr>lock_manager := release_all L tx lm\<rparr>)
       | (True, lm) \<Rightarrow> (Returns (fst (run_ops (kv_get L (store s)) ops)), tape,
           s\<lparr>store := st, lock_manager := release_all L tx lm\<rparr>))"
proof -
  obtain m ntk where c: "categorize L s ops (Map.empty, []) = Inr (m, ntk)"
      "\<forall>k \<in> op_keys ops. m k = Some (local_node_id s)"
      "ntk = (if ops = [] then [] else [(local_node_id s, insert_keys [] ops)])"
    by (rule categorize_single [OF assms(1)])
  obtain ks where ks: "set ks = op_keys ops" "distinct ks"
      "acquire_all_locks L J S envs tape ntk tx s =
      (case acquire_each (\<lambda>k. acquire (envs k) k tx) ks (lock_manager s) of
         (False, lm) \<Rightarrow> (Returns False, tape, s\<lparr>lock_manager := release_all L tx lm\<rparr>)
       | (True, lm) \<Rightarrow> (Returns True, tape, s\<lparr>lock_manager := lm\<rparr>))"
    by (rule acquire_all_locks_single [OF assms(2) c(3)])
  obtain b lm where a: "acquire_each (\<lambda>k. acquire (envs k) k tx) ks (lock_manager s) = (b, lm)" by force
  let ?s1 = "s\<lparr>lock_manager := lm\<rparr>"
  obtain st where st: "exec_ops J S X m tx ops [] tape ?s1 =
      (Returns (fst (run_ops (kv_get L (store s)) ops)), tape, ?s1\<lparr>store := st\<rparr>)"
      "kv_wf L st" "kv_get L st = snd (run_ops (kv_get L (store s)) ops)"
    using exec_ops_single [OF assms(3), of ?s1 ops m J S tx "[]" tape] assms(4) c(2) by auto
  have "release_all_locks L J S ntk tx (?s1\<lparr>store := st\<rparr>) =
      (Inr (), s\<lparr>store := st, lock_manager := release_all L tx lm\<rparr>)"
    using release_all_locks_single [OF assms(2) c(3), of "?s1\<lparr>store := st\<rparr>" J S tx] by simp
  then show ?thesis
    using c(1) ks a st
    by (intro that [of ks st]) (auto simp: execute_with_distributed_support_def split: bool.split)
qed

text \<open>Whatever the visitor does, the single-node paths give all locks back.\<close>

lemma exec_ops_local_frame:
  "\<forall>k \<in> op_keys ops. m k = Some (local_node_id s) \<Longrightarrow>
   \<exists>out st. exec_ops J S X m tx ops rs tape s = (out, tape, s\<lparr>store := st\<rparr>) \<and> out \<noteq> Blocked"
proof (induction ops arbitrary: rs s)
  case Nil
  then show ?case by (intro exI [of _ "Returns rs"] exI [of _ "store s"]) simp
next
  case (Cons op ops)
  obtain r v where v: "visit X op (make_executor X (store s)) = (r, v)" by force
  show ?case
  proof (cases r)
    case (Inl e)
    with v Cons.prems show ?thesis
      by (intro exI [of _ "Throws e"] exI [of _ "exec_store v"]) simp
  next
    case (Inr rs')
    with Cons.IH [of "s\<lparr>store := exec_store v\<rparr>" "rs @ rs'"] v Cons.prems show ?thesis by auto
  qed
qed

text \<open>Every key of the transaction is free or already its own.\<close>

definition can_lock :: "LockManager \<Rightarrow> TransactionId \<Rightarrow> Operation list \<Rightarrow> bool" where
  "can_lock lm tx ops = list_all (\<lambda>op. case owner_of lm (op_key op) of None \<Rightarrow> True | Some u \<Rightarrow> u = tx) ops"

lemma acquire_each_can_lock:
  assumes "set ks = op_keys ops"
  shows "fst (acquire_each (\<lambda>k. acquire quiet k tx) ks lm) = can_lock lm tx ops"
proof -
  have "(case x of None \<Rightarrow> True | Some u \<Rightarrow> u = tx) \<longleftrightarrow> x \<in> {None, Some tx}" for x
    by (cases x) auto
  with assms show ?thesis
    unfolding acquire_each_quiet can_lock_def list_all_iff by auto
qed

lemma execute_transaction_spec:
  assumes "coordinator s = None" "std_ok L" "executor_ok L X"
    and "kv_wf L (store s)" "tx_inv (next_tx_id s) (lock_manager s)"
  shows "\<exists>s'. execute_transaction L J S X (\<lambda>_. quiet) tape ops s =
      (Returns (if can_lock (lock_manager s) (next_tx_id s) ops
                then fst (run_ops (kv_get L (store s)) ops) else []), tape, s') \<and>
    kv_get L (store s') =
      (if can_lock (lock_manager s) (next_tx_id s) ops
       then snd (run_ops (kv_get L (store s)) ops) else kv_get L (store s)) \<and>
    kv_wf L (store s') \<and> next_tx_id s' = next_tx_id s + 1 \<and>
    (\<forall>t. tx_inv t (lock_manager s) \<longrightarrow> tx_inv t (lock_manager s')) \<and>
    (\<forall>k. owner_of (lock_manager s') k =
       (if owner_of (lock_manager s) k = Some (next_tx_id s) then None else owner_of (lock_manager s) k))"
proof -
  let ?tx = "next_tx_id s" and ?s0 = "s\<lparr>next_tx_id := next_tx_id s + 1\<rparr>"
  have h: "coordinator ?s0 = None" "kv_wf L (store ?s0)" using assms by simp_all
  obtain ks st where e: "set ks = op_keys ops" "distinct ks" "kv_wf L st"
    "kv_get L st = snd (run_ops (kv_get L (store ?s0)) ops)"
    "execute_with_distributed_support L J S X (\<lambda>_. quiet) tape ops ?tx ?s0 =
      (case acquire_each (\<lambda>k. acquire quiet k ?tx) ks (lock_manager ?s0) of
         (False, lm) \<Rightarrow> (Returns [], tape, ?s0\<lparr>lock_manager := release_all L ?tx lm\<rparr>)
       | (True, lm) \<Rightarrow> (Returns (fst (run_ops (kv_get L (store ?s0)) ops)), tape,
           ?s0\<lparr>store := st, lock_manager := release_all L ?tx lm\<rparr>))"
    by (rule execute_single [OF h(1) assms(2,3) h(2)])
  obtain b lm where a: "acquire_each (\<lambda>k. acquire quiet k ?tx) ks (lock_manager s) = (b, lm)" by force
  have b: "b = can_lock (lock_manager s) ?tx ops"
    using acquire_each_can_lock [OF e(1), of ?tx "lock_manager s"] a by simp
  note lm = quiet_growing_shrinking [OF assms(5,2) a]
  have inv: "\<forall>t. tx_inv t (lock_manager s) \<longrightarrow> tx_inv t (release_all L ?tx lm)"
    using lm(1) by blast
  have own: "\<forall>k. owner_of (release_all L ?tx lm) k =
      (if owner_of (lock_manager s) k = Some ?tx then None else owner_of (lock_manager s) k)"
    using lm(2) by blast
  show ?thesis
    unfolding b [symmetric] execute_transaction_def
    using e a inv own assms by (cases b) auto
qed

text \<open>
  C20 (a transaction refines the reference semantics). On a node without peers, with no
  other thread running: if every key of the transaction is free, \<open>execute_transaction\<close>
  returns exactly the reads of the reference semantics and leaves the store in its
  final state; if some key is locked by another transaction, it returns the empty
  result and the store is untouched. Either way it returns, consumes one transaction
  id, keeps the invariants, and all locks are as before except that the transaction
  itself holds none.
\<close>

theorem execute_transaction_refines:
  assumes "coordinator s = None" "std_ok L" "executor_ok L X"
    and "kv_wf L (store s)" "tx_inv (next_tx_id s) (lock_manager s)"
  shows "\<exists>s'. execute_transaction L J S X (\<lambda>_. quiet) tape ops s =
      (Returns (if can_lock (lock_manager s) (next_tx_id s) ops
                then fst (run_ops (kv_get L (store s)) ops) else []), tape, s') \<and>
    kv_get L (store s') =
      (if can_lock (lock_manager s) (next_tx_id s) ops
       then snd (run_ops (kv_get L (store s)) ops) else kv_get L (store s)) \<and>
    kv_wf L (store s') \<and> next_tx_id s' = next_tx_id s + 1 \<and>
    (\<forall>t. tx_inv t (lock_manager s) \<longrightarrow> tx_inv t (lock_manager s')) \<and>
    (\<forall>k. owner_of (lock_manager s') k =
       (if owner_of (lock_manager s) k = Some (next_tx_id s) then None else owner_of (lock_manager s) k))"
  using assms by (rule execute_transaction_spec)

text \<open>A fresh scheduler on an empty store, for concrete evaluations.\<close>

definition sched0 :: TwoPLScheduler where
  "sched0 = make_scheduler 0 empty_store"

lemma sched0_simps [simp]:
  "coordinator sched0 = None" "store sched0 = empty_store" "lock_manager sched0 = init_lock_manager"
  "next_tx_id sched0 = 1" "local_node_id sched0 = 0" "sent sched0 = []"
  "pending_remote_locks sched0 = Map.empty" "pending_remote_ops sched0 = Map.empty"
  "remote_results sched0 = Map.empty" "logged sched0 = []"
  by (simp_all add: sched0_def make_scheduler_def)

lemma owner_init [simp]: "owner_of init_lock_manager k = None"
  by (simp add: owner_of_def init_lock_manager_def)

theorem execute_transaction_refines_witness:
  "\<exists>s'. execute_transaction std_ref boost_ref server_up (executor_ref std_ref) (\<lambda>_. quiet) []
      [AppendOp 5 1, ReadOp 5, AppendOp 5 2, ReadOp 5, ReadOp 6] sched0 =
      (Returns [(5, Some [1]), (5, Some [1, 2]), (6, None)], [], s') \<and>
    kv_get std_ref (store s') 5 = Some [1, 2]"
  using execute_transaction_refines [of sched0 std_ref "executor_ref std_ref" boost_ref server_up "[]"
      "[AppendOp 5 1, ReadOp 5, AppendOp 5 2, ReadOp 5, ReadOp 6]"]
  by (auto simp: can_lock_def)

lemma execute_transaction_all_or_nothing:
  assumes "coordinator s = None" "executor_ok L X" "kv_wf L (store s)" "tx_inv (next_tx_id s) (lock_manager s)"
    and "rely_family (next_tx_id s) envs L"
  shows "\<exists>s' rs. execute_transaction L J S X envs tape ops s = (Returns rs, tape, s') \<and>
    (rs = fst (run_ops (kv_get L (store s)) ops) \<and>
       kv_get L (store s') = snd (run_ops (kv_get L (store s)) ops) \<or>
     rs = [] \<and> store s' = store s) \<and>
    kv_wf L (store s') \<and> tx_inv (next_tx_id s) (lock_manager s') \<and>
    (\<forall>k. owner_of (lock_manager s') k \<noteq> Some (next_tx_id s))"
proof -
  let ?tx = "next_tx_id s" and ?s0 = "s\<lparr>next_tx_id := next_tx_id s + 1\<rparr>"
  have std: "std_ok L" using assms(5) by (simp add: rely_family_def)
  have h: "coordinator ?s0 = None" "kv_wf L (store ?s0)" using assms by simp_all
  obtain ks st where e: "set ks = op_keys ops" "distinct ks" "kv_wf L st"
    "kv_get L st = snd (run_ops (kv_get L (store ?s0)) ops)"
    "execute_with_distributed_support L J S X envs tape ops ?tx ?s0 =
      (case acquire_each (\<lambda>k. acquire (envs k) k ?tx) ks (lock_manager ?s0) of
         (False, lm) \<Rightarrow> (Returns [], tape, ?s0\<lparr>lock_manager := release_all L ?tx lm\<rparr>)
       | (True, lm) \<Rightarrow> (Returns (fst (run_ops (kv_get L (store ?s0)) ops)), tape,
           ?s0\<lparr>store := st, lock_manager := release_all L ?tx lm\<rparr>))"
    by (rule execute_single [OF h(1) std assms(2) h(2)])
  obtain b lm where a: "acquire_each (\<lambda>k. acquire (envs k) k ?tx) ks (lock_manager s) = (b, lm)" by force
  have "tx_inv ?tx (release_all L ?tx lm)" "\<forall>k. owner_of (release_all L ?tx lm) k \<noteq> Some ?tx"
    using rely_family.growing_phase(3,4) [OF assms(5,4) a] by blast+
  then show ?thesis
    unfolding execute_transaction_def using e a assms by (cases b) auto
qed

text \<open>
  All or nothing under contention. Whatever the other threads do within their
  contract while the transaction waits for its locks, it returns; either it has run
  completely, with the results and the final store of the reference semantics, or it
  has aborted with the empty result and an untouched store. In both cases it holds no
  lock afterwards and the invariants are kept.
\<close>

theorem execute_transaction_atomic:
  assumes "coordinator s = None" "executor_ok L X" "kv_wf L (store s)" "tx_inv (next_tx_id s) (lock_manager s)"
    and "rely_family (next_tx_id s) envs L"
  shows "\<exists>s' rs. execute_transaction L J S X envs tape ops s = (Returns rs, tape, s') \<and>
    (rs = fst (run_ops (kv_get L (store s)) ops) \<and>
       kv_get L (store s') = snd (run_ops (kv_get L (store s)) ops) \<or>
     rs = [] \<and> store s' = store s) \<and>
    kv_wf L (store s') \<and> tx_inv (next_tx_id s) (lock_manager s') \<and>
    (\<forall>k. owner_of (lock_manager s') k \<noteq> Some (next_tx_id s))"
  using assms by (rule execute_transaction_all_or_nothing)

lemma env_release_family: "tx \<noteq> 7 \<Longrightarrow> rely_family tx (\<lambda>_. env_release) std_ref"
  by (intro rely_family.intro env_release_rely std_ref_ok)

theorem execute_transaction_atomic_witness:
  "\<exists>s' rs. execute_transaction std_ref boost_ref server_up (executor_ref std_ref) (\<lambda>_. env_release) []
      [ReadOp 5] (sched0\<lparr>lock_manager := lm_held\<rparr>) = (Returns rs, [], s') \<and>
    (rs = [(5, None)] \<or> rs = []) \<and> (\<forall>k. owner_of (lock_manager s') k \<noteq> Some 1)"
  using execute_transaction_atomic [of "sched0\<lparr>lock_manager := lm_held\<rparr>" std_ref "executor_ref std_ref"
      "\<lambda>_. env_release" boost_ref server_up "[]" "[ReadOp 5]"] env_release_family [of 1]
  by auto

lemma execute_transaction_total:
  assumes "coordinator s = None" "tx_inv (next_tx_id s) (lock_manager s)" "rely_family (next_tx_id s) envs L"
  shows "\<exists>out s'. execute_transaction L J S X envs tape ops s = (out, tape, s') \<and> out \<noteq> Blocked \<and>
    tx_inv (next_tx_id s) (lock_manager s') \<and> (\<forall>k. owner_of (lock_manager s') k \<noteq> Some (next_tx_id s))"
proof -
  let ?tx = "next_tx_id s" and ?s0 = "s\<lparr>next_tx_id := next_tx_id s + 1\<rparr>"
  have std: "std_ok L" using assms(3) by (simp add: rely_family_def)
  have "coordinator ?s0 = None" using assms(1) by simp
  then obtain m ntk where c: "categorize L ?s0 ops (Map.empty, []) = Inr (m, ntk)"
      "\<forall>k \<in> op_keys ops. m k = Some (local_node_id ?s0)"
      "ntk = (if ops = [] then [] else [(local_node_id ?s0, insert_keys [] ops)])"
    by (rule categorize_single)
  obtain ks where ks: "set ks = op_keys ops" "distinct ks"
      "acquire_all_locks L J S envs tape ntk ?tx ?s0 =
      (case acquire_each (\<lambda>k. acquire (envs k) k ?tx) ks (lock_manager ?s0) of
         (False, lm) \<Rightarrow> (Returns False, tape, ?s0\<lparr>lock_manager := release_all L ?tx lm\<rparr>)
       | (True, lm) \<Rightarrow> (Returns True, tape, ?s0\<lparr>lock_manager := lm\<rparr>))"
    by (rule acquire_all_locks_single [OF std c(3)])
  obtain b lm where a: "acquire_each (\<lambda>k. acquire (envs k) k ?tx) ks (lock_manager s) = (b, lm)" by force
  have fin: "tx_inv ?tx (release_all L ?tx lm)" "\<forall>k. owner_of (release_all L ?tx lm) k \<noteq> Some ?tx"
    using rely_family.growing_phase(3,4) [OF assms(3,2) a] by blast+
  let ?s1 = "?s0\<lparr>lock_manager := lm\<rparr>"
  obtain out st where x: "exec_ops J S X m ?tx ops [] tape ?s1 = (out, tape, ?s1\<lparr>store := st\<rparr>)" "out \<noteq> Blocked"
    using exec_ops_local_frame [of ops m ?s1 J S X ?tx "[]" tape] c(2) by auto
  have rel: "release_all_locks L J S ntk ?tx (?s1\<lparr>store := st\<rparr>) =
      (Inr (), ?s1\<lparr>store := st, lock_manager := release_all L ?tx lm\<rparr>)"
    using release_all_locks_single [OF std c(3), of "?s1\<lparr>store := st\<rparr>" J S ?tx] by simp
  show ?thesis
    unfolding execute_transaction_def execute_with_distributed_support_def
    using c(1) ks(3) a x rel fin
    by (cases b; cases out) (auto simp: cleanup_def)
qed

text \<open>
  C21 (locks are always given back). For any visitor, also one that throws in the
  middle of a transaction, and whatever other threads do within the contract of the lock
  manager: on a node without peers the execution of a transaction returns or throws, is
  never stuck, and leaves no lock with the transaction. With peers this is not so: an
  exception of a send in the growing phase leaves the local locks taken.
\<close>

theorem execute_transaction_releases:
  assumes "coordinator s = None" "tx_inv (next_tx_id s) (lock_manager s)" "rely_family (next_tx_id s) envs L"
  shows "\<exists>out s'. execute_transaction L J S X envs tape ops s = (out, tape, s') \<and> out \<noteq> Blocked \<and>
    tx_inv (next_tx_id s) (lock_manager s') \<and> (\<forall>k. owner_of (lock_manager s') k \<noteq> Some (next_tx_id s))"
  using assms by (rule execute_transaction_total)

definition executor_faulty :: executor_api where
  "executor_faulty = (executor_ref std_ref)\<lparr>Accept := (\<lambda>op e. (Inl (RuntimeError ''fault''), e))\<rparr>"

theorem execute_transaction_releases_witness:
  "\<exists>out s'. execute_transaction std_ref boost_ref server_up executor_faulty (\<lambda>_. env_release) []
      [ReadOp 5] (sched0\<lparr>lock_manager := lm_held\<rparr>) = (out, [], s') \<and> out \<noteq> Blocked \<and>
    (\<forall>k. owner_of (lock_manager s') k \<noteq> Some 1)"
  using execute_transaction_releases [of "sched0\<lparr>lock_manager := lm_held\<rparr>" "\<lambda>_. env_release" std_ref
      boost_ref server_up executor_faulty "[]" "[ReadOp 5]"] env_release_family [of 1]
  by auto

text \<open>
  C22 (the two single-node paths agree). \<open>execute_with_id\<close>, which locks the keys
  directly and runs all operations with one visitor, and
  \<open>execute_with_distributed_support\<close>, which routes every key and uses a visitor per
  operation, return the same results and leave equal stores and lock owners; the flag
  of \<open>execute_with_id\<close> tells whether the transaction ran, which an empty result
  does not.
\<close>

theorem execute_with_id_equivalent:
  assumes "coordinator s = None" "std_ok L" "executor_ok L X"
    and "kv_wf L (store s)" "tx_inv tx (lock_manager s)"
  shows "\<exists>s1 s2 rs. execute_with_id L X (\<lambda>_. quiet) ops tx s =
      (Inr (rs, can_lock (lock_manager s) tx ops), s1) \<and>
    execute_with_distributed_support L J S X (\<lambda>_. quiet) tape ops tx s = (Returns rs, tape, s2) \<and>
    kv_get L (store s1) = kv_get L (store s2) \<and>
    owner_of (lock_manager s1) = owner_of (lock_manager s2)"
proof -
  obtain ks st where e: "set ks = op_keys ops" "distinct ks" "kv_wf L st"
    "kv_get L st = snd (run_ops (kv_get L (store s)) ops)"
    "execute_with_distributed_support L J S X (\<lambda>_. quiet) tape ops tx s =
      (case acquire_each (\<lambda>k. acquire quiet k tx) ks (lock_manager s) of
         (False, lm) \<Rightarrow> (Returns [], tape, s\<lparr>lock_manager := release_all L tx lm\<rparr>)
       | (True, lm) \<Rightarrow> (Returns (fst (run_ops (kv_get L (store s)) ops)), tape,
           s\<lparr>store := st, lock_manager := release_all L tx lm\<rparr>))"
    by (rule execute_single [OF assms(1-4)])
  let ?ks = "key_order L (insert_keys [] ops)"
  obtain b lm where a: "acquire_each (\<lambda>k. acquire quiet k tx) ks (lock_manager s) = (b, lm)" by force
  obtain b' lm' where a': "acquire_each (\<lambda>k. acquire quiet k tx) ?ks (lock_manager s) = (b', lm')" by force
  have b: "b = can_lock (lock_manager s) tx ops" "b' = b"
    using acquire_each_can_lock [OF e(1), of tx "lock_manager s"]
      acquire_each_can_lock [of ?ks ops tx "lock_manager s"] a a' assms(2) by simp_all
  have own: "owner_of (release_all L tx lm') = owner_of (release_all L tx lm)"
    using quiet_growing_shrinking(2) [OF assms(5,2) a] quiet_growing_shrinking(2) [OF assms(5,2) a'] by auto
  obtain v where v: "visit_all X ops [] (make_executor X (store s)) =
      (Inr (fst (run_ops (kv_get L (store s)) ops)), v)"
      "kv_get L (exec_store v) = snd (run_ops (kv_get L (store s)) ops)"
    using visit_all_refines [OF assms(3), of "make_executor X (store s)" ops "[]"] assms(3,4) by auto
  have "execute_with_id L X (\<lambda>_. quiet) ops tx s =
      (if b then (Inr (fst (run_ops (kv_get L (store s)) ops), True),
                  s\<lparr>store := exec_store v, lock_manager := release_all L tx lm'\<rparr>)
       else (Inr ([], False), s\<lparr>lock_manager := release_all L tx lm'\<rparr>))"
    unfolding execute_with_id_def insert_keys_def [symmetric] using a' b v by (cases b) auto
  then show ?thesis
    unfolding b(1) [symmetric] using e(4,5) a own v by (cases b) auto
qed

theorem execute_with_id_equivalent_witness:
  "\<exists>s1 s2 rs. execute_with_id std_ref (executor_ref std_ref) (\<lambda>_. quiet) [AppendOp 5 1, ReadOp 5] 1 sched0 =
      (Inr (rs, True), s1) \<and>
    execute_with_distributed_support std_ref boost_ref server_up (executor_ref std_ref) (\<lambda>_. quiet) []
      [AppendOp 5 1, ReadOp 5] 1 sched0 = (Returns rs, [], s2)"
  using execute_with_id_equivalent [of sched0 std_ref "executor_ref std_ref" 1 "[AppendOp 5 1, ReadOp 5]"
      boost_ref server_up "[]"]
  by (auto simp: can_lock_def)

end
