(* ===== verification/Concurrent.thy ===== *)
theory Concurrent
  imports Single_Node
begin

text \<open>
  Concurrent execution of transactions on one node. \<open>Node::handleMessage\<close> runs every
  transaction on a thread pool, so any number of threads are inside
  \<open>execute_transaction\<close> at once. A thread is a small program whose steps are the
  critical sections of the code: the section under \<open>table_mutex\<close> that creates an
  entry, each check of the retry loops under the entry's mutex, one operation on the
  store under its stripe's mutex, the section under \<open>held_locks_mutex\<close> that takes the
  set of keys to release, and the release of one key. A step of the system is a new
  transaction or one step of any thread; there is no fairness and no assumption on
  the order. The system also keeps, as a history, the list of transactions that
  finished their execution phase, in that order.
\<close>

section \<open>Threads\<close>

datatype txn_end = Committed Results | Aborted | Failed exn

datatype phase =
    Locking "KeyType list"
  | Entering KeyType "KeyType list"
  | Retrying nat KeyType "KeyType list"
  | Executing "Operation list" "Operation list" Results
  | Finishing txn_end
  | Releasing "KeyType list" txn_end
  | Ended txn_end

record thread =
  tx_of :: TransactionId
  prog :: "Operation list"
  phase :: phase

type_synonym shared = "LockManager \<times> ThreadSafeKVStore"

text \<open>
  Check number \<open>n\<close> of \<open>acquire_with_wait_die\<close>: the first 1000 also accept a lock the
  caller already owns, after 1500 failed checks the acquisition is aborted.
\<close>

definition check :: "nat \<Rightarrow> KeyType \<Rightarrow> KeyType list \<Rightarrow> TransactionId \<Rightarrow> LockManager \<Rightarrow> LockManager \<times> phase" where
  "check n k ks tx lm =
     (if MAX_SPINS + MAX_YIELDS \<le> n then (lm, Finishing Aborted)
      else (case owner_of lm k of
          None \<Rightarrow> (set_owner k (Some tx) lm, Locking ks)
        | Some u \<Rightarrow>
            if n < MAX_SPINS \<and> u = tx then (lm, Locking ks) else (lm, Retrying (Suc n) k ks)))"

fun thread_step :: "stdlib \<Rightarrow> executor_api \<Rightarrow> shared \<Rightarrow> thread \<Rightarrow> (shared \<times> thread) option" where
  "thread_step L X (lm, st) t =
     (case phase t of
        Locking [] \<Rightarrow> Some ((lm, st), t\<lparr>phase := Executing [] (prog t) []\<rparr>)
      | Locking (k # ks) \<Rightarrow> Some ((ensure_entry k lm, st), t\<lparr>phase := Entering k ks\<rparr>)
      | Entering k ks \<Rightarrow>
          (case check 0 k ks (tx_of t) (track k (tx_of t) lm) of
             (lm', p) \<Rightarrow> Some ((lm', st), t\<lparr>phase := p\<rparr>))
      | Retrying n k ks \<Rightarrow>
          (case check n k ks (tx_of t) lm of (lm', p) \<Rightarrow> Some ((lm', st), t\<lparr>phase := p\<rparr>))
      | Executing done [] rs \<Rightarrow> Some ((lm, st), t\<lparr>phase := Finishing (Committed rs)\<rparr>)
      | Executing done (op # todo) rs \<Rightarrow>
          (case visit X op (make_executor X st) of
             (Inl e, v) \<Rightarrow> Some ((lm, exec_store v), t\<lparr>phase := Finishing (Failed e)\<rparr>)
           | (Inr rs', v) \<Rightarrow>
               Some ((lm, exec_store v), t\<lparr>phase := Executing (done @ [op]) todo (rs @ rs')\<rparr>))
      | Finishing r \<Rightarrow>
          (case held_locks lm (tx_of t) of
             None \<Rightarrow> Some ((lm, st), t\<lparr>phase := Releasing [] r\<rparr>)
           | Some ks \<Rightarrow>
               Some ((lm\<lparr>held_locks := (held_locks lm)(tx_of t := None)\<rparr>, st),
                     t\<lparr>phase := Releasing (key_order L ks) r\<rparr>))
      | Releasing (k # ks) r \<Rightarrow> Some ((release k (tx_of t) lm, st), t\<lparr>phase := Releasing ks r\<rparr>)
      | Releasing [] r \<Rightarrow> Some ((lm, st), t\<lparr>phase := Ended r\<rparr>)
      | Ended r \<Rightarrow> None)"

declare thread_step.simps [simp del]

section \<open>The system\<close>

record system =
  shared :: shared
  counter :: TransactionId
  threads :: "thread list"
  history :: "(nat \<times> Operation list \<times> Results) list"

definition init_system :: system where
  "init_system = \<lparr>shared = (init_lock_manager, empty_store), counter = 1, threads = [], history = []\<rparr>"

text \<open>The entry a step of thread \<open>i\<close> adds to the history: the end of an execution phase.\<close>

definition commit_entry :: "nat \<Rightarrow> thread \<Rightarrow> (nat \<times> Operation list \<times> Results) list" where
  "commit_entry i t = (case phase t of Executing done [] rs \<Rightarrow> [(i, prog t, rs)] | _ \<Rightarrow> [])"

inductive sys_step :: "stdlib \<Rightarrow> executor_api \<Rightarrow> system \<Rightarrow> system \<Rightarrow> bool" for L X where
  begin_txn:
    "set ks = op_keys ops \<Longrightarrow> distinct ks \<Longrightarrow>
     sys_step L X s (s\<lparr>counter := counter s + 1,
       threads := threads s @ [\<lparr>tx_of = counter s, prog = ops, phase = Locking ks\<rparr>]\<rparr>)"
| run_thread:
    "i < length (threads s) \<Longrightarrow> thread_step L X (shared s) (threads s ! i) = Some (g, t) \<Longrightarrow>
     sys_step L X s (s\<lparr>shared := g, threads := (threads s)[i := t],
       history := history s @ commit_entry i (threads s ! i)\<rparr>)"

inductive reachable :: "stdlib \<Rightarrow> executor_api \<Rightarrow> system \<Rightarrow> bool" for L X where
  start: "reachable L X init_system"
| step: "reachable L X s \<Longrightarrow> sys_step L X s s' \<Longrightarrow> reachable L X s'"

section \<open>Serial histories\<close>

text \<open>
  The state after running the transactions of a history one after the other, and
  whether each of them read what such a run reads.
\<close>

fun serial_state :: "kv_map \<Rightarrow> (nat \<times> Operation list \<times> Results) list \<Rightarrow> kv_map" where
  "serial_state m [] = m"
| "serial_state m ((i, ops, rs) # h) = serial_state (snd (run_ops m ops)) h"

fun serial :: "kv_map \<Rightarrow> (nat \<times> Operation list \<times> Results) list \<Rightarrow> bool" where
  "serial m [] = True"
| "serial m ((i, ops, rs) # h) = (rs = fst (run_ops m ops) \<and> serial (snd (run_ops m ops)) h)"

lemma serial_state_append: "serial_state m (h @ h') = serial_state (serial_state m h) h'"
  by (induction m h rule: serial_state.induct) auto

lemma serial_append: "serial m (h @ h') \<longleftrightarrow> serial m h \<and> serial (serial_state m h) h'"
  by (induction m h rule: serial.induct) auto

section \<open>Rely and guarantee for threads\<close>

text \<open>
  Threads with distinct names whose local invariants are kept by their own steps and
  by the steps of others keep all local invariants.
\<close>

locale named_threads =
  fixes step :: "'g \<Rightarrow> 't \<Rightarrow> ('g \<times> 't) option"
    and name :: "'t \<Rightarrow> 'n"
    and linv :: "'g \<Rightarrow> 't \<Rightarrow> bool"
  assumes own_step: "linv g t \<Longrightarrow> step g t = Some (g', t') \<Longrightarrow> linv g' t' \<and> name t' = name t"
    and other_step: "linv g t \<Longrightarrow> step g t = Some (g', t') \<Longrightarrow> linv g u \<Longrightarrow> name u \<noteq> name t \<Longrightarrow> linv g' u"
begin

lemma run_preserves:
  assumes "distinct (map name ts)" and "\<forall>j < length ts. linv g (ts ! j)"
    and "i < length ts" and "step g (ts ! i) = Some (g', t')"
  shows "map name (ts[i := t']) = map name ts \<and> (\<forall>j < length ts. linv g' (ts[i := t'] ! j))"
proof -
  have own: "linv g' t'" "name t' = name (ts ! i)"
    using own_step [OF _ assms(4)] assms(2,3) by auto
  have "linv g' (ts[i := t'] ! j)" if "j < length ts" for j
  proof (cases "j = i")
    case True
    with own assms(3) show ?thesis by simp
  next
    case False
    with that assms(1,3) have "name (ts ! j) \<noteq> name (ts ! i)"
      by (metis length_map nth_eq_iff_index_eq nth_map)
    with False that show ?thesis using other_step [OF _ assms(4)] assms(2,3) by simp
  qed
  moreover have "map name (ts[i := t']) = map name ts"
    using own(2) assms(3) by (simp add: map_update list_update_same_conv)
  ultimately show ?thesis by blast
qed

end

section \<open>The invariant of a thread\<close>

text \<open>The keys of a lock manager that belong to one transaction.\<close>

definition owned :: "LockManager \<Rightarrow> TransactionId \<Rightarrow> KeyType set" where
  "owned lm tx = {k. owner_of lm k = Some tx}"

definition tracked :: "LockManager \<Rightarrow> TransactionId \<Rightarrow> KeyType set" where
  "tracked lm tx = {k. holds_lock lm k tx}"

text \<open>
  What a thread knows of its locks in each phase: while it locks, it owns exactly the
  keys it is done with; while it executes, exactly the keys of its program; when it
  has ended, none.
\<close>

fun lock_phase :: "LockManager \<Rightarrow> TransactionId \<Rightarrow> KeyType set \<Rightarrow> phase \<Rightarrow> bool" where
  "lock_phase lm tx K (Locking ks) \<longleftrightarrow> distinct ks \<and> set ks \<subseteq> K \<and> owned lm tx = K - set ks"
| "lock_phase lm tx K (Entering k ks) \<longleftrightarrow>
     distinct (k # ks) \<and> set (k # ks) \<subseteq> K \<and> owned lm tx = K - set (k # ks) \<and> has_entry lm k"
| "lock_phase lm tx K (Retrying n k ks) \<longleftrightarrow>
     distinct (k # ks) \<and> set (k # ks) \<subseteq> K \<and> owned lm tx = K - set (k # ks) \<and>
     has_entry lm k \<and> k \<in> tracked lm tx"
| "lock_phase lm tx K (Executing done todo rs) \<longleftrightarrow> owned lm tx = K"
| "lock_phase lm tx K (Finishing r) \<longleftrightarrow> owned lm tx \<subseteq> K"
| "lock_phase lm tx K (Releasing ks r) \<longleftrightarrow> owned lm tx \<subseteq> set ks \<and> tracked lm tx = {}"
| "lock_phase lm tx K (Ended r) \<longleftrightarrow> owned lm tx = {} \<and> tracked lm tx = {}"

fun releasing :: "phase \<Rightarrow> bool" where
  "releasing (Releasing ks r) = True"
| "releasing (Ended r) = True"
| "releasing _ = False"

text \<open>The keys of a thread's program, and that it executes a prefix of its program.\<close>

definition prog_keys :: "thread \<Rightarrow> KeyType set" where
  "prog_keys t = op_keys (prog t)"

lemma prog_keys_phase [simp]: "prog_keys (t\<lparr>phase := p\<rparr>) = prog_keys t"
  by (simp add: prog_keys_def)

definition splits_prog :: "Operation list \<Rightarrow> phase \<Rightarrow> bool" where
  "splits_prog ops p = (case p of Executing done todo rs \<Rightarrow> ops = done @ todo | _ \<Rightarrow> True)"

definition thread_inv :: "shared \<Rightarrow> thread \<Rightarrow> bool" where
  "thread_inv g t \<longleftrightarrow>
     splits_prog (prog t) (phase t) \<and> lock_phase (fst g) (tx_of t) (prog_keys t) (phase t) \<and>
     (releasing (phase t) \<or> owned (fst g) (tx_of t) \<subseteq> tracked (fst g) (tx_of t))"

lemma leaves_owned:
  assumes "leaves u lm lm'"
  shows "owned lm' u = owned lm u" "tracked lm' u = tracked lm u"
  using leavesD [OF assms] by (auto simp: owned_def tracked_def)

lemma lock_phase_leaves:
  "lock_phase lm tx K p \<Longrightarrow> leaves tx lm lm' \<Longrightarrow> lock_phase lm' tx K p"
  using leaves_owned [of tx lm lm'] leavesD(3) [of tx lm lm'] by (cases p) auto

lemma thread_inv_leaves:
  "thread_inv (lm, st) t \<Longrightarrow> leaves (tx_of t) lm lm' \<Longrightarrow> thread_inv (lm', st') t"
  using leaves_owned [of "tx_of t" lm lm'] by (auto simp: thread_inv_def intro: lock_phase_leaves)

lemma owned_simps [simp]:
  "owned (ensure_entry k lm) = owned lm"
  "owned (track k u lm) = owned lm"
  "has_entry lm k \<Longrightarrow> owner_of lm k = None \<Longrightarrow> owned (set_owner k (Some tx) lm) tx = insert k (owned lm tx)"
  "owned (release k tx lm) tx = owned lm tx - {k}"
  "owned (lm\<lparr>held_locks := h\<rparr>) = owned lm"
  by (auto simp: owned_def fun_eq_iff)

lemma tracked_simps [simp]:
  "tracked (ensure_entry k lm) = tracked lm"
  "tracked (track k tx lm) tx = insert k (tracked lm tx)"
  "tracked (set_owner k x lm) = tracked lm"
  "tracked lm tx = {} \<Longrightarrow> tracked (release k tx lm) tx = {}"
  "tracked (lm\<lparr>held_locks := (held_locks lm)(tx := None)\<rparr>) tx = {}"
  by (auto simp: tracked_def fun_eq_iff) (simp add: holds_lock_def)

lemma tracked_held:
  "held_locks lm tx = None \<Longrightarrow> tracked lm tx = {}"
  "held_locks lm tx = Some ks \<Longrightarrow> tracked lm tx = set ks"
  by (simp_all add: tracked_def holds_lock_def)

subsection \<open>Own steps\<close>

lemma check_inv:
  assumes "check n k ks tx lm = (lm', p)" and "lock_phase lm tx K (Retrying n k ks)"
    and "owned lm tx \<subseteq> tracked lm tx"
  shows "lock_phase lm' tx K p \<and> \<not> releasing p \<and> owned lm' tx \<subseteq> tracked lm' tx \<and> splits_prog ops p"
proof (cases "owner_of lm k")
  case None
  with assms show ?thesis
    by (auto simp: check_def splits_prog_def split: if_splits)
next
  case (Some u)
  then have "u \<noteq> tx" using assms(2) by (auto simp: owned_def)
  with Some assms show ?thesis
    by (auto simp: check_def splits_prog_def split: if_splits)
qed

text \<open>The effect of a step, phase by phase.\<close>

lemma step_Locking:
  assumes "phase t = Locking ks" and "thread_inv (lm, st) t"
    and "thread_step L X (lm, st) t = Some (g, t')"
  shows "thread_inv g t'"
  using assms by (cases ks) (auto simp: thread_inv_def thread_step.simps splits_prog_def)

lemma step_Entering:
  assumes "phase t = Entering k ks" and "thread_inv (lm, st) t"
    and "thread_step L X (lm, st) t = Some (g, t')"
  shows "thread_inv g t'"
proof -
  obtain lm' p where c: "check 0 k ks (tx_of t) (track k (tx_of t) lm) = (lm', p)" by force
  have "lock_phase (track k (tx_of t) lm) (tx_of t) (prog_keys t) (Retrying 0 k ks)"
      "owned (track k (tx_of t) lm) (tx_of t) \<subseteq> tracked (track k (tx_of t) lm) (tx_of t)"
    using assms(1,2) by (auto simp: thread_inv_def)
  from check_inv [OF c this, of "prog t"] show ?thesis
    using assms c by (auto simp: thread_inv_def thread_step.simps)
qed

lemma step_Retrying:
  assumes "phase t = Retrying n k ks" and "thread_inv (lm, st) t"
    and "thread_step L X (lm, st) t = Some (g, t')"
  shows "thread_inv g t'"
proof -
  obtain lm' p where c: "check n k ks (tx_of t) lm = (lm', p)" by force
  have "lock_phase lm (tx_of t) (prog_keys t) (Retrying n k ks)" "owned lm (tx_of t) \<subseteq> tracked lm (tx_of t)"
    using assms(1,2) by (auto simp: thread_inv_def)
  from check_inv [OF c this, of "prog t"] show ?thesis
    using assms c by (auto simp: thread_inv_def thread_step.simps)
qed

lemma step_Executing:
  assumes "phase t = Executing d todo rs" and "thread_inv (lm, st) t"
    and "thread_step L X (lm, st) t = Some (g, t')"
  shows "thread_inv g t'"
  using assms
  by (cases todo) (auto simp: thread_inv_def thread_step.simps splits_prog_def split: prod.splits sum.splits)

lemma step_Finishing:
  assumes "phase t = Finishing r" and "thread_inv (lm, st) t"
    and "thread_step L X (lm, st) t = Some (g, t')" and "std_ok L"
  shows "thread_inv g t'"
  using assms
  by (auto simp: thread_inv_def thread_step.simps splits_prog_def tracked_held split: option.splits)

lemma step_Releasing:
  assumes "phase t = Releasing ks r" and "thread_inv (lm, st) t"
    and "thread_step L X (lm, st) t = Some (g, t')"
  shows "thread_inv g t'"
  using assms by (cases ks) (auto simp: thread_inv_def thread_step.simps splits_prog_def)

lemma thread_step_inv:
  assumes "std_ok L" and "thread_inv g t" and "thread_step L X g t = Some (g', t')"
  shows "thread_inv g' t'"
proof -
  obtain lm st where g: "g = (lm, st)" by (cases g)
  note inv = assms(2) [unfolded g] and st = assms(3) [unfolded g]
  show ?thesis
  proof (cases "phase t")
    case (Locking ks)
    then show ?thesis using inv st by (rule step_Locking)
  next
    case (Entering k ks)
    then show ?thesis using inv st by (rule step_Entering)
  next
    case (Retrying n k ks)
    then show ?thesis using inv st by (rule step_Retrying)
  next
    case (Executing d todo rs)
    then show ?thesis using inv st by (rule step_Executing)
  next
    case (Finishing r)
    then show ?thesis using inv st assms(1) by (rule step_Finishing)
  next
    case (Releasing ks r)
    then show ?thesis using inv st by (rule step_Releasing)
  next
    case (Ended r)
    then show ?thesis using st by (simp add: thread_step.simps)
  qed
qed

lemma thread_step_frame:
  assumes "thread_step L X g t = Some (g', t')"
  obtains p where "t' = t\<lparr>phase := p\<rparr>"
proof -
  obtain lm st where g: "g = (lm, st)" by (cases g)
  have "\<exists>p. t' = t\<lparr>phase := p\<rparr>"
  proof (cases "phase t")
    case (Locking ks)
    with assms g show ?thesis by (cases ks) (auto simp: thread_step.simps)
  next
    case (Executing d todo rs)
    with assms g show ?thesis
      by (cases todo) (auto simp: thread_step.simps split: prod.splits sum.splits)
  next
    case (Releasing ks r)
    with assms g show ?thesis by (cases ks) (auto simp: thread_step.simps)
  qed (use assms g in \<open>auto simp: thread_step.simps split: prod.splits option.splits\<close>)
  then show ?thesis using that by blast
qed

subsection \<open>Steps of others\<close>

lemma check_leaves: "u \<noteq> tx \<Longrightarrow> check n k ks tx lm = (lm', p) \<Longrightarrow> leaves u lm lm'"
  by (auto simp: check_def leaves_take split: if_splits option.splits)

lemma leaves_forget: "u \<noteq> tx \<Longrightarrow> leaves u lm (lm\<lparr>held_locks := (held_locks lm)(tx := None)\<rparr>)"
  by (simp add: leaves_def)

lemma thread_step_leaves:
  assumes "thread_step L X (lm, st) t = Some ((lm', st'), t')" and "u \<noteq> tx_of t"
  shows "leaves u lm lm'"
proof (cases "phase t")
  case (Locking ks)
  with assms show ?thesis by (cases ks) (auto simp: thread_step.simps leaves_elementary)
next
  case (Entering k ks)
  with assms have "leaves u (track k (tx_of t) lm) lm'"
    by (auto simp: thread_step.simps split: prod.splits dest: check_leaves)
  with leaves_elementary(2) [OF assms(2)] show ?thesis by (rule leaves_trans)
next
  case (Retrying n k ks)
  with assms show ?thesis by (auto simp: thread_step.simps split: prod.splits dest: check_leaves)
next
  case (Executing d todo rs)
  with assms show ?thesis
    by (cases todo) (auto simp: thread_step.simps split: prod.splits sum.splits)
next
  case (Finishing r)
  with assms show ?thesis
    by (auto simp: thread_step.simps leaves_forget split: option.splits)
next
  case (Releasing ks r)
  with assms show ?thesis by (cases ks) (auto simp: thread_step.simps leaves_elementary)
next
  case (Ended r)
  with assms show ?thesis by (simp add: thread_step.simps)
qed

section \<open>The invariant of the system\<close>

text \<open>Thread names, local invariants, and that unused transaction ids hold nothing.\<close>

definition locks_inv :: "system \<Rightarrow> bool" where
  "locks_inv s \<longleftrightarrow>
     counter s = word_of_nat (Suc (length (threads s))) \<and>
     map tx_of (threads s) = map (\<lambda>i. word_of_nat (Suc i)) [0..<length (threads s)] \<and>
     (\<forall>i < length (threads s). thread_inv (shared s) (threads s ! i)) \<and>
     (\<forall>u. u \<notin> tx_of ` set (threads s) \<longrightarrow>
        owned (fst (shared s)) u = {} \<and> tracked (fst (shared s)) u = {})"

lemma word_of_nat_Suc_inj:
  assumes "i < 2 ^ 64" and "j < 2 ^ 64" and "(word_of_nat (Suc i) :: 64 word) = word_of_nat (Suc j)"
  shows "i = j"
proof -
  have "(word_of_nat i :: 64 word) = word_of_nat j" using assms(3) by simp
  then have "unat (word_of_nat i :: 64 word) = unat (word_of_nat j :: 64 word)" by (rule arg_cong)
  then have "i mod 2 ^ 64 = j mod 2 ^ 64" by (simp only: unat_of_nat len_bit0 len_num1) simp
  with assms(1,2) show ?thesis by simp
qed

lemma locks_inv_names:
  assumes "locks_inv s" and "length (threads s) \<le> 2 ^ 64"
  shows "distinct (map tx_of (threads s))"
proof -
  have "inj_on (\<lambda>i. word_of_nat (Suc i) :: TransactionId) {0..<length (threads s)}"
    using assms(2) by (intro inj_onI word_of_nat_Suc_inj) auto
  with assms(1) show ?thesis by (simp add: locks_inv_def distinct_map)
qed

lemma locks_inv_fresh:
  assumes "locks_inv s" and "length (threads s) < 2 ^ 64"
  shows "counter s \<notin> tx_of ` set (threads s)"
proof
  assume "counter s \<in> tx_of ` set (threads s)"
  then have "counter s \<in> set (map tx_of (threads s))" by simp
  then obtain i where "i < length (threads s)" "counter s = word_of_nat (Suc i)"
    using assms(1) unfolding locks_inv_def by auto
  then show False
    using assms word_of_nat_Suc_inj [of "length (threads s)" i] by (auto simp: locks_inv_def)
qed

lemma held_init [simp]: "held_locks init_lock_manager u = None"
  by (simp add: init_lock_manager_def)

lemma locks_inv_init: "locks_inv init_system"
  by (simp add: locks_inv_def init_system_def owned_def tracked_def holds_lock_def)

lemma thread_inv_new:
  "set ks = op_keys ops \<Longrightarrow> distinct ks \<Longrightarrow> owned (fst g) u = {} \<Longrightarrow>
   thread_inv g \<lparr>tx_of = u, prog = ops, phase = Locking ks\<rparr>"
  by (simp add: thread_inv_def splits_prog_def prog_keys_def)

lemma locks_inv_begin:
  assumes "locks_inv s" and "length (threads s) < 2 ^ 64" and "set ks = op_keys ops" and "distinct ks"
  shows "locks_inv (s\<lparr>counter := counter s + 1,
       threads := threads s @ [\<lparr>tx_of = counter s, prog = ops, phase = Locking ks\<rparr>]\<rparr>)"
proof -
  let ?t = "\<lparr>tx_of = counter s, prog = ops, phase = Locking ks\<rparr>"
  have "owned (fst (shared s)) (counter s) = {}"
    using assms(1) locks_inv_fresh [OF assms(1,2)] by (simp add: locks_inv_def)
  then have new: "thread_inv (shared s) ?t" using thread_inv_new [OF assms(3,4)] by blast
  have "thread_inv (shared s) ((threads s @ [?t]) ! i)" if "i < Suc (length (threads s))" for i
    using that new assms(1) by (cases "i < length (threads s)") (auto simp: locks_inv_def nth_append less_Suc_eq)
  then show ?thesis using assms(1) by (auto simp: locks_inv_def)
qed

text \<open>The threads satisfy the rely-guarantee contract.\<close>

lemma thread_step_other:
  assumes "thread_step L X g t = Some (g', t')" and "thread_inv g u" and "tx_of u \<noteq> tx_of t"
  shows "thread_inv g' u"
proof -
  obtain lm st lm' st' where g: "g = (lm, st)" "g' = (lm', st')" by (cases g, cases g')
  have "leaves (tx_of u) lm lm'" using thread_step_leaves assms g by blast
  with assms(2) g show ?thesis using thread_inv_leaves by blast
qed

locale transaction_threads =
  fixes L :: stdlib and X :: executor_api
  assumes std: "std_ok L" and exec: "executor_ok L X"

sublocale transaction_threads \<subseteq> named_threads "thread_step L X" tx_of thread_inv
proof
  fix g t g' t'
  assume inv: "thread_inv g t" and st: "thread_step L X g t = Some (g', t')"
  obtain p where "t' = t\<lparr>phase := p\<rparr>" by (rule thread_step_frame [OF st])
  then show "thread_inv g' t' \<and> tx_of t' = tx_of t"
    using thread_step_inv [OF std inv st] by simp
  show "thread_inv g' u" if "thread_inv g u" "tx_of u \<noteq> tx_of t" for u
    using thread_step_other [OF st that] .
qed

interpretation ref_threads: transaction_threads std_ref "executor_ref std_ref"
  by unfold_locales simp_all

lemma unused_step:
  assumes "thread_step L X g t = Some (g', t')" and "u \<noteq> tx_of t"
  shows "owned (fst g') u = owned (fst g) u" "tracked (fst g') u = tracked (fst g) u"
proof -
  obtain lm st lm' st' where g: "g = (lm, st)" "g' = (lm', st')" by (cases g, cases g')
  have "leaves u lm lm'" using thread_step_leaves assms g by blast
  with g show "owned (fst g') u = owned (fst g) u" "tracked (fst g') u = tracked (fst g) u"
    by (simp_all add: leaves_owned)
qed

context transaction_threads
begin

lemma locks_inv_run:
  assumes "locks_inv s" and "length (threads s) \<le> 2 ^ 64" and i: "i < length (threads s)"
    and st: "thread_step L X (shared s) (threads s ! i) = Some (g, t)"
  shows "locks_inv (s\<lparr>shared := g, threads := (threads s)[i := t], history := h\<rparr>)"
proof -
  have inv: "\<forall>j < length (threads s). thread_inv (shared s) (threads s ! j)"
    using assms(1) by (simp add: locks_inv_def)
  note * = run_preserves [OF locks_inv_names [OF assms(1,2)] inv i st]
  have names: "tx_of ` set ((threads s)[i := t]) = tx_of ` set (threads s)"
    using * by (metis list.set_map)
  have "owned (fst g) u = {} \<and> tracked (fst g) u = {}" if "u \<notin> tx_of ` set (threads s)" for u
  proof -
    have "u \<noteq> tx_of (threads s ! i)" using that i by auto
    with that assms(1) show ?thesis using unused_step [OF st] by (simp add: locks_inv_def)
  qed
  with * names assms(1) show ?thesis by (simp add: locks_inv_def)
qed

end

section \<open>Data\<close>

text \<open>
  A key is in use while a thread executes on it. An executing thread has computed what
  the reference semantics computes from the state after the history, and its keys
  hold the values it left; all other keys hold the state after the history.
\<close>

definition in_use :: "thread \<Rightarrow> KeyType \<Rightarrow> bool" where
  "in_use t k = (case phase t of Executing done todo rs \<Rightarrow> k \<in> prog_keys t | _ \<Rightarrow> False)"

definition view_inv :: "kv_map \<Rightarrow> kv_map \<Rightarrow> thread \<Rightarrow> bool" where
  "view_inv M kv t =
     (case phase t of
        Executing done todo rs \<Rightarrow>
          rs = fst (run_ops M done) \<and> (\<forall>k \<in> prog_keys t. kv k = snd (run_ops M done) k)
      | _ \<Rightarrow> True)"

definition data_inv :: "kv_map \<Rightarrow> kv_map \<Rightarrow> thread list \<Rightarrow> bool" where
  "data_inv M kv ts \<longleftrightarrow>
     (\<forall>i < length ts. view_inv M kv (ts ! i)) \<and>
     (\<forall>k. (\<forall>i < length ts. \<not> in_use (ts ! i) k) \<longrightarrow> kv k = M k)"

definition executing :: "phase \<Rightarrow> bool" where
  "executing p = (case p of Executing done todo rs \<Rightarrow> True | _ \<Rightarrow> False)"

lemma in_use_owned: "thread_inv g t \<Longrightarrow> in_use t k \<Longrightarrow> owner_of (fst g) k = Some (tx_of t)"
  by (auto simp: in_use_def thread_inv_def owned_def split: phase.splits)

lemma in_use_exclusive:
  assumes "locks_inv s" and "length (threads s) \<le> 2 ^ 64" and "i < length (threads s)" "j < length (threads s)"
    and "in_use (threads s ! i) k" and "in_use (threads s ! j) k"
  shows "i = j"
proof -
  have "owner_of (fst (shared s)) k = Some (tx_of (threads s ! i))"
      "owner_of (fst (shared s)) k = Some (tx_of (threads s ! j))"
    using assms in_use_owned by (auto simp: locks_inv_def)
  then have "map tx_of (threads s) ! i = map tx_of (threads s) ! j" using assms(3,4) by simp
  with locks_inv_names [OF assms(1,2)] assms(3,4) show ?thesis
    by (metis length_map nth_eq_iff_index_eq)
qed

lemma data_inv_update:
  assumes "data_inv M kv ts" and "i < length ts" and "view_inv M' kv' t"
    and "\<And>j. j < length ts \<Longrightarrow> j \<noteq> i \<Longrightarrow> view_inv M kv (ts ! j) \<Longrightarrow> view_inv M' kv' (ts ! j)"
    and "\<And>k. \<not> in_use t k \<Longrightarrow> (\<And>j. j < length ts \<Longrightarrow> j \<noteq> i \<Longrightarrow> \<not> in_use (ts ! j) k) \<Longrightarrow> kv' k = M' k"
  shows "data_inv M' kv' (ts[i := t])"
  unfolding data_inv_def
proof (intro conjI allI impI)
  fix j
  assume "j < length (ts[i := t])"
  then show "view_inv M' kv' (ts[i := t] ! j)"
    using assms(1-4) by (cases "j = i") (auto simp: data_inv_def)
next
  fix k
  assume k: "\<forall>j < length (ts[i := t]). \<not> in_use (ts[i := t] ! j) k"
  show "kv' k = M' k"
  proof (rule assms(5))
    show "\<not> in_use t k" using k [rule_format, of i] assms(2) by simp
    show "\<not> in_use (ts ! j) k" if "j < length ts" "j \<noteq> i" for j
      using k [rule_format, of j] that by simp
  qed
qed

lemma not_executing:
  assumes "\<not> executing (phase t)"
  shows "\<not> in_use t k" "view_inv M kv t"
  using assms by (auto simp: executing_def in_use_def view_inv_def split: phase.splits)

lemma data_inv_free:
  "data_inv M kv ts \<Longrightarrow> (\<And>j. j < length ts \<Longrightarrow> \<not> in_use (ts ! j) k) \<Longrightarrow> kv k = M k"
  by (simp add: data_inv_def)

text \<open>Steps outside the execution phase.\<close>

lemma data_inv_idle:
  assumes "data_inv M kv ts" and "i < length ts" and "\<not> executing (phase (ts ! i))" and "\<not> executing (phase t)"
  shows "data_inv M kv (ts[i := t])"
proof (rule data_inv_update [OF assms(1,2)])
  show "kv k = M k" if "\<And>j. j < length ts \<Longrightarrow> j \<noteq> i \<Longrightarrow> \<not> in_use (ts ! j) k" for k
    using that not_executing(1) [OF assms(3)] by (intro data_inv_free [OF assms(1)]) metis
qed (use not_executing(2) [OF assms(4)] in simp_all)

lemma data_inv_new:
  assumes "data_inv M kv ts" and "\<not> executing (phase t)"
  shows "data_inv M kv (ts @ [t])"
  using assms(1) not_executing [OF assms(2)]
  by (fastforce simp: data_inv_def nth_append less_Suc_eq)

text \<open>Entering the execution phase, with no other thread on the same keys.\<close>

lemma data_inv_enter:
  assumes "data_inv M kv ts" and "i < length ts" and "\<not> executing (phase (ts ! i))"
    and "phase t = Executing [] todo []" and "prog_keys t = prog_keys (ts ! i)"
    and "\<And>j k. j < length ts \<Longrightarrow> k \<in> prog_keys t \<Longrightarrow> \<not> in_use (ts ! j) k"
  shows "data_inv M kv (ts[i := t])"
proof (rule data_inv_update [OF assms(1,2)])
  have "kv k = M k" if "k \<in> prog_keys t" for k
    using that assms(6) by (intro data_inv_free [OF assms(1)])
  then show "view_inv M kv t" using assms(4) by (simp add: view_inv_def)
  show "kv k = M k" if "\<And>j. j < length ts \<Longrightarrow> j \<noteq> i \<Longrightarrow> \<not> in_use (ts ! j) k" for k
    using that not_executing(1) [OF assms(3)] by (intro data_inv_free [OF assms(1)]) metis
qed

text \<open>One operation of an executing thread.\<close>

lemma data_inv_execute:
  assumes "data_inv M kv ts" and i: "i < length ts"
    and ph: "phase (ts ! i) = Executing d (op # todo) rs" and op: "op_key op \<in> prog_keys (ts ! i)"
    and excl: "\<And>j k. j < length ts \<Longrightarrow> j \<noteq> i \<Longrightarrow> k \<in> prog_keys (ts ! i) \<Longrightarrow> \<not> in_use (ts ! j) k"
  shows "data_inv M (op_write kv op)
    (ts[i := (ts ! i)\<lparr>phase := Executing (d @ [op]) todo (rs @ op_read kv op)\<rparr>])"
proof (rule data_inv_update [OF assms(1,2)])
  have v: "rs = fst (run_ops M d)" "\<And>k. k \<in> prog_keys (ts ! i) \<Longrightarrow> kv k = snd (run_ops M d) k"
    using assms(1) i ph by (auto simp: data_inv_def view_inv_def)
  have "op_read kv op = op_read (snd (run_ops M d)) op" using v(2) [OF op] by (rule op_read_cong)
  moreover have "op_write kv op k = op_write (snd (run_ops M d)) op k" if "k \<in> prog_keys (ts ! i)" for k
    using that v(2) op by (intro op_write_agree)
  ultimately show "view_inv M (op_write kv op)
      ((ts ! i)\<lparr>phase := Executing (d @ [op]) todo (rs @ op_read kv op)\<rparr>)"
    using v(1) by (simp add: view_inv_def run_ops_snoc)
  show "view_inv M (op_write kv op) (ts ! j)" if j: "j < length ts" "j \<noteq> i" "view_inv M kv (ts ! j)" for j
    using j(3) excl [OF j(1,2) op]
    by (auto simp: view_inv_def in_use_def split: phase.splits intro!: op_write_other [THEN trans])
  fix k
  assume k: "\<not> in_use ((ts ! i)\<lparr>phase := Executing (d @ [op]) todo (rs @ op_read kv op)\<rparr>) k"
    "\<And>j. j < length ts \<Longrightarrow> j \<noteq> i \<Longrightarrow> \<not> in_use (ts ! j) k"
  then have "k \<notin> prog_keys (ts ! i)" by (simp add: in_use_def)
  then have "k \<noteq> op_key op" "\<not> in_use (ts ! i) k" using op ph by (auto simp: in_use_def)
  then show "op_write kv op k = M k"
    using k(2) by (metis op_write_other data_inv_free [OF assms(1)])
qed

text \<open>The end of an execution phase extends the history.\<close>

lemma data_inv_commit:
  assumes "data_inv M kv ts" and i: "i < length ts"
    and ph: "phase (ts ! i) = Executing d [] rs"
    and sp: "\<And>j. j < length ts \<Longrightarrow> splits_prog (prog (ts ! j)) (phase (ts ! j))"
    and excl: "\<And>j k. j < length ts \<Longrightarrow> j \<noteq> i \<Longrightarrow> k \<in> prog_keys (ts ! i) \<Longrightarrow> \<not> in_use (ts ! j) k"
  shows "data_inv (snd (run_ops M d)) kv (ts[i := (ts ! i)\<lparr>phase := Finishing r\<rparr>])" and "rs = fst (run_ops M d)"
proof -
  let ?M = "snd (run_ops M d)"
  have v: "rs = fst (run_ops M d)" "\<And>k. k \<in> prog_keys (ts ! i) \<Longrightarrow> kv k = ?M k"
    using assms(1) i ph by (auto simp: data_inv_def view_inv_def)
  then show "rs = fst (run_ops M d)" by blast
  have same: "?M k = M k" if "k \<notin> prog_keys (ts ! i)" for k
    using that sp [OF i] ph by (intro run_ops_other) (simp add: prog_keys_def splits_prog_def)
  show "data_inv ?M kv (ts[i := (ts ! i)\<lparr>phase := Finishing r\<rparr>])"
  proof (rule data_inv_update [OF assms(1,2)])
    show "view_inv ?M kv ((ts ! i)\<lparr>phase := Finishing r\<rparr>)" by (simp add: view_inv_def)
    show "view_inv ?M kv (ts ! j)" if j: "j < length ts" "j \<noteq> i" "view_inv M kv (ts ! j)" for j
    proof (cases "phase (ts ! j)")
      case (Executing d' todo rs')
      have "k \<notin> prog_keys (ts ! i)" if "k \<in> prog_keys (ts ! j)" for k
        using excl [OF j(1,2)] that Executing by (auto simp: in_use_def)
      then have "\<And>k. k \<in> prog_keys (ts ! j) \<Longrightarrow> M k = ?M k" by (simp add: same)
      moreover have "op_keys d' \<subseteq> prog_keys (ts ! j)"
        using sp [OF j(1)] Executing by (auto simp: splits_prog_def prog_keys_def)
      ultimately have "fst (run_ops M d') = fst (run_ops ?M d') \<and>
          (\<forall>k \<in> prog_keys (ts ! j). snd (run_ops M d') k = snd (run_ops ?M d') k)"
        by (rule run_ops_agree)
      with j(3) Executing show ?thesis by (simp add: view_inv_def)
    qed (simp_all add: view_inv_def)
    fix k
    assume k: "\<And>j. j < length ts \<Longrightarrow> j \<noteq> i \<Longrightarrow> \<not> in_use (ts ! j) k"
    show "kv k = ?M k"
    proof (cases "k \<in> prog_keys (ts ! i)")
      case True
      then show ?thesis by (rule v(2))
    next
      case False
      then have "\<not> in_use (ts ! i) k" using ph by (simp add: in_use_def)
      with k have "kv k = M k" by (metis data_inv_free [OF assms(1)])
      with same [OF False] show ?thesis by simp
    qed
  qed
qed

section \<open>Reachable states\<close>

text \<open>How a thread's transaction ended, once its execution phase is over.\<close>

definition result_of :: "thread \<Rightarrow> txn_end option" where
  "result_of t =
     (case phase t of
        Finishing r \<Rightarrow> Some r | Releasing ks r \<Rightarrow> Some r | Ended r \<Rightarrow> Some r | _ \<Rightarrow> None)"

text \<open>The history lists every transaction that committed, once, with what it returns.\<close>

definition history_inv :: "(nat \<times> Operation list \<times> Results) list \<Rightarrow> thread list \<Rightarrow> bool" where
  "history_inv h ts \<longleftrightarrow>
     distinct (map fst h) \<and>
     (\<forall>i ops rs. (i, ops, rs) \<in> set h \<longleftrightarrow>
        i < length ts \<and> prog (ts ! i) = ops \<and> result_of (ts ! i) = Some (Committed rs)) \<and>
     (\<forall>i < length ts. \<forall>e. result_of (ts ! i) \<noteq> Some (Failed e))"

definition sys_inv :: "stdlib \<Rightarrow> system \<Rightarrow> bool" where
  "sys_inv L s \<longleftrightarrow>
     locks_inv s \<and> kv_wf L (snd (shared s)) \<and>
     data_inv (serial_state Map.empty (history s)) (kv_get L (snd (shared s))) (threads s) \<and>
     serial Map.empty (history s) \<and> history_inv (history s) (threads s)"

lemma sys_inv_init: "sys_inv L init_system"
  by (simp add: sys_inv_def locks_inv_init)
     (simp add: init_system_def data_inv_def history_inv_def)

lemma history_inv_new:
  assumes "history_inv h ts" and "result_of t = None"
  shows "history_inv h (ts @ [t])"
  using assms by (auto simp: history_inv_def nth_append less_Suc_eq)

lemma history_inv_step:
  assumes "history_inv h ts" and "i < length ts" and "prog t = prog (ts ! i)" and "result_of t = result_of (ts ! i)"
  shows "history_inv h (ts[i := t])"
  using assms by (auto simp: history_inv_def nth_list_update)

lemma history_inv_commit:
  assumes "history_inv h ts" and "i < length ts" and "result_of (ts ! i) = None"
    and "prog t = prog (ts ! i)" and "result_of t = Some (Committed rs)"
  shows "history_inv (h @ [(i, prog (ts ! i), rs)]) (ts[i := t])"
  using assms by (auto simp: history_inv_def nth_list_update)

lemma history_inv_abort:
  assumes "history_inv h ts" and "i < length ts" and "result_of (ts ! i) = None"
    and "prog t = prog (ts ! i)" and "result_of t = Some Aborted"
  shows "history_inv h (ts[i := t])"
  using assms by (auto simp: history_inv_def nth_list_update)

text \<open>
  The kinds of steps, as the data sees them: a thread enters its execution phase,
  executes an operation, commits, aborts, or does something else.
\<close>

inductive data_step :: "stdlib \<Rightarrow> ThreadSafeKVStore \<Rightarrow> thread \<Rightarrow> ThreadSafeKVStore \<Rightarrow> thread \<Rightarrow> bool" for L st t where
  enter: "phase t = Locking [] \<Longrightarrow> data_step L st t st (t\<lparr>phase := Executing [] (prog t) []\<rparr>)"
| execute: "phase t = Executing d (op # todo) rs \<Longrightarrow> kv_wf L st' \<Longrightarrow>
     kv_get L st' = op_write (kv_get L st) op \<Longrightarrow>
     data_step L st t st' (t\<lparr>phase := Executing (d @ [op]) todo (rs @ op_read (kv_get L st) op)\<rparr>)"
| commit: "phase t = Executing d [] rs \<Longrightarrow> data_step L st t st (t\<lparr>phase := Finishing (Committed rs)\<rparr>)"
| abort: "\<not> executing (phase t) \<Longrightarrow> result_of t = None \<Longrightarrow> data_step L st t st (t\<lparr>phase := Finishing Aborted\<rparr>)"
| idle: "\<not> executing (phase t) \<Longrightarrow> \<not> executing p \<Longrightarrow> result_of (t\<lparr>phase := p\<rparr>) = result_of t \<Longrightarrow>
     data_step L st t st (t\<lparr>phase := p\<rparr>)"

lemma check_data_step:
  assumes "check n k ks tx lm = (lm', p)" and "\<not> executing (phase t)" and "result_of t = None"
  shows "data_step L st t st (t\<lparr>phase := p\<rparr>)"
proof -
  have "p = Finishing Aborted \<or> \<not> executing p \<and> result_of (t\<lparr>phase := p\<rparr>) = None"
    using assms(1) by (auto simp: check_def executing_def result_of_def split: if_splits option.splits)
  with assms(2,3) show ?thesis by (auto intro: abort idle)
qed

lemma visit_data_step:
  assumes "executor_ok L X" and "kv_wf L st" and "phase t = Executing d (op # todo) rs"
    and "thread_step L X (lm, st) t = Some ((lm', st'), t')"
  shows "data_step L st t st' t'"
proof -
  have st: "exec_store (make_executor X st) = st" using assms(1) by simp
  obtain v where "visit X op (make_executor X st) = (Inr (op_read (kv_get L st) op), v)"
      "kv_wf L (exec_store v)" "kv_get L (exec_store v) = op_write (kv_get L st) op"
    using visit_refines [OF assms(1), of "make_executor X st" op] assms(2) unfolding st by blast
  with assms(3,4) show ?thesis by (auto simp: thread_step.simps intro: execute)
qed

lemma thread_step_data:
  assumes "executor_ok L X" and "kv_wf L st" and step: "thread_step L X (lm, st) t = Some ((lm', st'), t')"
  shows "data_step L st t st' t'"
proof (cases "phase t")
  case (Locking ks)
  with step show ?thesis
    by (cases ks) (auto simp: thread_step.simps executing_def result_of_def intro: enter idle)
next
  case (Executing d todo rs)
  with step show ?thesis
    by (cases todo) (auto simp: thread_step.simps intro: commit visit_data_step [OF assms(1,2)])
next
  case (Finishing r)
  with step show ?thesis
    by (auto simp: thread_step.simps executing_def result_of_def split: option.splits intro: idle)
next
  case (Releasing ks r)
  with step show ?thesis
    by (cases ks) (auto simp: thread_step.simps executing_def result_of_def intro: idle)
qed (use step in \<open>auto simp: thread_step.simps executing_def result_of_def split: prod.splits
       intro: check_data_step\<close>)

lemma commit_entry_simps [simp]:
  "\<not> executing (phase t) \<Longrightarrow> commit_entry i t = []"
  "phase t = Executing d (op # todo) rs \<Longrightarrow> commit_entry i t = []"
  "phase t = Executing d [] rs \<Longrightarrow> commit_entry i t = [(i, prog t, rs)]"
  by (auto simp: commit_entry_def executing_def split: phase.splits)

lemma owner_exclusive:
  assumes "locks_inv s" and "length (threads s) \<le> 2 ^ 64" and "i < length (threads s)" "j < length (threads s)"
    and "j \<noteq> i" and "owner_of (fst (shared s)) k = Some (tx_of (threads s ! i))"
  shows "\<not> in_use (threads s ! j) k"
proof
  assume "in_use (threads s ! j) k"
  then have "owner_of (fst (shared s)) k = Some (tx_of (threads s ! j))"
    using assms(1,4) in_use_owned by (auto simp: locks_inv_def)
  then have "map tx_of (threads s) ! i = map tx_of (threads s) ! j" using assms(3,4,6) by simp
  with locks_inv_names [OF assms(1,2)] assms(3-5) show False
    by (metis length_map nth_eq_iff_index_eq)
qed

text \<open>
  The part of the invariant about the data, for one kind of step at a time. \<open>excl\<close>: no
  other thread executes on a key the stepping thread owns.
\<close>

definition store_inv :: "stdlib \<Rightarrow> ThreadSafeKVStore \<Rightarrow> thread list \<Rightarrow> (nat \<times> Operation list \<times> Results) list \<Rightarrow> bool" where
  "store_inv L st ts h \<longleftrightarrow>
     kv_wf L st \<and> data_inv (serial_state Map.empty h) (kv_get L st) ts \<and> serial Map.empty h \<and> history_inv h ts"

lemma sys_inv_split: "sys_inv L s \<longleftrightarrow> locks_inv s \<and> store_inv L (snd (shared s)) (threads s) (history s)"
  by (auto simp: sys_inv_def store_inv_def)

lemma store_inv_idle:
  assumes "store_inv L st ts h" and "i < length ts" and "\<not> executing (phase (ts ! i))" and "\<not> executing (phase t)"
    and "prog t = prog (ts ! i)"
    and "result_of t = result_of (ts ! i) \<or> result_of (ts ! i) = None \<and> result_of t = Some Aborted"
  shows "store_inv L st (ts[i := t]) (h @ commit_entry i (ts ! i))"
  using assms data_inv_idle [OF _ assms(2-4)] history_inv_step [OF _ assms(2,5)]
    history_inv_abort [OF _ assms(2) _ assms(5)]
  by (auto simp: store_inv_def)

lemma store_inv_enter:
  assumes "store_inv L st ts h" and i: "i < length ts" and ph: "phase (ts ! i) = Locking []"
    and excl: "\<And>j k. j < length ts \<Longrightarrow> j \<noteq> i \<Longrightarrow> k \<in> prog_keys (ts ! i) \<Longrightarrow> \<not> in_use (ts ! j) k"
  shows "store_inv L st (ts[i := (ts ! i)\<lparr>phase := Executing [] (prog (ts ! i)) []\<rparr>]) (h @ commit_entry i (ts ! i))"
proof -
  let ?t = "(ts ! i)\<lparr>phase := Executing [] (prog (ts ! i)) []\<rparr>"
  have idle: "\<not> executing (phase (ts ! i))" using ph by (simp add: executing_def)
  have "\<not> in_use (ts ! j) k" if "j < length ts" "k \<in> prog_keys (ts ! i)" for j k
    using that excl not_executing(1) [OF idle] by (cases "j = i") auto
  then have "data_inv (serial_state Map.empty h) (kv_get L st) (ts[i := ?t])"
    using assms(1) idle by (intro data_inv_enter [OF _ i]) (simp_all add: store_inv_def)
  moreover have "history_inv h (ts[i := ?t])"
    using assms(1) ph by (intro history_inv_step [OF _ i]) (simp_all add: store_inv_def result_of_def)
  ultimately show ?thesis using assms(1) idle by (simp add: store_inv_def)
qed

lemma store_inv_execute:
  assumes "store_inv L st ts h" and i: "i < length ts" and ph: "phase (ts ! i) = Executing d (op # todo) rs"
    and "kv_wf L st'" and kv: "kv_get L st' = op_write (kv_get L st) op" and "op_key op \<in> prog_keys (ts ! i)"
    and excl: "\<And>j k. j < length ts \<Longrightarrow> j \<noteq> i \<Longrightarrow> k \<in> prog_keys (ts ! i) \<Longrightarrow> \<not> in_use (ts ! j) k"
  shows "store_inv L st' (ts[i := (ts ! i)\<lparr>phase := Executing (d @ [op]) todo (rs @ op_read (kv_get L st) op)\<rparr>])
    (h @ commit_entry i (ts ! i))"
proof -
  let ?t = "(ts ! i)\<lparr>phase := Executing (d @ [op]) todo (rs @ op_read (kv_get L st) op)\<rparr>"
  have "data_inv (serial_state Map.empty h) (kv_get L st') (ts[i := ?t])"
    unfolding kv using assms(1,6) excl by (intro data_inv_execute [OF _ i ph]) (auto simp: store_inv_def)
  moreover have "history_inv h (ts[i := ?t])"
    using assms(1) ph by (intro history_inv_step [OF _ i]) (simp_all add: store_inv_def result_of_def)
  ultimately show ?thesis using assms(1,4) ph by (simp add: store_inv_def)
qed

lemma store_inv_commit:
  assumes "store_inv L st ts h" and i: "i < length ts" and ph: "phase (ts ! i) = Executing d [] rs"
    and sp: "\<And>j. j < length ts \<Longrightarrow> splits_prog (prog (ts ! j)) (phase (ts ! j))"
    and excl: "\<And>j k. j < length ts \<Longrightarrow> j \<noteq> i \<Longrightarrow> k \<in> prog_keys (ts ! i) \<Longrightarrow> \<not> in_use (ts ! j) k"
  shows "store_inv L st (ts[i := (ts ! i)\<lparr>phase := Finishing (Committed rs)\<rparr>]) (h @ commit_entry i (ts ! i))"
proof -
  let ?t = "(ts ! i)\<lparr>phase := Finishing (Committed rs)\<rparr>" and ?M = "serial_state Map.empty h"
  have d: "prog (ts ! i) = d" using sp [OF i] ph by (simp add: splits_prog_def)
  have inv: "data_inv ?M (kv_get L st) ts" "serial Map.empty h" "history_inv h ts" "kv_wf L st"
    using assms(1) by (simp_all add: store_inv_def)
  note data = data_inv_commit [OF inv(1) i ph sp excl]
  have "history_inv (h @ [(i, prog (ts ! i), rs)]) (ts[i := ?t])"
    using ph by (intro history_inv_commit [OF inv(3) i]) (simp_all add: result_of_def)
  with data inv ph d show ?thesis by (simp add: store_inv_def serial_append serial_state_append)
qed

lemma store_inv_step:
  assumes "store_inv L st ts h" and i: "i < length ts" and "data_step L st (ts ! i) st' t"
    and sp: "\<And>j. j < length ts \<Longrightarrow> splits_prog (prog (ts ! j)) (phase (ts ! j))"
    and own: "phase (ts ! i) = Locking [] \<or> executing (phase (ts ! i)) \<Longrightarrow> owned lm (tx_of (ts ! i)) = prog_keys (ts ! i)"
    and excl: "\<And>j k. j < length ts \<Longrightarrow> j \<noteq> i \<Longrightarrow> k \<in> owned lm (tx_of (ts ! i)) \<Longrightarrow> \<not> in_use (ts ! j) k"
  shows "store_inv L st' (ts[i := t]) (h @ commit_entry i (ts ! i))"
  using assms(3)
proof cases
  case enter
  with own excl show ?thesis using store_inv_enter [OF assms(1) i] by simp
next
  case (execute d op todo rs)
  have "op_key op \<in> prog_keys (ts ! i)"
    using sp [OF i] execute(2) by (simp add: splits_prog_def prog_keys_def)
  with execute own excl show ?thesis
    using store_inv_execute [OF assms(1) i execute(2-4)] by (simp add: executing_def)
next
  case (commit d rs)
  with own excl show ?thesis using store_inv_commit [OF assms(1) i commit(3) sp] by (simp add: executing_def)
next
  case abort
  show ?thesis
    unfolding abort(1) using abort
    by (intro store_inv_idle [OF assms(1) i]) (simp_all add: executing_def result_of_def)
next
  case (idle p)
  show ?thesis unfolding idle(1) using idle by (intro store_inv_idle [OF assms(1) i]) simp_all
qed

context transaction_threads
begin

lemma sys_inv_run:
  assumes "sys_inv L s" and len: "length (threads s) \<le> 2 ^ 64" and i: "i < length (threads s)"
    and step: "thread_step L X (shared s) (threads s ! i) = Some (g, t)"
  shows "sys_inv L (s\<lparr>shared := g, threads := (threads s)[i := t],
       history := history s @ commit_entry i (threads s ! i)\<rparr>)"
proof -
  obtain lm st lm' st' where g: "shared s = (lm, st)" "g = (lm', st')" by (cases "shared s", cases g)
  have inv: "locks_inv s" "store_inv L st (threads s) (history s)"
    using assms(1) g by (simp_all add: sys_inv_split)
  have loc: "thread_inv (lm, st) (threads s ! j)" if "j < length (threads s)" for j
    using inv(1) that g by (simp add: locks_inv_def)
  have "store_inv L st' ((threads s)[i := t]) (history s @ commit_entry i (threads s ! i))"
  proof (rule store_inv_step [OF inv(2) i])
    show "data_step L st (threads s ! i) st' t"
      using thread_step_data [OF exec _ step [unfolded g]] inv(2) by (simp add: store_inv_def)
    show "splits_prog (prog (threads s ! j)) (phase (threads s ! j))" if "j < length (threads s)" for j
      using loc [OF that] by (simp add: thread_inv_def)
    show "owned lm (tx_of (threads s ! i)) = prog_keys (threads s ! i)"
      if "phase (threads s ! i) = Locking [] \<or> executing (phase (threads s ! i))"
      using that loc [OF i] by (auto simp: thread_inv_def executing_def split: phase.splits)
    show "\<not> in_use (threads s ! j) k" if "j < length (threads s)" "j \<noteq> i" "k \<in> owned lm (tx_of (threads s ! i))" for j k
      using owner_exclusive [OF inv(1) len i that(1,2), of k] that(3) g by (simp add: owned_def)
  qed
  then show ?thesis
    using locks_inv_run [OF inv(1) len i step] g by (simp add: sys_inv_split)
qed

lemma sys_inv_begin:
  assumes "sys_inv L s" and "length (threads s) < 2 ^ 64" and "set ks = op_keys ops" and "distinct ks"
  shows "sys_inv L (s\<lparr>counter := counter s + 1,
       threads := threads s @ [\<lparr>tx_of = counter s, prog = ops, phase = Locking ks\<rparr>]\<rparr>)"
  using assms locks_inv_begin [OF _ assms(2-4)]
  by (simp add: sys_inv_def data_inv_new executing_def history_inv_new result_of_def)

lemma reachable_inv: "reachable L X s \<Longrightarrow> length (threads s) \<le> 2 ^ 64 \<Longrightarrow> sys_inv L s"
proof (induction rule: reachable.induct)
  case start
  show ?case by (rule sys_inv_init)
next
  case (step s s')
  from step.hyps(2) show ?case
  proof (cases rule: sys_step.cases)
    case (begin_txn ks ops)
    then show ?thesis using step.IH step.prems sys_inv_begin by simp
  next
    case (run_thread i g t)
    then show ?thesis using step.IH step.prems sys_inv_run by simp
  qed
qed

end

end
