(* ===== verification/Serializability.thy ===== *)
theory Serializability
  imports Concurrent
begin

text \<open>
  What concurrent execution on one node guarantees: interleavings as executable
  schedules, and the properties of the reachable states of \<open>Concurrent\<close>:
  serializability, isolation, real-time order, no lock left behind, and a bound on
  the steps of every transaction.
\<close>

section \<open>Schedules\<close>

text \<open>Executable interleavings: which transaction begins or which thread runs next.\<close>

datatype event = Begin "Operation list" "KeyType list" | Run nat

fun run_event :: "stdlib \<Rightarrow> executor_api \<Rightarrow> event \<Rightarrow> system \<Rightarrow> system option" where
  "run_event L X (Begin ops ks) s =
     (if set ks = op_keys ops \<and> distinct ks then
        Some (s\<lparr>counter := counter s + 1,
          threads := threads s @ [\<lparr>tx_of = counter s, prog = ops, phase = Locking ks\<rparr>]\<rparr>)
      else None)"
| "run_event L X (Run i) s =
     (if i < length (threads s) then
        (case thread_step L X (shared s) (threads s ! i) of
           None \<Rightarrow> None
         | Some (g, t) \<Rightarrow> Some (s\<lparr>shared := g, threads := (threads s)[i := t],
             history := history s @ commit_entry i (threads s ! i)\<rparr>))
      else None)"

fun run_events :: "stdlib \<Rightarrow> executor_api \<Rightarrow> event list \<Rightarrow> system \<Rightarrow> system option" where
  "run_events L X [] s = Some s"
| "run_events L X (e # es) s =
     (case run_event L X e s of None \<Rightarrow> None | Some s' \<Rightarrow> run_events L X es s')"

lemma run_event_step: "run_event L X e s = Some s' \<Longrightarrow> sys_step L X s s'"
  by (cases e) (auto intro!: sys_step.intros split: if_splits option.splits)

lemma run_events_reachable: "run_events L X es s = Some s' \<Longrightarrow> reachable L X s \<Longrightarrow> reachable L X s'"
  by (induction es arbitrary: s)
     (auto split: option.splits dest: run_event_step intro: reachable.step)

lemma run_events_snoc: "run_events L X (es @ [e]) s = Option.bind (run_events L X es s) (run_event L X e)"
  by (induction es arbitrary: s) (auto split: option.split)

lemma sys_step_event: "sys_step L X s s' \<Longrightarrow> \<exists>e. run_event L X e s = Some s'"
proof (induction rule: sys_step.induct)
  case (begin_txn ks ops s)
  then show ?case by (intro exI [of _ "Begin ops ks"]) simp
next
  case (run_thread i s g t)
  then show ?case by (intro exI [of _ "Run i"]) simp
qed

text \<open>The schedules from the initial state reach exactly the reachable states.\<close>

lemma reachable_iff: "reachable L X s \<longleftrightarrow> (\<exists>es. run_events L X es init_system = Some s)"
proof
  assume "reachable L X s"
  then show "\<exists>es. run_events L X es init_system = Some s"
  proof (induction rule: reachable.induct)
    case start
    show ?case by (intro exI [of _ "[]"]) simp
  next
    case (step s s')
    then obtain es e where "run_events L X es init_system = Some s" "run_event L X e s = Some s'"
      using sys_step_event by blast
    then show ?case by (intro exI [of _ "es @ [e]"]) (simp add: run_events_snoc)
  qed
qed (use run_events_reachable reachable.start in blast)

lemma run_event_grows:
  "run_event L X e s = Some s' \<Longrightarrow>
     length (threads s) \<le> length (threads s') \<and> (\<exists>h. history s' = history s @ h)"
  by (cases e) (auto split: if_splits option.splits)

lemma run_events_grows:
  "run_events L X es s = Some s' \<Longrightarrow>
     length (threads s) \<le> length (threads s') \<and> (\<exists>h. history s' = history s @ h)"
proof (induction es arbitrary: s)
  case (Cons e es)
  then obtain s1 where "run_event L X e s = Some s1" "run_events L X es s1 = Some s'"
    by (auto split: option.splits)
  with Cons.IH [of s1] run_event_grows [of L X e s s1] show ?case by auto
qed simp

text \<open>
  Two transactions on the same key: the second one spins while the first one holds the
  lock, gets it afterwards and reads what the first one wrote. \<open>demo_mid\<close>: the first
  one is half done; \<open>demo_first\<close>: it has committed; \<open>demo\<close>: both have.
\<close>

definition demo_mid :: system where
  "demo_mid = the (run_events std_ref (executor_ref std_ref)
     [Begin [AppendOp 5 1, AppendOp 5 2] [5], Begin [ReadOp 5] [5], Run 0, Run 1, Run 0, Run 1, Run 0, Run 1,
      Run 0] init_system)"

definition demo_first :: system where
  "demo_first = the (run_events std_ref (executor_ref std_ref) [Run 1, Run 0, Run 0] demo_mid)"

definition demo_rest :: "event list" where
  "demo_rest = [Run 0, Run 0, Run 1, Run 0, Run 1, Run 1, Run 1]"

definition demo :: system where
  "demo = the (run_events std_ref (executor_ref std_ref) demo_rest demo_first)"

definition demo_end :: system where
  "demo_end = the (run_events std_ref (executor_ref std_ref) [Run 1, Run 1, Run 1] demo)"

lemma run_events_the:
  "\<not> Option.is_none (run_events L X es s) \<Longrightarrow> reachable L X s \<Longrightarrow>
   reachable L X (the (run_events L X es s))"
  using run_events_reachable run_the by blast

lemma demo_mid_reachable: "reachable std_ref (executor_ref std_ref) demo_mid"
  unfolding demo_mid_def by (rule run_events_the [OF _ reachable.start]) code_simp

lemma demo_first_reachable: "reachable std_ref (executor_ref std_ref) demo_first"
  unfolding demo_first_def by (rule run_events_the [OF _ demo_mid_reachable]) code_simp

lemma demo_run: "run_events std_ref (executor_ref std_ref) demo_rest demo_first = Some demo"
  unfolding demo_def by (rule run_the) code_simp

lemma demo_reachable: "reachable std_ref (executor_ref std_ref) demo"
  using run_events_reachable [OF demo_run demo_first_reachable] .

lemma demo_end_reachable: "reachable std_ref (executor_ref std_ref) demo_end"
  unfolding demo_end_def by (rule run_events_the [OF _ demo_reachable]) code_simp

lemma demo_mid_facts:
  "length (threads demo_mid) = 2" "tx_of (threads demo_mid ! 0) = 1"
  "prog (threads demo_mid ! 0) = [AppendOp 5 1, AppendOp 5 2]"
  "phase (threads demo_mid ! 0) = Executing [AppendOp 5 1] [AppendOp 5 2] []"
  "history demo_mid = []"
  by code_simp+

lemma demo_first_facts: "history demo_first = [(0, [AppendOp 5 1, AppendOp 5 2], [])]"
  by code_simp

lemma demo_facts:
  "length (threads demo) = 2"
  "history demo = [(0, [AppendOp 5 1, AppendOp 5 2], []), (1, [ReadOp 5], [(5, Some [1, 2])])]"
  "map phase (threads demo) = [Ended (Committed []), Finishing (Committed [(5, Some [1, 2])])]"
  "list_all (\<lambda>t. \<not> executing (phase t)) (threads demo)"
  by code_simp+

section \<open>Properties\<close>

lemma reachable_sys_inv:
  "std_ok L \<Longrightarrow> executor_ok L X \<Longrightarrow> reachable L X s \<Longrightarrow> length (threads s) \<le> 2 ^ 64 \<Longrightarrow> sys_inv L s"
  by (intro transaction_threads.reachable_inv) (simp add: transaction_threads_def)+

text \<open>
  C2 (serializability). In every state that any interleaving of transactions on one
  node can reach, the history, in which each transaction appears when its execution
  phase ends, is serial: every transaction in it returns what it returns when the
  transactions run one after the other in that order. The history has exactly the
  transactions that have committed, each once; every other transaction that is over
  has aborted. Whenever no transaction is in its execution phase, the store is the
  one the serial run leaves, so aborted transactions have no effect.
\<close>

theorem serializable:
  assumes "std_ok L" "executor_ok L X" "reachable L X s" "length (threads s) \<le> 2 ^ 64"
  shows "serial Map.empty (history s) \<and> distinct (map fst (history s)) \<and>
    (\<forall>i < length (threads s). case result_of (threads s ! i) of
       None \<Rightarrow> i \<notin> fst ` set (history s)
     | Some (Committed rs) \<Rightarrow> (i, prog (threads s ! i), rs) \<in> set (history s)
     | Some r \<Rightarrow> r = Aborted \<and> i \<notin> fst ` set (history s)) \<and>
    ((\<forall>t \<in> set (threads s). \<not> executing (phase t)) \<longrightarrow>
       kv_get L (snd (shared s)) = serial_state Map.empty (history s))"
proof -
  have inv: "sys_inv L s" using assms by (rule reachable_sys_inv)
  have "kv_get L (snd (shared s)) = serial_state Map.empty (history s)"
    if "\<forall>t \<in> set (threads s). \<not> executing (phase t)"
  proof
    fix k
    have "data_inv (serial_state Map.empty (history s)) (kv_get L (snd (shared s))) (threads s)"
      using inv by (simp add: sys_inv_def)
    then show "kv_get L (snd (shared s)) k = serial_state Map.empty (history s) k"
      using that not_executing(1) by (intro data_inv_free) auto
  qed
  moreover have "case result_of (threads s ! i) of
       None \<Rightarrow> i \<notin> fst ` set (history s)
     | Some (Committed rs) \<Rightarrow> (i, prog (threads s ! i), rs) \<in> set (history s)
     | Some r \<Rightarrow> r = Aborted \<and> i \<notin> fst ` set (history s)" if "i < length (threads s)" for i
    using inv that by (force simp: sys_inv_def history_inv_def split: option.split txn_end.split)
  ultimately show ?thesis using inv by (simp add: sys_inv_def history_inv_def)
qed

theorem serializable_witness:
  "serial Map.empty (history demo) \<and> kv_get std_ref (snd (shared demo)) 5 = Some [1, 2]"
  using serializable [OF std_ref_ok executor_ref_ok demo_reachable] demo_facts(4)
  by (simp add: demo_facts(1,2) run_ops.simps list_all_iff)

text \<open>
  C3 (mutual exclusion and isolation). A transaction in its execution phase owns the
  lock of each of its keys, no other transaction executes on one of them, and what
  it has read so far are the values of the committed transactions and its own
  appends: it never sees a value of a transaction that is not over.
\<close>

theorem isolation:
  assumes "std_ok L" "executor_ok L X" "reachable L X s" "length (threads s) \<le> 2 ^ 64"
    and "i < length (threads s)" and "phase (threads s ! i) = Executing d todo rs"
  shows "rs = fst (run_ops (serial_state Map.empty (history s)) d) \<and> prog (threads s ! i) = d @ todo \<and>
    (\<forall>k \<in> op_keys (prog (threads s ! i)).
       owner_of (fst (shared s)) k = Some (tx_of (threads s ! i)) \<and>
       kv_get L (snd (shared s)) k = snd (run_ops (serial_state Map.empty (history s)) d) k \<and>
       (\<forall>j < length (threads s). executing (phase (threads s ! j)) \<and> k \<in> op_keys (prog (threads s ! j))
          \<longrightarrow> j = i))"
proof -
  have inv: "sys_inv L s" using assms(1-4) by (rule reachable_sys_inv)
  then have loc: "locks_inv s" "thread_inv (shared s) (threads s ! i)"
    using assms(5) by (simp_all add: sys_inv_def locks_inv_def)
  have "view_inv (serial_state Map.empty (history s)) (kv_get L (snd (shared s))) (threads s ! i)"
    using inv assms(5) by (simp add: sys_inv_def data_inv_def)
  then have "rs = fst (run_ops (serial_state Map.empty (history s)) d)"
      "\<forall>k \<in> prog_keys (threads s ! i).
         kv_get L (snd (shared s)) k = snd (run_ops (serial_state Map.empty (history s)) d) k"
    using assms(6) by (simp_all add: view_inv_def)
  moreover have "prog (threads s ! i) = d @ todo"
    using loc(2) assms(6) by (simp add: thread_inv_def splits_prog_def)
  moreover have "owner_of (fst (shared s)) k = Some (tx_of (threads s ! i))" if "k \<in> prog_keys (threads s ! i)" for k
    using that assms(6) in_use_owned [OF loc(2)] by (simp add: in_use_def)
  moreover have "j = i" if "j < length (threads s)" "executing (phase (threads s ! j))"
      "k \<in> prog_keys (threads s ! j)" "k \<in> prog_keys (threads s ! i)" for j k
    using in_use_exclusive [OF loc(1) assms(4) that(1) assms(5), of k] that assms(6)
    by (auto simp: in_use_def executing_def split: phase.splits)
  ultimately show ?thesis unfolding prog_keys_def [symmetric] by blast
qed

theorem isolation_witness:
  "owner_of (fst (shared demo_mid)) 5 = Some 1 \<and> kv_get std_ref (snd (shared demo_mid)) 5 = Some [1]"
  using isolation [OF std_ref_ok executor_ref_ok demo_mid_reachable _ _ demo_mid_facts(4)]
  by (simp add: demo_mid_facts)

definition ended :: "phase \<Rightarrow> bool" where
  "ended p = (case p of Ended r \<Rightarrow> True | _ \<Rightarrow> False)"

text \<open>
  C19 (nothing is left behind). When every transaction has ended, no key is locked and
  no transaction is tracked as a holder of a lock, whatever the interleaving was and
  however many transactions aborted.
\<close>

theorem quiescent_clean:
  assumes "std_ok L" "executor_ok L X" "reachable L X s" "length (threads s) \<le> 2 ^ 64"
    and "\<forall>t \<in> set (threads s). ended (phase t)"
  shows "owner_of (fst (shared s)) k = None \<and> \<not> holds_lock (fst (shared s)) k u"
proof -
  have inv: "locks_inv s" using reachable_sys_inv [OF assms(1-4)] by (simp add: sys_inv_def)
  have none: "owned (fst (shared s)) v = {} \<and> tracked (fst (shared s)) v = {}" for v
  proof (cases "v \<in> tx_of ` set (threads s)")
    case True
    then obtain t where t: "t \<in> set (threads s)" "v = tx_of t" by blast
    then have "thread_inv (shared s) t" using inv by (metis in_set_conv_nth locks_inv_def)
    moreover obtain r where "phase t = Ended r"
      using t(1) assms(5) by (cases "phase t") (auto simp: ended_def)
    ultimately show ?thesis using t(2) by (simp add: thread_inv_def)
  next
    case False
    with inv show ?thesis by (simp add: locks_inv_def)
  qed
  have "owner_of (fst (shared s)) k \<noteq> Some v" for v using none [of v] by (auto simp: owned_def)
  moreover have "\<not> holds_lock (fst (shared s)) k u" using none [of u] by (auto simp: tracked_def)
  ultimately show ?thesis by (cases "owner_of (fst (shared s)) k") auto
qed

lemma demo_end_facts:
  "length (threads demo_end) = 2"
  "list_all (\<lambda>t. ended (phase t)) (threads demo_end)"
  by code_simp+

theorem quiescent_clean_witness:
  "owner_of (fst (shared demo_end)) 5 = None \<and> \<not> holds_lock (fst (shared demo_end)) 5 2"
  using quiescent_clean [OF std_ref_ok executor_ref_ok demo_end_reachable] demo_end_facts
  by (simp add: list_all_iff)

text \<open>
  The serial order respects real time. If at some moment transaction \<open>i\<close> has
  committed and transaction \<open>j\<close> has not (it may not even have begun), then in every
  later state in which \<open>j\<close> has committed too, \<open>i\<close> stands before \<open>j\<close> in the history.
\<close>

theorem real_time_order:
  assumes "std_ok L" "executor_ok L X" "reachable L X s" "run_events L X es s = Some s'" "length (threads s') \<le> 2 ^ 64"
    and "i \<in> fst ` set (history s)" and "j \<notin> fst ` set (history s)" and "j \<in> fst ` set (history s')"
  shows "\<exists>h1 h2. map fst (history s') = h1 @ h2 \<and> i \<in> set h1 \<and> j \<in> set h2 \<and> j \<notin> set h1 \<and> i \<notin> set h2"
proof -
  obtain h where h: "history s' = history s @ h" using run_events_grows [OF assms(4)] by blast
  have "sys_inv L s'"
    using assms by (intro reachable_sys_inv [OF assms(1,2)] run_events_reachable [OF assms(4)])
  then have "distinct (map fst (history s'))" by (simp add: sys_inv_def history_inv_def)
  then show ?thesis
    using assms(6-8) by (intro exI [of _ "map fst (history s)"] exI [of _ "map fst h"]) (auto simp: h)
qed

theorem real_time_order_witness:
  "\<exists>h1 h2. map fst (history demo) = h1 @ h2 \<and> 0 \<in> set h1 \<and> 1 \<in> set h2 \<and> 1 \<notin> set h1 \<and> 0 \<notin> set h2"
  using real_time_order [OF std_ref_ok executor_ref_ok demo_first_reachable demo_run, of 0 1]
  by (simp add: demo_facts(1,2) demo_first_facts)

end
