(* ===== verification/Thread_Runs.thy ===== *)
theory Thread_Runs
  imports Serializability
begin

text \<open>
  One thread of \<open>Concurrent\<close> among the others: it can always take a step until it has
  ended, the number of its own steps is bounded whatever the others do, and alone it
  computes what \<open>execute_transaction\<close> computes.
\<close>

section \<open>A bound on the steps of a thread\<close>

definition held_count :: "LockManager \<Rightarrow> TransactionId \<Rightarrow> nat" where
  "held_count lm tx = (case held_locks lm tx of None \<Rightarrow> 0 | Some ks \<Rightarrow> length ks)"

text \<open>
  A key costs at most 1503 steps: its entry, 1500 checks, one step for a failed
  attempt, and its release.
\<close>

fun steps_left :: "LockManager \<Rightarrow> TransactionId \<Rightarrow> Operation list \<Rightarrow> phase \<Rightarrow> nat" where
  "steps_left lm tx ops (Locking ks) = held_count lm tx + length ops + 4 + 1503 * length ks"
| "steps_left lm tx ops (Entering k ks) = held_count lm tx + length ops + 4 + 1503 * length ks + 1502"
| "steps_left lm tx ops (Retrying n k ks) = held_count lm tx + length ops + 4 + 1503 * length ks + (1500 - n)"
| "steps_left lm tx ops (Executing d todo rs) = held_count lm tx + length todo + 3"
| "steps_left lm tx ops (Finishing r) = held_count lm tx + 2"
| "steps_left lm tx ops (Releasing ks r) = length ks + 1"
| "steps_left lm tx ops (Ended r) = 0"

definition thread_left :: "shared \<Rightarrow> thread \<Rightarrow> nat" where
  "thread_left g t = steps_left (fst g) (tx_of t) (prog t) (phase t)"

lemma held_count_simps [simp]:
  "held_count (ensure_entry k lm) = held_count lm"
  "held_count (set_owner k x lm) = held_count lm"
  by (simp_all add: held_count_def fun_eq_iff)

lemma held_count_track: "held_count (track k tx lm) tx \<le> Suc (held_count lm tx)"
  by (auto simp: held_count_def track_def List.insert_def split: option.splits)

lemma check_left:
  assumes "check n k ks tx lm = (lm', p)" and "n \<le> 1500"
  shows "held_count lm' tx = held_count lm tx \<and>
     steps_left lm' tx ops p < Suc (held_count lm tx + length ops + 4 + 1503 * length ks + (1500 - n)) \<and>
     (n = 0 \<or> steps_left lm' tx ops p < held_count lm tx + length ops + 4 + 1503 * length ks + (1500 - n))"
  using assms
  by (auto simp: check_def MAX_SPINS_def MAX_YIELDS_def split: if_splits option.splits)

lemma key_order_length [simp]: "std_ok L \<Longrightarrow> length (key_order L xs) = length xs"
  by (metis std_okD(1) size_mset)

lemma thread_step_left:
  assumes "std_ok L" and "thread_step L X g t = Some (g', t')"
  shows "thread_left g' t' < thread_left g t"
proof -
  obtain lm st where g: "g = (lm, st)" by (cases g)
  show ?thesis
  proof (cases "phase t")
    case (Locking ks)
    with assms g show ?thesis by (cases ks) (auto simp: thread_step.simps thread_left_def)
  next
    case (Entering k ks)
    obtain lm1 p where c: "check 0 k ks (tx_of t) (track k (tx_of t) lm) = (lm1, p)" by force
    with Entering assms g have "g' = (lm1, st)" "t' = t\<lparr>phase := p\<rparr>" by (auto simp: thread_step.simps)
    with Entering g show ?thesis
      using check_left [OF c, of "prog t"] held_count_track [of k "tx_of t" lm] by (simp add: thread_left_def)
  next
    case (Retrying n k ks)
    obtain lm1 p where c: "check n k ks (tx_of t) lm = (lm1, p)" by force
    with Retrying assms g have "g' = (lm1, st)" "t' = t\<lparr>phase := p\<rparr>" by (auto simp: thread_step.simps)
    with Retrying g c show ?thesis
      by (auto simp: thread_left_def check_def MAX_SPINS_def MAX_YIELDS_def split: if_splits option.splits)
  next
    case (Executing d todo rs)
    with assms g show ?thesis
      by (cases todo) (auto simp: thread_step.simps thread_left_def split: prod.splits sum.splits)
  next
    case (Finishing r)
    with assms g show ?thesis
      by (auto simp: thread_step.simps thread_left_def held_count_def split: option.splits)
  next
    case (Releasing ks r)
    with assms g show ?thesis by (cases ks) (auto simp: thread_step.simps thread_left_def)
  next
    case (Ended r)
    with assms g show ?thesis by (simp add: thread_step.simps)
  qed
qed

lemma thread_left_other:
  assumes "thread_step L X g t = Some (g', t')" and "tx_of u \<noteq> tx_of t"
  shows "thread_left g' u = thread_left g u"
proof -
  obtain lm st lm' st' where g: "g = (lm, st)" "g' = (lm', st')" by (cases g, cases g')
  have "leaves (tx_of u) lm lm'" using thread_step_leaves assms g by blast
  then have "held_count lm' (tx_of u) = held_count lm (tx_of u)"
    using leavesD(2) by (simp add: held_count_def)
  then show ?thesis by (cases "phase u") (simp_all add: thread_left_def g)
qed

lemma thread_progress: "thread_step L X g t \<noteq> None \<longleftrightarrow> \<not> ended (phase t)"
  by (cases g; cases "phase t")
     (auto simp: thread_step.simps ended_def split: list.splits prod.splits sum.splits option.splits)

lemma run_event_left:
  assumes "locks_inv s" and "length (threads s) \<le> 2 ^ 64" and "std_ok L"
    and "run_event L X e s = Some s'" and i: "i < length (threads s)"
  shows "(if e = Run i then 1 else 0) + thread_left (shared s') (threads s' ! i)
    \<le> thread_left (shared s) (threads s ! i)"
proof (cases e)
  case (Begin ops ks)
  with assms(4) i show ?thesis by (auto simp: nth_append split: if_splits)
next
  case (Run j)
  then obtain g t where j: "j < length (threads s)" "thread_step L X (shared s) (threads s ! j) = Some (g, t)"
      "s' = s\<lparr>shared := g, threads := (threads s)[j := t], history := history s @ commit_entry j (threads s ! j)\<rparr>"
    using assms(4) by (auto split: if_splits option.splits)
  show ?thesis
  proof (cases "i = j")
    case True
    with j Run show ?thesis using thread_step_left [OF assms(3) j(2)] by simp
  next
    case False
    with locks_inv_names [OF assms(1,2)] i j(1) have "tx_of (threads s ! i) \<noteq> tx_of (threads s ! j)"
      by (metis length_map nth_eq_iff_index_eq nth_map)
    with False Run j show ?thesis using thread_left_other [OF j(2)] by simp
  qed
qed

lemma run_events_left:
  assumes "std_ok L" and "executor_ok L X" and "reachable L X s" and "run_events L X es s = Some s'"
    and "length (threads s') \<le> 2 ^ 64" and "i < length (threads s)"
  shows "count_list es (Run i) + thread_left (shared s') (threads s' ! i) \<le> thread_left (shared s) (threads s ! i)"
  using assms(3,4,6)
proof (induction es arbitrary: s)
  case (Cons e es)
  then obtain s1 where s1: "run_event L X e s = Some s1" "run_events L X es s1 = Some s'"
    by (auto split: option.splits)
  have len: "length (threads s) \<le> length (threads s1)" "length (threads s1) \<le> 2 ^ 64"
    using run_event_grows [OF s1(1)] run_events_grows [OF s1(2)] assms(5) by auto
  have "sys_inv L s" using reachable_sys_inv [OF assms(1,2) Cons.prems(1)] len by simp
  then have "(if e = Run i then 1 else 0) + thread_left (shared s1) (threads s1 ! i)
      \<le> thread_left (shared s) (threads s ! i)"
    using run_event_left [OF _ _ assms(1) s1(1) Cons.prems(3)] len by (simp add: sys_inv_def)
  moreover have "reachable L X s1" using Cons.prems(1) run_event_step [OF s1(1)] by (rule reachable.step)
  ultimately show ?case using Cons.IH [OF _ s1(2)] Cons.prems(3) len(1) by (auto split: if_splits)
qed simp

text \<open>
  No deadlock, bounded work. Whatever the schedule, a transaction takes at most
  1503 steps per key and one per operation, plus four; as long as it has not ended it
  can take a step in every state. So every transaction ends under every scheduler
  that does not stop running it: threads never wait for each other without bound.
\<close>

theorem transaction_bounded:
  assumes "std_ok L" "executor_ok L X" "reachable L X s"
    and "run_events L X (Begin ops ks # es) s = Some s'" "length (threads s') \<le> 2 ^ 64"
  shows "count_list es (Run (length (threads s))) \<le> 1503 * card (op_keys ops) + length ops + 4 \<and>
    (ended (phase (threads s' ! length (threads s))) \<or>
     (\<exists>s''. run_event L X (Run (length (threads s))) s' = Some s''))"
proof -
  let ?i = "length (threads s)" and ?t = "\<lparr>tx_of = counter s, prog = ops, phase = Locking ks\<rparr>"
  let ?s1 = "s\<lparr>counter := counter s + 1, threads := threads s @ [?t]\<rparr>"
  have ks: "set ks = op_keys ops" "distinct ks" and es: "run_events L X es ?s1 = Some s'"
    using assms(4) by (auto split: if_splits)
  have len: "?i < length (threads s')" using run_events_grows [OF es] by auto
  have "locks_inv s" using reachable_sys_inv [OF assms(1-3)] len assms(5) by (simp add: sys_inv_def)
  then have "tracked (fst (shared s)) (counter s) = {}"
    using locks_inv_fresh [of s] len assms(5) by (simp add: locks_inv_def)
  then have "held_count (fst (shared s)) (counter s) = 0"
    by (auto simp: tracked_def holds_lock_def held_count_def split: option.splits)
  moreover have "reachable L X ?s1" by (rule reachable.step [OF assms(3) sys_step.begin_txn [OF ks]])
  then have "count_list es (Run ?i) + thread_left (shared s') (threads s' ! ?i)
      \<le> thread_left (shared s) ?t"
    using run_events_left [OF assms(1,2) _ es assms(5), of ?i] by simp
  moreover have "length ks = card (op_keys ops)" using ks distinct_card by metis
  ultimately have "count_list es (Run ?i) \<le> 1503 * card (op_keys ops) + length ops + 4"
    by (simp add: thread_left_def)
  moreover have "\<exists>s''. run_event L X (Run ?i) s' = Some s''" if "\<not> ended (phase (threads s' ! ?i))"
    using that len thread_progress [of L X "shared s'" "threads s' ! ?i"] by auto
  ultimately show ?thesis by blast
qed

definition demo_locking :: system where
  "demo_locking = the (run_events std_ref (executor_ref std_ref) [Begin [ReadOp 5] [5], Run 0] init_system)"

lemma demo_locking_facts:
  "length (threads init_system) = 0" "length (threads demo_locking) = 1"
  "\<not> ended (phase (threads demo_locking ! 0))"
  by code_simp+

lemma demo_locking_run:
  "run_events std_ref (executor_ref std_ref) [Begin [ReadOp 5] [5], Run 0] init_system = Some demo_locking"
  unfolding demo_locking_def by (rule run_the) code_simp

theorem transaction_bounded_witness:
  "\<exists>s''. run_event std_ref (executor_ref std_ref) (Run 0) demo_locking = Some s''"
  using transaction_bounded [OF std_ref_ok executor_ref_ok reachable.start demo_locking_run]
  by (simp only: demo_locking_facts) auto

section \<open>One thread alone\<close>

inductive alone :: "stdlib \<Rightarrow> executor_api \<Rightarrow> shared \<Rightarrow> thread \<Rightarrow> shared \<Rightarrow> thread \<Rightarrow> bool" for L X where
  alone_refl: "alone L X g t g t"
| alone_step: "thread_step L X g t = Some (g1, t1) \<Longrightarrow> alone L X g1 t1 g' t' \<Longrightarrow> alone L X g t g' t'"

lemma alone_trans: "alone L X g t g1 t1 \<Longrightarrow> alone L X g1 t1 g2 t2 \<Longrightarrow> alone L X g t g2 t2"
  by (induction rule: alone.induct) (auto intro: alone_step)

lemma alone_one: "thread_step L X g t = Some (g', t') \<Longrightarrow> alone L X g t g' t'"
  by (blast intro: alone.intros)

lemma alone_retry_busy:
  assumes "owner_of lm k = Some u" and "u \<noteq> tx_of t"
  shows "alone L X (lm, st) (t\<lparr>phase := Retrying n k ks\<rparr>) (lm, st) (t\<lparr>phase := Finishing Aborted\<rparr>)"
proof (induction "1500 - n" arbitrary: n)
  case 0
  then show ?case by (intro alone_one) (simp add: thread_step.simps check_def MAX_SPINS_def MAX_YIELDS_def)
next
  case (Suc m)
  then have "alone L X (lm, st) (t\<lparr>phase := Retrying (Suc n) k ks\<rparr>) (lm, st) (t\<lparr>phase := Finishing Aborted\<rparr>)"
    by simp
  moreover have "thread_step L X (lm, st) (t\<lparr>phase := Retrying n k ks\<rparr>) =
      Some ((lm, st), t\<lparr>phase := Retrying (Suc n) k ks\<rparr>)"
    using Suc.hyps(2) assms by (simp add: thread_step.simps check_def MAX_SPINS_def MAX_YIELDS_def)
  ultimately show ?case by (blast intro: alone_step)
qed

text \<open>The steps of a thread for one key compute what \<open>acquire\<close> computes.\<close>

lemma alone_acquire:
  assumes "acquire quiet k (tx_of t) lm = (r, lm')"
  shows "alone L X (lm, st) (t\<lparr>phase := Locking (k # ks)\<rparr>) (lm', st)
    (t\<lparr>phase := (if r = ACQUIRED then Locking ks else Finishing Aborted)\<rparr>)"
proof -
  let ?tx = "tx_of t" and ?lm1 = "track k (tx_of t) (ensure_entry k lm)"
  have 1: "alone L X (lm, st) (t\<lparr>phase := Locking (k # ks)\<rparr>) (ensure_entry k lm, st) (t\<lparr>phase := Entering k ks\<rparr>)"
    by (intro alone_one) (simp add: thread_step.simps)
  have enter: "thread_step L X (ensure_entry k lm, st) (t\<lparr>phase := Entering k ks\<rparr>) =
      (case check 0 k ks ?tx ?lm1 of (lm', p) \<Rightarrow> Some ((lm', st), t\<lparr>phase := p\<rparr>))"
    by (simp add: thread_step.simps)
  show ?thesis
  proof (cases "owner_of lm k")
    case None
    with assms have "r = ACQUIRED" "lm' = set_owner k (Some ?tx) ?lm1" by (auto simp: acquire_free)
    with None enter show ?thesis
      by (intro alone_trans [OF 1] alone_one) (simp add: check_def MAX_SPINS_def MAX_YIELDS_def)
  next
    case (Some u)
    then have e: "ensure_entry k lm = lm" using owner_of_entry by (simp add: ensure_entry_def)
    show ?thesis
    proof (cases "u = ?tx")
      case True
      with assms Some have "r = ACQUIRED" "lm' = ?lm1" by (auto simp: acquire_reentrant e)
      with Some True enter show ?thesis
        by (intro alone_trans [OF 1] alone_one) (simp add: check_def MAX_SPINS_def MAX_YIELDS_def)
    next
      case False
      with assms Some have r: "r = ABORTED" "lm' = ?lm1" by (auto simp: acquire_busy e)
      have "thread_step L X (ensure_entry k lm, st) (t\<lparr>phase := Entering k ks\<rparr>) =
          Some ((?lm1, st), t\<lparr>phase := Retrying 1 k ks\<rparr>)"
        using Some False enter by (simp add: check_def MAX_SPINS_def MAX_YIELDS_def)
      moreover have "alone L X (?lm1, st) (t\<lparr>phase := Retrying 1 k ks\<rparr>) (?lm1, st) (t\<lparr>phase := Finishing Aborted\<rparr>)"
        using Some False by (intro alone_retry_busy) simp_all
      ultimately show ?thesis using alone_trans [OF 1] r by (simp add: alone_step)
    qed
  qed
qed

lemma alone_acquire_each:
  "acquire_each (\<lambda>k. acquire quiet k (tx_of t)) ks lm = (b, lm') \<Longrightarrow>
   alone L X (lm, st) (t\<lparr>phase := Locking ks\<rparr>) (lm', st)
     (t\<lparr>phase := (if b then Locking [] else Finishing Aborted)\<rparr>)"
proof (induction ks arbitrary: lm)
  case Nil
  then show ?case by (auto intro: alone_refl)
next
  case (Cons k ks)
  obtain r lm1 where a: "acquire quiet k (tx_of t) lm = (r, lm1)" by force
  show ?case
    using alone_acquire [OF a, of L X st ks] Cons.prems Cons.IH [of lm1] a
    by (cases r) (auto intro: alone_trans)
qed

lemma alone_execute:
  assumes "executor_ok L X" and "kv_wf L st"
  shows "\<exists>st'. alone L X (lm, st) (t\<lparr>phase := Executing d todo rs\<rparr>) (lm, st')
      (t\<lparr>phase := Finishing (Committed (rs @ fst (run_ops (kv_get L st) todo)))\<rparr>) \<and>
    kv_get L st' = snd (run_ops (kv_get L st) todo)"
  using assms(2)
proof (induction todo arbitrary: st d rs)
  case Nil
  have "alone L X (lm, st) (t\<lparr>phase := Executing d [] rs\<rparr>) (lm, st) (t\<lparr>phase := Finishing (Committed rs)\<rparr>)"
    by (intro alone_one) (simp add: thread_step.simps)
  then show ?case by auto
next
  case (Cons op todo)
  have st: "exec_store (make_executor X st) = st" using assms(1) by simp
  obtain v where v: "visit X op (make_executor X st) = (Inr (op_read (kv_get L st) op), v)"
      "kv_wf L (exec_store v)" "kv_get L (exec_store v) = op_write (kv_get L st) op"
    using visit_refines [OF assms(1), of "make_executor X st" op] Cons.prems unfolding st by blast
  have "thread_step L X (lm, st) (t\<lparr>phase := Executing d (op # todo) rs\<rparr>) =
      Some ((lm, exec_store v), t\<lparr>phase := Executing (d @ [op]) todo (rs @ op_read (kv_get L st) op)\<rparr>)"
    using v(1) by (simp add: thread_step.simps)
  then show ?case
    using Cons.IH [OF v(2), of "d @ [op]" "rs @ op_read (kv_get L st) op"] v(3) by (auto intro: alone_step)
qed

lemma alone_release:
  "alone L X (lm, st) (t\<lparr>phase := Releasing ks r\<rparr>)
     (foldl (\<lambda>m k. release k (tx_of t) m) lm ks, st) (t\<lparr>phase := Ended r\<rparr>)"
proof (induction ks arbitrary: lm)
  case Nil
  show ?case by (intro alone_one) (simp add: thread_step.simps)
next
  case (Cons k ks)
  have "thread_step L X (lm, st) (t\<lparr>phase := Releasing (k # ks) r\<rparr>) =
      Some ((release k (tx_of t) lm, st), t\<lparr>phase := Releasing ks r\<rparr>)"
    by (simp add: thread_step.simps)
  then show ?case using Cons.IH [of "release k (tx_of t) lm"] by (auto intro: alone_step)
qed

lemma alone_finish:
  "alone L X (lm, st) (t\<lparr>phase := Finishing r\<rparr>) (release_all L (tx_of t) lm, st) (t\<lparr>phase := Ended r\<rparr>)"
proof (cases "held_locks lm (tx_of t)")
  case None
  then have "thread_step L X (lm, st) (t\<lparr>phase := Finishing r\<rparr>) = Some ((lm, st), t\<lparr>phase := Releasing [] r\<rparr>)"
    by (simp add: thread_step.simps)
  with None show ?thesis using alone_release [where L = L and X = X and lm = lm and st = st and t = t and ks = "[]" and r = r]
    by (auto simp: release_all_def intro: alone_step)
next
  case (Some ks)
  then have "thread_step L X (lm, st) (t\<lparr>phase := Finishing r\<rparr>) =
      Some ((lm\<lparr>held_locks := (held_locks lm)(tx_of t := None)\<rparr>, st), t\<lparr>phase := Releasing (key_order L ks) r\<rparr>)"
    by (simp add: thread_step.simps)
  with Some show ?thesis using alone_release by (simp add: release_all_def alone_step)
qed

lemma alone_transaction:
  fixes t :: thread
  assumes "executor_ok L X" and "kv_wf L st"
    and a: "acquire_each (\<lambda>k. acquire quiet k (tx_of t)) ks lm = (b, lm')"
  defines "r \<equiv> (if b then Committed (fst (run_ops (kv_get L st) (prog t))) else Aborted)"
  shows "\<exists>st'. alone L X (lm, st) (t\<lparr>phase := Locking ks\<rparr>) (release_all L (tx_of t) lm', st') (t\<lparr>phase := Ended r\<rparr>) \<and>
    kv_get L st' = (if b then snd (run_ops (kv_get L st) (prog t)) else kv_get L st)"
proof (cases b)
  case False
  have "alone L X (lm', st) (t\<lparr>phase := Finishing Aborted\<rparr>)
      (release_all L (tx_of t) lm', st) (t\<lparr>phase := Ended Aborted\<rparr>)"
    by (rule alone_finish)
  with alone_acquire_each [OF a, of L X st] False show ?thesis by (auto simp: r_def intro: alone_trans)
next
  case True
  obtain st' where st': "alone L X (lm', st) (t\<lparr>phase := Executing [] (prog t) []\<rparr>) (lm', st')
      (t\<lparr>phase := Finishing r\<rparr>)" "kv_get L st' = snd (run_ops (kv_get L st) (prog t))"
    using alone_execute [OF assms(1,2), where lm = lm' and t = t and d = "[]" and todo = "prog t" and rs = "[]"] True
    by (auto simp: r_def)
  have "thread_step L X (lm', st) (t\<lparr>phase := Locking []\<rparr>) = Some ((lm', st), t\<lparr>phase := Executing [] (prog t) []\<rparr>)"
    by (simp add: thread_step.simps)
  then have "alone L X (lm', st) (t\<lparr>phase := Locking []\<rparr>) (release_all L (tx_of t) lm', st') (t\<lparr>phase := Ended r\<rparr>)"
    using alone_trans [OF st'(1) alone_finish] by (rule alone_step)
  with alone_acquire_each [OF a, of L X st] True st'(2) show ?thesis by (auto intro: alone_trans)
qed

text \<open>
  C10 (the threads are the transactions of the scheduler). A thread that runs from its
  first step to its end with no other thread in between goes through the states of
  \<open>execute_transaction\<close>: it ends in the same lock manager, in a store with the same
  content and with the same results, committed or aborted.
\<close>

theorem thread_refines_execute_transaction:
  assumes "coordinator s = None" "std_ok L" "executor_ok L X" "kv_wf L (store s)"
  shows "\<exists>ks r st' s'. set ks = op_keys ops \<and> distinct ks \<and>
    execute_transaction L J S X (\<lambda>_. quiet) tape ops s =
      (Returns (case r of Committed rs \<Rightarrow> rs | _ \<Rightarrow> []), tape, s') \<and>
    alone L X (lock_manager s, store s) \<lparr>tx_of = next_tx_id s, prog = ops, phase = Locking ks\<rparr>
      (lock_manager s', st') \<lparr>tx_of = next_tx_id s, prog = ops, phase = Ended r\<rparr> \<and>
    kv_get L st' = kv_get L (store s')"
proof -
  let ?tx = "next_tx_id s" and ?s0 = "s\<lparr>next_tx_id := next_tx_id s + 1\<rparr>"
  let ?t = "\<lparr>tx_of = next_tx_id s, prog = ops, phase = Locking []\<rparr>"
  have h: "coordinator ?s0 = None" "kv_wf L (store ?s0)" using assms by simp_all
  obtain ks st where e: "set ks = op_keys ops" "distinct ks" "kv_wf L st"
    "kv_get L st = snd (run_ops (kv_get L (store ?s0)) ops)"
    "execute_with_distributed_support L J S X (\<lambda>_. quiet) tape ops ?tx ?s0 =
      (case acquire_each (\<lambda>k. acquire quiet k ?tx) ks (lock_manager ?s0) of
         (False, lm) \<Rightarrow> (Returns [], tape, ?s0\<lparr>lock_manager := release_all L ?tx lm\<rparr>)
       | (True, lm) \<Rightarrow> (Returns (fst (run_ops (kv_get L (store ?s0)) ops)), tape,
           ?s0\<lparr>store := st, lock_manager := release_all L ?tx lm\<rparr>))"
    by (rule execute_single [OF h(1) assms(2,3) h(2)])
  obtain b lm where a: "acquire_each (\<lambda>k. acquire quiet k ?tx) ks (lock_manager s) = (b, lm)" by force
  let ?r = "if b then Committed (fst (run_ops (kv_get L (store s)) ops)) else Aborted"
  obtain st' where "alone L X (lock_manager s, store s) (?t\<lparr>phase := Locking ks\<rparr>) (release_all L ?tx lm, st')
      (?t\<lparr>phase := Ended ?r\<rparr>)"
      "kv_get L st' = (if b then snd (run_ops (kv_get L (store s)) ops) else kv_get L (store s))"
    using alone_transaction [OF assms(3,4), of ?t ks "lock_manager s" b lm] a by (cases b) auto
  with a e show ?thesis
    unfolding execute_transaction_def
    by (intro exI [of _ ks] exI [of _ ?r] exI [of _ st']) (cases b, simp_all)
qed

theorem thread_refines_execute_transaction_witness:
  "\<exists>ks r st' s'. set ks = {5} \<and>
    execute_transaction std_ref boost_ref server_up (executor_ref std_ref) (\<lambda>_. quiet) [] [ReadOp 5] sched0 =
      (Returns (case r of Committed rs \<Rightarrow> rs | _ \<Rightarrow> []), [], s') \<and>
    alone std_ref (executor_ref std_ref) (init_lock_manager, empty_store)
      \<lparr>tx_of = 1, prog = [ReadOp 5], phase = Locking ks\<rparr>
      (lock_manager s', st') \<lparr>tx_of = 1, prog = [ReadOp 5], phase = Ended r\<rparr>"
  using thread_refines_execute_transaction [of sched0 std_ref "executor_ref std_ref" "[ReadOp 5]"
      boost_ref server_up "[]"]
  by simp blast

end
