(* ===== verification/Peer_Messages.thy ===== *)
theory Peer_Messages
  imports Scheduler
begin

text \<open>
  The message handlers of \<open>TwoPLScheduler\<close> (\<open>transactions/impl/TwoPLScheduler.cpp\<close>):
  what a node does with the lock and operation messages of its peers. A handler runs
  to its end in one step, except that other threads may change the lock manager while
  it waits for a lock (\<open>env\<close>). Notifying a condition variable changes no data; the
  waiting side re-reads the maps (\<open>Scheduler\<close>).
\<close>

section \<open>Lock messages\<close>

text \<open>\<open>catch (const std::exception& e)\<close>: log and return.\<close>

definition log_error :: "exn \<Rightarrow> TwoPLScheduler \<Rightarrow> TwoPLScheduler" where
  "log_error e s = s\<lparr>logged := logged s @ [e]\<rparr>"

text \<open>
  \<open>msg.at("tx_id").as_uint64()\<close>, then \<open>msg.at("key").as_int64()\<close>. The casts to
  \<open>TransactionId\<close> and \<open>KeyType\<close> keep the bits.
\<close>

definition tx_and_key :: "boost_json \<Rightarrow> jobject \<Rightarrow> (TransactionId \<times> KeyType) res" where
  "tx_and_key J msg =
     (case member_as J (as_uint64 J) msg ''tx_id'' of
        Inl e \<Rightarrow> Inl e
      | Inr tx \<Rightarrow> (case member_as J (as_int64 J) msg ''key'' of Inl e \<Rightarrow> Inl e | Inr key \<Rightarrow> Inr (tx, key)))"

definition handle_lock_request :: "boost_json \<Rightarrow> server_api \<Rightarrow> interference \<Rightarrow> NodeID \<Rightarrow> jobject \<Rightarrow>
    TwoPLScheduler \<Rightarrow> TwoPLScheduler" where
  "handle_lock_request J S env peer msg s =
     (if \<not> obj_contains J msg ''tx_id'' \<or> \<not> obj_contains J msg ''key'' then s
      else (case tx_and_key J msg of
          Inl e \<Rightarrow> log_error e s
        | Inr (tx, key) \<Rightarrow>
            (case acquire env key tx (lock_manager s) of
               (result, lm) \<Rightarrow>
                 (let type = (if result = ACQUIRED then MT_LOCK_GRANTED else MT_LOCK_DENIED)
                  in case send S peer (lock_message J type tx key) (s\<lparr>lock_manager := lm\<rparr>) of
                       (Inl e, s') \<Rightarrow> log_error e s'
                     | (Inr _, s') \<Rightarrow> s'))))"

text \<open>
  \<open>msg.at("type").as_string().c_str() == MessageType::LOCK_GRANTED\<close> compares two
  pointers: one into the storage of a JSON string and one to a string literal.
  Distinct objects have distinct addresses, so it is false whatever the characters are.
\<close>

definition same_address :: "string \<Rightarrow> string \<Rightarrow> bool" where
  "same_address chars literal = False"

definition erase_pending :: "NodeID \<Rightarrow> KeyType \<Rightarrow> (NodeID \<times> KeyType list) list \<Rightarrow> (NodeID \<times> KeyType list) list" where
  "erase_pending peer key m =
     filter (\<lambda>(n, ks). n \<noteq> peer \<or> ks \<noteq> [])
       (map (\<lambda>(n, ks). if n = peer then (n, removeAll key ks) else (n, ks)) m)"

definition handle_lock_response :: "boost_json \<Rightarrow> NodeID \<Rightarrow> jobject \<Rightarrow> TwoPLScheduler \<Rightarrow> TwoPLScheduler" where
  "handle_lock_response J peer msg s =
     (if \<not> obj_contains J msg ''tx_id'' \<or> \<not> obj_contains J msg ''key'' then s
      else (case tx_and_key J msg of
          Inl e \<Rightarrow> log_error e s
        | Inr (tx, key) \<Rightarrow>
            (case member_as J (as_string J) msg ''type'' of
               Inl e \<Rightarrow> log_error e s
             | Inr type \<Rightarrow>
                 if same_address type MT_LOCK_GRANTED then
                   (case pending_remote_locks s tx of
                      None \<Rightarrow> s
                    | Some m \<Rightarrow>
                        (case map_of m peer of
                           None \<Rightarrow> s
                         | Some ks \<Rightarrow>
                             if key \<in> set ks
                             then s\<lparr>pending_remote_locks :=
                                      (pending_remote_locks s)(tx \<mapsto> erase_pending peer key m)\<rparr>
                             else s))
                 else s\<lparr>pending_remote_locks := (pending_remote_locks s)(tx := None)\<rparr>)))"

definition handle_lock_release :: "boost_json \<Rightarrow> NodeID \<Rightarrow> jobject \<Rightarrow> TwoPLScheduler \<Rightarrow> TwoPLScheduler" where
  "handle_lock_release J peer msg s =
     (if \<not> obj_contains J msg ''tx_id'' \<or> \<not> obj_contains J msg ''key'' then s
      else (case tx_and_key J msg of
          Inl e \<Rightarrow> log_error e s
        | Inr (tx, key) \<Rightarrow> s\<lparr>lock_manager := release key tx (lock_manager s)\<rparr>))"

section \<open>Operation messages\<close>

text \<open>\<open>op.Accept(&visitor)\<close> on a fresh visitor of the scheduler's store.\<close>

definition run_remote_op :: "executor_api \<Rightarrow> Operation \<Rightarrow> TwoPLScheduler \<Rightarrow>
    ValueContainer option res \<times> TwoPLScheduler" where
  "run_remote_op X op s =
     (case visit X op (make_executor X (store s)) of
        (Inl e, v) \<Rightarrow> (Inl e, s\<lparr>store := exec_store v\<rparr>)
      | (Inr rs, v) \<Rightarrow>
          (Inr (case rs of [] \<Rightarrow> None | (k, r) # _ \<Rightarrow> r), s\<lparr>store := exec_store v\<rparr>))"

definition op_response :: "boost_json \<Rightarrow> TransactionId \<Rightarrow> KeyType \<Rightarrow> ValueContainer option \<Rightarrow> jobject" where
  "op_response J tx key result =
     obj_set J (lock_message J MT_OP_RESPONSE tx key) ''value''
       (case result of None \<Rightarrow> JNull | Some vs \<Rightarrow> JArray (map JInt vs))"

text \<open>The operation a request asks for; \<open>None\<close>: an \<open>op_type\<close> that is neither.\<close>

definition request_op :: "boost_json \<Rightarrow> jobject \<Rightarrow> string \<Rightarrow> KeyType \<Rightarrow> Operation option res" where
  "request_op J msg kind key =
     (if kind = ''append'' then
        (case member_as J (as_int64 J) msg ''value'' of
           Inl e \<Rightarrow> Inl e
         | Inr v \<Rightarrow> Inr (Some (AppendOp key v)))
      else if kind = ''read'' then Inr (Some (ReadOp key))
      else Inr None)"

definition tx_op_key :: "boost_json \<Rightarrow> jobject \<Rightarrow> (TransactionId \<times> string \<times> KeyType) res" where
  "tx_op_key J msg =
     (case member_as J (as_uint64 J) msg ''tx_id'' of
        Inl e \<Rightarrow> Inl e
      | Inr tx \<Rightarrow>
          (case member_as J (as_string J) msg ''op_type'' of
             Inl e \<Rightarrow> Inl e
           | Inr t \<Rightarrow>
               (case member_as J (as_int64 J) msg ''key'' of
                  Inl e \<Rightarrow> Inl e
                | Inr key \<Rightarrow> Inr (tx, c_str t, key))))"

definition handle_operation_request :: "boost_json \<Rightarrow> server_api \<Rightarrow> executor_api \<Rightarrow> NodeID \<Rightarrow> jobject \<Rightarrow>
    TwoPLScheduler \<Rightarrow> TwoPLScheduler" where
  "handle_operation_request J S X peer msg s =
     (if \<not> obj_contains J msg ''tx_id'' \<or> \<not> obj_contains J msg ''op_type'' \<or> \<not> obj_contains J msg ''key'' then s
      else (case tx_op_key J msg of
          Inl e \<Rightarrow> log_error e s
        | Inr (tx, kind, key) \<Rightarrow>
            if kind = ''append'' \<and> \<not> obj_contains J msg ''value'' then s
            else (case request_op J msg kind key of
                Inl e \<Rightarrow> log_error e s
              | Inr op \<Rightarrow>
                  (case (case op of None \<Rightarrow> (Inr None, s) | Some op' \<Rightarrow> run_remote_op X op' s) of
                     (Inl e, s1) \<Rightarrow> log_error e s1
                   | (Inr result, s1) \<Rightarrow>
                       (case send S peer (op_response J tx key result) s1 of
                          (Inl e, s2) \<Rightarrow> log_error e s2
                        | (Inr _, s2) \<Rightarrow> s2)))))"

fun int_array :: "boost_json \<Rightarrow> json list \<Rightarrow> ValueContainer res" where
  "int_array J [] = Inr []"
| "int_array J (v # vs) =
     (case as_int64 J v of
        Inl e \<Rightarrow> Inl e
      | Inr x \<Rightarrow> (case int_array J vs of Inl e \<Rightarrow> Inl e | Inr xs \<Rightarrow> Inr (x # xs)))"

text \<open>The result a response carries: a missing or null value counts as an empty list.\<close>

definition response_value :: "boost_json \<Rightarrow> jobject \<Rightarrow> ValueContainer res" where
  "response_value J msg =
     (if obj_contains J msg ''value'' then
        (case obj_at J msg ''value'' of
           Inl e \<Rightarrow> Inl e
         | Inr v \<Rightarrow>
             if is_null J v then Inr []
             else (case as_array J v of Inl e \<Rightarrow> Inl e | Inr vs \<Rightarrow> int_array J vs))
      else Inr [])"

definition handle_operation_response :: "boost_json \<Rightarrow> NodeID \<Rightarrow> jobject \<Rightarrow> TwoPLScheduler \<Rightarrow> TwoPLScheduler" where
  "handle_operation_response J peer msg s =
     (if \<not> obj_contains J msg ''tx_id'' \<or> \<not> obj_contains J msg ''key'' then s
      else (case tx_and_key J msg of
          Inl e \<Rightarrow> log_error e s
        | Inr (tx, key) \<Rightarrow>
            (case response_value J msg of
               Inl e \<Rightarrow> log_error e s
             | Inr result \<Rightarrow>
                 s\<lparr>remote_results := (remote_results s)(tx \<mapsto>
                     (case remote_results s tx of None \<Rightarrow> Map.empty | Some m \<Rightarrow> m)(key \<mapsto> result)),
                   pending_remote_ops := (pending_remote_ops s)(tx \<mapsto> removeAll (peer, key) (ops_pending s tx))\<rparr>)))"

text \<open>
  Whether the handler calls \<open>remote_op_cv.notify_all()\<close>: only when no operation of the
  transaction is pending any more. A waiting thread that is not notified may sleep until
  its deadline.
\<close>

definition notifies_op :: "boost_json \<Rightarrow> NodeID \<Rightarrow> jobject \<Rightarrow> TwoPLScheduler \<Rightarrow> bool" where
  "notifies_op J peer msg s =
     (if \<not> obj_contains J msg ''tx_id'' \<or> \<not> obj_contains J msg ''key'' then False
      else (case tx_and_key J msg of
          Inl e \<Rightarrow> False
        | Inr (tx, key) \<Rightarrow>
            (case response_value J msg of
               Inl e \<Rightarrow> False
             | Inr result \<Rightarrow> ops_pending (handle_operation_response J peer msg s) tx = [])))"

section \<open>Two-phase commit messages and dispatch\<close>

definition handle_prepare_request :: "boost_json \<Rightarrow> server_api \<Rightarrow> NodeID \<Rightarrow> jobject \<Rightarrow> TwoPLScheduler \<Rightarrow>
    unit res \<times> TwoPLScheduler" where
  "handle_prepare_request J S peer msg s =
     (let response = obj_set J [] ''type'' (JString MT_TXN_COMMIT)
      in if obj_contains J msg ''tx_id''
         then (case obj_at J msg ''tx_id'' of
             Inl e \<Rightarrow> (Inl e, s)
           | Inr v \<Rightarrow> send S peer (obj_set J response ''tx_id'' v) s)
         else send S peer (obj_set J response ''tx_id'' (JUint 0)) s)"

text \<open>The handlers of commit and abort messages have empty bodies.\<close>

definition handle_commit_request :: "NodeID \<Rightarrow> jobject \<Rightarrow> TwoPLScheduler \<Rightarrow> TwoPLScheduler" where
  "handle_commit_request peer msg s = s"

definition handle_abort_request :: "NodeID \<Rightarrow> jobject \<Rightarrow> TwoPLScheduler \<Rightarrow> TwoPLScheduler" where
  "handle_abort_request peer msg s = s"

definition handle_peer_message :: "boost_json \<Rightarrow> server_api \<Rightarrow> executor_api \<Rightarrow> interference \<Rightarrow> NodeID \<Rightarrow>
    jobject \<Rightarrow> TwoPLScheduler \<Rightarrow> unit res \<times> TwoPLScheduler" where
  "handle_peer_message J S X env peer msg s =
     (if \<not> obj_contains J msg ''type'' then (Inr (), s)
      else (case member_as J (as_string J) msg ''type'' of
          Inl e \<Rightarrow> (Inl e, s)
        | Inr t \<Rightarrow>
            (let type = c_str t
             in if type = MT_LOCK_REQUEST then (Inr (), handle_lock_request J S env peer msg s)
                else if type = MT_LOCK_GRANTED \<or> type = MT_LOCK_DENIED
                then (Inr (), handle_lock_response J peer msg s)
                else if type = MT_LOCK_RELEASE then (Inr (), handle_lock_release J peer msg s)
                else if type = MT_OP_REQUEST then (Inr (), handle_operation_request J S X peer msg s)
                else if type = MT_OP_RESPONSE then (Inr (), handle_operation_response J peer msg s)
                else if type = MT_TXN_PREPARE then handle_prepare_request J S peer msg s
                else if type = MT_TXN_COMMIT then (Inr (), handle_commit_request peer msg s)
                else if type = MT_TXN_ABORT then (Inr (), handle_abort_request peer msg s)
                else (Inr (), s))))"

text \<open>\<open>execute_remote_op\<close>: a deferred call, run when the future is read.\<close>

definition execute_remote_op :: "boost_json \<Rightarrow> server_api \<Rightarrow> NodeID \<Rightarrow> TransactionId \<Rightarrow> Operation \<Rightarrow>
    wait_event list \<Rightarrow> TwoPLScheduler \<Rightarrow> ValueContainer option run" where
  "execute_remote_op J S target tx op = execute_remote_operation J S target tx op"

end
