(* ===== verification/Maelstrom.thy ===== *)
theory Maelstrom
  imports Json
begin

text \<open>
  \<open>system/maelstrom.h\<close> and \<open>maelstrom.cpp\<close>: the messages of the Maelstrom protocol
  and the node that reads them from standard input, one per line, and dispatches
  them. The text of a message is parsed and printed by \<open>boost::json\<close>: \<open>parse\<close> is a
  parameter, and the output of the node is the list of JSON objects it prints. A
  message for a registered handler is posted to the thread pool; the posted work
  is a list, and its execution belongs to the handlers.
\<close>

section \<open>Messages\<close>

text \<open>\<open>boost::optional<int>\<close> fields as 32-bit words.\<close>

record Message =
  sender :: string
  recipient :: string
  msg_type :: string
  body :: jobject
  msgId :: "32 word option"
  inReplyTo :: "32 word option"

definition getSender :: "Message \<Rightarrow> string" where
  "getSender m = sender m"

definition getRecipient :: "Message \<Rightarrow> string" where
  "getRecipient m = recipient m"

definition getType :: "Message \<Rightarrow> string" where
  "getType m = msg_type m"

definition getBody :: "Message \<Rightarrow> jobject" where
  "getBody m = body m"

definition getMsgId :: "Message \<Rightarrow> 32 word option" where
  "getMsgId m = msgId m"

definition getInReplyTo :: "Message \<Rightarrow> 32 word option" where
  "getInReplyTo m = inReplyTo m"

lemmas getters [simp] = getSender_def getRecipient_def getType_def getBody_def getMsgId_def getInReplyTo_def

text \<open>The arguments are streamed one after the other into the text of the exception.\<close>

definition raiseRuntimeError :: "string list \<Rightarrow> 'a res" where
  "raiseRuntimeError args = Inl (RuntimeError (concat args))"

declare raiseRuntimeError_def [simp]

text \<open>\<open>obj.at(key).as_string().c_str()\<close>\<close>

definition member_c_str :: "boost_json \<Rightarrow> jobject \<Rightarrow> string \<Rightarrow> string res" where
  "member_c_str J ob k = (case member_as J (as_string J) ob k of Inl e \<Rightarrow> Inl e | Inr s \<Rightarrow> Inr (c_str s))"

text \<open>An optional \<open>int64_t\<close> member, narrowed to \<open>int\<close>.\<close>

definition optional_int :: "boost_json \<Rightarrow> jobject \<Rightarrow> string \<Rightarrow> 32 word option res" where
  "optional_int J ob k =
     (if obj_contains J ob k
      then (case member_as J (as_int64 J) ob k of Inl e \<Rightarrow> Inl e | Inr n \<Rightarrow> Inr (Some (ucast n)))
      else Inr None)"

text \<open>The constructor from the text of a message.\<close>

definition parse_Message :: "boost_json \<Rightarrow> (string \<Rightarrow> json res) \<Rightarrow> string \<Rightarrow> Message res" where
  "parse_Message J parse strMessage =
     (case parse strMessage of
        Inl e \<Rightarrow> Inl e
      | Inr jsonValue \<Rightarrow>
          if \<not> is_object J jsonValue then raiseRuntimeError [''Invalid message: '', strMessage]
          else (case as_object J jsonValue of
              Inl e \<Rightarrow> Inl e
            | Inr jsonObject \<Rightarrow>
          (case member_c_str J jsonObject ''src'' of Inl e \<Rightarrow> Inl e | Inr src \<Rightarrow>
          (case member_c_str J jsonObject ''dest'' of Inl e \<Rightarrow> Inl e | Inr dest \<Rightarrow>
          (case member_as J (as_object J) jsonObject ''body'' of Inl e \<Rightarrow> Inl e | Inr bd \<Rightarrow>
          (case member_c_str J bd ''type'' of Inl e \<Rightarrow> Inl e | Inr ty \<Rightarrow>
          (case optional_int J bd ''msg_id'' of Inl e \<Rightarrow> Inl e | Inr mid \<Rightarrow>
          (case optional_int J bd ''in_reply_to'' of Inl e \<Rightarrow> Inl e | Inr irt \<Rightarrow>
             Inr \<lparr>sender = src, recipient = dest, msg_type = ty, body = bd, msgId = mid, inReplyTo = irt\<rparr>))))))))"

text \<open>The constructor from parts: the body is completed, at most one id is kept in it.\<close>

definition make_Message :: "boost_json \<Rightarrow> string \<Rightarrow> string \<Rightarrow> string \<Rightarrow> jobject \<Rightarrow>
    32 word option \<Rightarrow> 32 word option \<Rightarrow> Message res" where
  "make_Message J snder recipent type bd mid irt =
     (let b1 = obj_set J bd ''type'' (JString type)
      in if mid \<noteq> None \<and> irt \<noteq> None
         then raiseRuntimeError [[CHR 0x27] @ ''msg_Id'' @ [CHR 0x27] @ '' and '' @ [CHR 0x27] @ ''in_reply_to'' @
           [CHR 0x27] @ '' cannot be set together'']
         else
           (let b2 = (case mid of
                  None \<Rightarrow> b1
                | Some i \<Rightarrow>
                    (let b = obj_set J b1 ''msg_id'' (JInt (scast i))
                     in if obj_contains J b ''in_reply_to'' then obj_erase J b ''in_reply_to'' else b));
                b3 = (case irt of
                  None \<Rightarrow> b2
                | Some i \<Rightarrow>
                    (let b = obj_set J b2 ''in_reply_to'' (JInt (scast i))
                     in if obj_contains J b ''msg_id'' then obj_erase J b ''msg_id'' else b))
            in Inr \<lparr>sender = snder, recipient = recipent, msg_type = type, body = b3, msgId = mid, inReplyTo = irt\<rparr>))"

text \<open>The object \<open>Message::send\<close> prints.\<close>

definition message_json :: "boost_json \<Rightarrow> Message \<Rightarrow> jobject" where
  "message_json J m =
     (let o1 = obj_set J [] ''src'' (JString (sender m));
          o2 = obj_set J o1 ''dest'' (JString (recipient m))
      in obj_set J o2 ''body'' (JObject (body m)))"

section \<open>The node\<close>

text \<open>
  \<open>'h\<close> are the message handlers, \<open>'s\<close> is the state the init handlers work on.
\<close>

type_synonym 's init_handler = "string \<Rightarrow> string list \<Rightarrow> 's \<Rightarrow> bool res \<times> 's"

record ('h, 's) Node =
  messageHandlers :: "string \<rightharpoonup> 'h"
  nodeId :: "string option"
  peerIds :: "string list"
  initHandler :: "'s init_handler list"
  posted :: "('h \<times> Message) list"
  printed :: "jobject list"
  app :: 's

definition make_Node :: "'s \<Rightarrow> ('h, 's) Node" where
  "make_Node s = \<lparr>messageHandlers = Map.empty, nodeId = None, peerIds = [], initHandler = [],
     posted = [], printed = [], app = s\<rparr>"

definition registerMessageHandler :: "string \<Rightarrow> 'h \<Rightarrow> ('h, 's) Node \<Rightarrow> ('h, 's) Node" where
  "registerMessageHandler name h n = n\<lparr>messageHandlers := (messageHandlers n)(name \<mapsto> h)\<rparr>"

definition registerInitHandler :: "'s init_handler \<Rightarrow> ('h, 's) Node \<Rightarrow> ('h, 's) Node" where
  "registerInitHandler f n = n\<lparr>initHandler := initHandler n @ [f]\<rparr>"

text \<open>The loop over \<open>node_ids\<close>; on an exception the peers found so far stay.\<close>

fun add_peers :: "boost_json \<Rightarrow> string \<Rightarrow> json list \<Rightarrow> string list \<Rightarrow> unit res \<times> string list" where
  "add_peers J self [] peers = (Inr (), peers)"
| "add_peers J self (item # items) peers =
     (case as_string J item of
        Inl e \<Rightarrow> (Inl e, peers)
      | Inr s \<Rightarrow> add_peers J self items (if s \<noteq> self then peers @ [c_str s] else peers))"

text \<open>\<open>std::ranges::all_of\<close> over the init handlers: stops at the first false.\<close>

fun run_init_handlers :: "'s init_handler list \<Rightarrow> string \<Rightarrow> string list \<Rightarrow> 's \<Rightarrow> bool res \<times> 's" where
  "run_init_handlers [] self peers s = (Inr True, s)"
| "run_init_handlers (f # fs) self peers s =
     (case f self peers s of
        (Inl e, s') \<Rightarrow> (Inl e, s')
      | (Inr False, s') \<Rightarrow> (Inr False, s')
      | (Inr True, s') \<Rightarrow> run_init_handlers fs self peers s')"

text \<open>A message from parts, printed.\<close>

definition respond :: "boost_json \<Rightarrow> string \<Rightarrow> string \<Rightarrow> string \<Rightarrow> jobject \<Rightarrow> 32 word option \<Rightarrow>
    ('h, 's) Node \<Rightarrow> unit res \<times> ('h, 's) Node" where
  "respond J snder recipent type bd irt n =
     (case make_Message J snder recipent type bd None irt of
        Inl e \<Rightarrow> (Inl e, n)
      | Inr m \<Rightarrow> (Inr (), n\<lparr>printed := printed n @ [message_json J m]\<rparr>))"

definition init :: "boost_json \<Rightarrow> Message \<Rightarrow> ('h, 's) Node \<Rightarrow> unit res \<times> ('h, 's) Node" where
  "init J message n =
     (if nodeId n \<noteq> None then
        (raiseRuntimeError [''Node: '', the (nodeId n), '' already initialized''], n)
      else (case member_c_str J (getBody message) ''node_id'' of
          Inl e \<Rightarrow> (Inl e, n)
        | Inr self \<Rightarrow>
            (let n1 = n\<lparr>nodeId := Some self, peerIds := []\<rparr>
             in case member_as J (as_array J) (getBody message) ''node_ids'' of
                  Inl e \<Rightarrow> (Inl e, n1)
                | Inr items \<Rightarrow>
                    (case add_peers J self items [] of
                       (Inl e, peers) \<Rightarrow> (Inl e, n1\<lparr>peerIds := peers\<rparr>)
                     | (Inr _, peers) \<Rightarrow>
                         (case run_init_handlers (initHandler n) self peers (app n) of
                            (Inl e, s) \<Rightarrow> (Inl e, n1\<lparr>peerIds := peers, app := s\<rparr>)
                          | (Inr init_state, s) \<Rightarrow>
                              respond J (getRecipient message) (getSender message)
                                (if init_state then ''init_ok'' else ''error'') [] (getMsgId message)
                                (n1\<lparr>peerIds := peers, app := s\<rparr>))))))"

definition handleMessage :: "boost_json \<Rightarrow> Message \<Rightarrow> ('h, 's) Node \<Rightarrow> unit res \<times> ('h, 's) Node" where
  "handleMessage J message n =
     (if getType message = ''init'' then init J message n
      else (case messageHandlers n (getType message) of
          Some h \<Rightarrow> (Inr (), n\<lparr>posted := posted n @ [(h, message)]\<rparr>)
        | None \<Rightarrow> (raiseRuntimeError [''No handler found for message type'', getType message], n)))"

text \<open>The lines of standard input; after the last one \<open>std::getline\<close> leaves an empty line.\<close>

fun run :: "boost_json \<Rightarrow> (string \<Rightarrow> json res) \<Rightarrow> string list \<Rightarrow> ('h, 's) Node \<Rightarrow> unit res \<times> ('h, 's) Node" where
  "run J parse [] n = (Inr (), n)"
| "run J parse (inputLine # lines) n =
     (if inputLine = [] then (Inr (), n)
      else (case parse_Message J parse inputLine of
          Inl e \<Rightarrow> (Inl e, n)
        | Inr request \<Rightarrow>
            (case handleMessage J request n of
               (Inl e, n') \<Rightarrow> (Inl e, n')
             | (Inr _, n') \<Rightarrow> run J parse lines n')))"

section \<open>Properties\<close>

lemma narrow_widen [simp]: "(ucast (scast (i :: 32 word) :: 64 word) :: 32 word) = i"
  by (rule bit_word_eqI) (simp add: bit_simps)

lemma sint_narrow: "sint (scast (ucast (n :: 64 word) :: 32 word) :: 64 word) = signed_take_bit 31 (sint n)"
  by transfer (rule bit_eqI, simp add: bit_simps min_def)

lemma make_Message_fields:
  "make_Message J s r ty bd mid irt = Inr m \<Longrightarrow>
   sender m = s \<and> recipient m = r \<and> msg_type m = ty \<and> msgId m = mid \<and> inReplyTo m = irt"
  by (auto simp: make_Message_def Let_def split: if_splits)

lemma make_Message_body:
  assumes "boost_ok J" and "make_Message J s r ty bd mid irt = Inr m"
  shows "map_of (body m) ''type'' = Some (JString ty)"
    and "mid \<noteq> None \<or> irt \<noteq> None \<Longrightarrow> map_of (body m) ''msg_id'' = map_option (\<lambda>i. JInt (scast i)) mid"
    and "mid \<noteq> None \<or> irt \<noteq> None \<Longrightarrow> map_of (body m) ''in_reply_to'' = map_option (\<lambda>i. JInt (scast i)) irt"
    and "k \<notin> {''type'', ''msg_id'', ''in_reply_to''} \<Longrightarrow> map_of (body m) k = map_of bd k"
  using assms by (cases mid; cases irt; auto simp: make_Message_def Let_def split: if_splits)+

lemma message_json_members [simp]:
  "boost_ok J \<Longrightarrow> map_of (message_json J m) =
     [''src'' \<mapsto> JString (sender m), ''dest'' \<mapsto> JString (recipient m), ''body'' \<mapsto> JObject (body m)]"
  by (simp add: message_json_def Let_def)

text \<open>
  C38 (round trip of messages). A message with one of the two ids that is printed and
  parsed again is the same message: sender, recipient, type, body and ids. Strings
  with a NUL character are excluded, the accessors cut them off there.
\<close>

theorem message_roundtrip:
  assumes "boost_ok J" and "make_Message J s r ty bd mid irt = Inr m" and "mid \<noteq> None \<or> irt \<noteq> None"
    and "c_str s = s" "c_str r = r" "c_str ty = ty"
    and "parse line = Inr (JObject ob)" and "map_of ob = map_of (message_json J m)"
  shows "parse_Message J parse line = Inr m"
proof -
  note b = make_Message_body [OF assms(1,2)] and f = make_Message_fields [OF assms(2)]
  have "map_of (body m) ''type'' = Some (JString ty)"
      "optional_int J (body m) ''msg_id'' = Inr mid" "optional_int J (body m) ''in_reply_to'' = Inr irt"
    using assms(1,3) b by (cases mid; cases irt; simp add: optional_int_def)+
  then show ?thesis
    using assms f by (cases m) (simp add: parse_Message_def member_c_str_def)
qed

theorem message_roundtrip_witness:
  "\<exists>m. make_Message boost_ref ''n1'' ''c1'' ''txn_ok'' [] None (Some 7) = Inr m \<and>
     parse_Message boost_ref (\<lambda>_. Inr (JObject (message_json boost_ref m))) [] = Inr m"
proof -
  obtain m where m: "make_Message boost_ref ''n1'' ''c1'' ''txn_ok'' [] None (Some 7) = Inr m"
    by (simp add: make_Message_def Let_def)
  have "c_str ''n1'' = ''n1''" "c_str ''c1'' = ''c1''" "c_str ''txn_ok'' = ''txn_ok''"
    by (simp_all add: c_str_def)
  from message_roundtrip [OF boost_ref_ok m _ this, where parse = "\<lambda>_. Inr (JObject (message_json boost_ref m))"
      and line = "[]"] m
  show ?thesis by simp
qed

text \<open>
  C40 (width of message ids). The id of a request is a 64-bit integer in its body and an
  \<open>int\<close> in the message: a reply carries the id of its request exactly when the id is in
  the range of \<open>int\<close>, and the id modulo 2 to the 32, as a signed number, in any case.
\<close>

theorem reply_id_bounds:
  assumes "boost_ok J" and "parse line = Inr (JObject ob)" and "map_of ob ''body'' = Some (JObject bd)"
    and "map_of bd ''msg_id'' = Some (JInt n)" and "parse_Message J parse line = Inr request"
    and "make_Message J s r ty bd' None (getMsgId request) = Inr reply"
  shows "\<exists>i. map_of (getBody reply) ''in_reply_to'' = Some (JInt i) \<and> sint i = signed_take_bit 31 (sint n) \<and>
    (i = n \<longleftrightarrow> - (2 ^ 31) \<le> sint n \<and> sint n < 2 ^ 31)"
proof -
  let ?i = "scast (ucast n :: 32 word) :: 64 word"
  have "body request = bd" "msgId request = Some (ucast n)"
    using assms(1-5) by (auto simp: parse_Message_def member_c_str_def optional_int_def split: sum.splits if_splits)
  then have "map_of (body reply) ''in_reply_to'' = Some (JInt ?i)"
    using make_Message_body(3) [OF assms(1,6)] by simp
  moreover have i: "sint ?i = signed_take_bit 31 (sint n)" by (rule sint_narrow)
  moreover have "?i = n \<longleftrightarrow> - (2 ^ 31) \<le> sint n \<and> sint n < 2 ^ 31"
    using i signed_take_bit_int_eq_self_iff [of 31 "sint n"] by (metis signed_word_eqI)
  ultimately show ?thesis by simp
qed

theorem reply_id_bounds_witness:
  "\<exists>request reply i. parse_Message boost_ref (\<lambda>_. Inr (JObject [(''src'', JString ''c''), (''dest'', JString ''n''),
       (''body'', JObject [(''type'', JString ''echo''), (''msg_id'', JInt 4294967297)])])) [] = Inr request \<and>
     make_Message boost_ref ''n'' ''c'' ''echo_ok'' [] None (getMsgId request) = Inr reply \<and>
     map_of (getBody reply) ''in_reply_to'' = Some (JInt i) \<and> i \<noteq> 4294967297"
proof -
  let ?bd = "[(''type'', JString ''echo''), (''msg_id'', JInt 4294967297)]"
  let ?ob = "[(''src'', JString ''c''), (''dest'', JString ''n''), (''body'', JObject ?bd)]"
  let ?p = "\<lambda>_. Inr (JObject ?ob) :: json res"
  obtain request where p: "parse_Message boost_ref ?p [] = Inr request"
    by (simp add: parse_Message_def member_c_str_def optional_int_def)
  obtain reply where m: "make_Message boost_ref ''n'' ''c'' ''echo_ok'' [] None (getMsgId request) = Inr reply"
    by (simp add: make_Message_def Let_def split: option.split)
  have "map_of ?ob ''body'' = Some (JObject ?bd)" "map_of ?bd ''msg_id'' = Some (JInt 4294967297)" by simp_all
  from reply_id_bounds [OF boost_ref_ok _ this p m] p m show ?thesis by auto
qed

lemma add_peers_strings:
  assumes "boost_ok J" and "\<forall>s \<in> set ids. c_str s = s"
  shows "add_peers J self (map JString ids) peers = (Inr (), peers @ filter (\<lambda>s. s \<noteq> self) ids)"
  using assms by (induction ids arbitrary: peers) auto

lemma respond_ok:
  "\<exists>m. make_Message J s r ty bd None irt = Inr m \<and>
     respond J s r ty bd irt n = (Inr (), n\<lparr>printed := printed n @ [message_json J m]\<rparr>)"
  by (simp add: respond_def make_Message_def Let_def split: option.split)

text \<open>
  Initialization happens once. The first \<open>init\<close> message stores the node id and the
  other nodes as peers, runs the init handlers and is answered with \<open>init_ok\<close> if all of
  them succeed and with \<open>error\<close> otherwise, in reply to the request; every later \<open>init\<close>
  message throws and changes nothing.
\<close>

theorem init_once:
  assumes "boost_ok J" and "nodeId n = None" and "msg_type msg = ''init''"
    and "map_of (body msg) ''node_id'' = Some (JString self)" and "c_str self = self"
    and "map_of (body msg) ''node_ids'' = Some (JArray (map JString ids))" and "\<forall>s \<in> set ids. c_str s = s"
    and "run_init_handlers (initHandler n) self (filter (\<lambda>s. s \<noteq> self) ids) (app n) = (Inr ok, s')"
  shows "\<exists>n' m. handleMessage J msg n = (Inr (), n') \<and> nodeId n' = Some self \<and>
    peerIds n' = filter (\<lambda>s. s \<noteq> self) ids \<and> app n' = s' \<and> posted n' = posted n \<and>
    make_Message J (recipient msg) (sender msg) (if ok then ''init_ok'' else ''error'') [] None (msgId msg) = Inr m \<and>
    printed n' = printed n @ [message_json J m] \<and>
    (\<forall>msg'. msg_type msg' = ''init'' \<longrightarrow> (\<exists>e. handleMessage J msg' n' = (Inl e, n')))"
proof -
  let ?n1 = "n\<lparr>nodeId := Some self, peerIds := filter (\<lambda>s. s \<noteq> self) ids, app := s'\<rparr>"
  obtain m where m: "make_Message J (recipient msg) (sender msg) (if ok then ''init_ok'' else ''error'') [] None
      (msgId msg) = Inr m"
      "respond J (recipient msg) (sender msg) (if ok then ''init_ok'' else ''error'') [] (msgId msg) ?n1 =
        (Inr (), ?n1\<lparr>printed := printed ?n1 @ [message_json J m]\<rparr>)"
    using respond_ok by blast
  have "handleMessage J msg n = (Inr (), ?n1\<lparr>printed := printed n @ [message_json J m]\<rparr>)"
    using assms m(2) by (simp add: handleMessage_def init_def member_c_str_def add_peers_strings Let_def)
  with m(1) show ?thesis by (simp add: handleMessage_def init_def)
qed

definition demo_init :: Message where
  "demo_init = \<lparr>sender = ''c0'', recipient = ''n1'', msg_type = ''init'',
     body = [(''type'', JString ''init''), (''node_id'', JString ''n1''),
             (''node_ids'', JArray (map JString [''n1'', ''n2'', ''n3'']))],
     msgId = Some 1, inReplyTo = None\<rparr>"

theorem init_once_witness:
  "\<exists>n'. handleMessage boost_ref demo_init (make_Node () :: (nat, unit) Node) = (Inr (), n') \<and>
     nodeId n' = Some ''n1'' \<and> peerIds n' = [''n2'', ''n3'']"
proof -
  have "c_str ''n1'' = ''n1''" "\<forall>s \<in> set [''n1'', ''n2'', ''n3'']. c_str s = s"
    by (simp_all add: c_str_def)
  with init_once [OF boost_ref_ok, of "make_Node () :: (nat, unit) Node" demo_init "''n1''" "[''n1'', ''n2'', ''n3'']" True "()"]
  show ?thesis by (auto simp: make_Node_def demo_init_def)
qed

end
