(* ===== verification/Txn_Handler.thy ===== *)
theory Txn_Handler
  imports Peer_Messages Single_Node Maelstrom
begin

text \<open>
  The message handlers of the node: \<open>system/TransactionMessageHandler.cpp\<close>, which runs
  a transaction and fills its reads into the reply, and \<open>EchoMessageHandler.cpp\<close>. The
  constructor of \<open>Transaction\<close>, which turns the JSON array of a request into
  operations, is declared in the repository without its body: it is the parameter \<open>T\<close>.
\<close>

section \<open>The reply\<close>

text \<open>\<open>val.as_array().at(2)\<close> replaced by a new value.\<close>

definition set_third :: "boost_json \<Rightarrow> json list \<Rightarrow> json \<Rightarrow> json list res" where
  "set_third J arr v = (case arr_at J arr 2 of Inl e \<Rightarrow> Inl e | Inr _ \<Rightarrow> Inr (arr[2 := v]))"

definition first_string :: "boost_json \<Rightarrow> json list \<Rightarrow> string res" where
  "first_string J arr = (case arr_at J arr 0 of Inl e \<Rightarrow> Inl e | Inr v \<Rightarrow> as_string J v)"

definition second_int :: "boost_json \<Rightarrow> json list \<Rightarrow> 64 word res" where
  "second_int J arr = (case arr_at J arr 1 of Inl e \<Rightarrow> Inl e | Inr v \<Rightarrow> as_int64 J v)"

text \<open>
  One operation of the array: a read takes the next result if that result is for its
  key, and null otherwise.
\<close>

definition reply_op :: "boost_json \<Rightarrow> json \<Rightarrow> Results \<Rightarrow> (json \<times> Results) res" where
  "reply_op J val reads =
     (case as_array J val of Inl e \<Rightarrow> Inl e | Inr arr \<Rightarrow>
     (case first_string J arr of Inl e \<Rightarrow> Inl e | Inr t \<Rightarrow>
        if t \<noteq> ''r'' then Inr (val, reads)
        else (case reads of
            [] \<Rightarrow> (case set_third J arr JNull of Inl e \<Rightarrow> Inl e | Inr arr' \<Rightarrow> Inr (JArray arr', []))
          | (key, result) # rest \<Rightarrow>
              (case second_int J arr of Inl e \<Rightarrow> Inl e | Inr k \<Rightarrow>
                 if key = k then
                   (case set_third J arr (case result of None \<Rightarrow> JNull | Some vs \<Rightarrow> JArray (map JInt vs)) of
                      Inl e \<Rightarrow> Inl e | Inr arr' \<Rightarrow> Inr (JArray arr', rest))
                 else (case set_third J arr JNull of Inl e \<Rightarrow> Inl e | Inr arr' \<Rightarrow> Inr (JArray arr', reads))))))"

fun reply_ops :: "boost_json \<Rightarrow> json list \<Rightarrow> Results \<Rightarrow> json list res" where
  "reply_ops J [] reads = Inr []"
| "reply_ops J (val # vals) reads =
     (case reply_op J val reads of Inl e \<Rightarrow> Inl e | Inr (val', reads') \<Rightarrow>
     (case reply_ops J vals reads' of Inl e \<Rightarrow> Inl e | Inr vals' \<Rightarrow> Inr (val' # vals')))"

definition createReply :: "boost_json \<Rightarrow> jobject \<Rightarrow> Results \<Rightarrow> jobject res" where
  "createReply J inBody reads =
     (case member_as J (as_array J) inBody ''txn'' of Inl e \<Rightarrow> Inl e | Inr ops \<Rightarrow>
     (case reply_ops J ops reads of Inl e \<Rightarrow> Inl e | Inr ops' \<Rightarrow>
        Inr (obj_set J inBody ''txn'' (JArray ops'))))"

section \<open>The handlers\<close>

text \<open>What a handler prints, besides how it ends and the scheduler it leaves.\<close>

type_synonym handled = "unit outcome \<times> wait_event list \<times> TwoPLScheduler \<times> jobject list"

text \<open>The \<open>catch (std::exception &e)\<close> block: log and answer with an error.\<close>

definition reply_error :: "boost_json \<Rightarrow> Message \<Rightarrow> exn \<Rightarrow> wait_event list \<Rightarrow> TwoPLScheduler \<Rightarrow> handled" where
  "reply_error J request e tape s =
     (case make_Message J (getRecipient request) (getSender request) ''error'' [] None (getMsgId request) of
        Inl e' \<Rightarrow> (Throws e', tape, log_error e s, [])
      | Inr response \<Rightarrow> (Returns (), tape, log_error e s, [message_json J response]))"

text \<open>The transaction of a request, constructed and executed.\<close>

definition request_ops :: "boost_json \<Rightarrow> (json list \<Rightarrow> Operation list res) \<Rightarrow> jobject \<Rightarrow> Operation list res" where
  "request_ops J T msgBody =
     (case member_as J (as_array J) msgBody ''txn'' of Inl e \<Rightarrow> Inl e | Inr ops_json \<Rightarrow> T ops_json)"

definition run_request :: "stdlib \<Rightarrow> boost_json \<Rightarrow> server_api \<Rightarrow> executor_api \<Rightarrow> (json list \<Rightarrow> Operation list res) \<Rightarrow>
    (KeyType \<Rightarrow> interference) \<Rightarrow> wait_event list \<Rightarrow> jobject \<Rightarrow> TwoPLScheduler \<Rightarrow> Results run" where
  "run_request L J S X T envs tape msgBody s =
     (case request_ops J T msgBody of
        Inl e \<Rightarrow> (Throws e, tape, s)
      | Inr ops \<Rightarrow> execute_transaction L J S X envs tape ops s)"

text \<open>The rest of the handler: the reply to what the transaction returned or threw.\<close>

definition answer_txn :: "boost_json \<Rightarrow> Message \<Rightarrow> Results res \<Rightarrow> wait_event list \<Rightarrow> TwoPLScheduler \<Rightarrow> handled" where
  "answer_txn J request result tape s =
     (case result of
        Inl e \<Rightarrow> reply_error J request e tape s
      | Inr reads \<Rightarrow>
          (case createReply J (getBody request) reads of
             Inl e \<Rightarrow> reply_error J request e tape s
           | Inr responseMsgBody \<Rightarrow>
               (case make_Message J (getRecipient request) (getSender request) ''txn_ok'' responseMsgBody None
                   (getMsgId request) of
                  Inl e \<Rightarrow> reply_error J request e tape s
                | Inr response \<Rightarrow> (Returns (), tape, s, [message_json J response]))))"

definition handle_txn :: "stdlib \<Rightarrow> boost_json \<Rightarrow> server_api \<Rightarrow> executor_api \<Rightarrow> (json list \<Rightarrow> Operation list res) \<Rightarrow>
    (KeyType \<Rightarrow> interference) \<Rightarrow> wait_event list \<Rightarrow> Message \<Rightarrow> TwoPLScheduler \<Rightarrow> handled" where
  "handle_txn L J S X T envs tape request s =
     (case run_request L J S X T envs tape (getBody request) s of
        (Blocked, tape', s') \<Rightarrow> (Blocked, tape', s', [])
      | (Throws e, tape', s') \<Rightarrow> answer_txn J request (Inl e) tape' s'
      | (Returns reads, tape', s') \<Rightarrow> answer_txn J request (Inr reads) tape' s')"

definition handle_echo :: "boost_json \<Rightarrow> Message \<Rightarrow> unit res \<times> jobject list" where
  "handle_echo J request =
     (case make_Message J (getRecipient request) (getSender request) ''echo_ok'' (getBody request) None (getMsgId request) of
        Inl e \<Rightarrow> (Inl e, [])
      | Inr response \<Rightarrow> (Inr (), [message_json J response]))"

section \<open>The main program\<close>

text \<open>The two handlers by their names, and the node as \<open>main\<close> sets it up.\<close>

datatype handler = Echo | Txn

fun handler_name :: "handler \<Rightarrow> string" where
  "handler_name Echo = ''echo''"
| "handler_name Txn = ''txn''"

definition main_node :: "server_api \<Rightarrow> TwoPLScheduler \<Rightarrow> (handler, TwoPLScheduler) Node" where
  "main_node S scheduler =
     registerInitHandler (\<lambda>nodeId peers. start S nodeId peers)
       (registerMessageHandler (handler_name Txn) Txn
         (registerMessageHandler (handler_name Echo) Echo (make_Node scheduler)))"

section \<open>Properties\<close>

text \<open>The Maelstrom encoding of operations, and the array the reply should carry.\<close>

fun op_json :: "Operation \<Rightarrow> json" where
  "op_json (ReadOp k) = JArray [JString ''r'', JInt k, JNull]"
| "op_json (AppendOp k v) = JArray [JString ''append'', JInt k, JInt v]"

fun filled :: "kv_map \<Rightarrow> Operation list \<Rightarrow> json list" where
  "filled m [] = []"
| "filled m (ReadOp k # ops) =
     JArray [JString ''r'', JInt k, case m k of None \<Rightarrow> JNull | Some vs \<Rightarrow> JArray (map JInt vs)] # filled m ops"
| "filled m (AppendOp k v # ops) = op_json (AppendOp k v) # filled (op_write m (AppendOp k v)) ops"

lemma reply_op_append [simp]:
  "boost_ok J \<Longrightarrow> reply_op J (op_json (AppendOp k v)) reads = Inr (op_json (AppendOp k v), reads)"
  by (simp add: reply_op_def first_string_def)

lemma reply_op_read [simp]:
  "boost_ok J \<Longrightarrow> reply_op J (op_json (ReadOp k)) ((k, r) # reads) =
     Inr (JArray [JString ''r'', JInt k, case r of None \<Rightarrow> JNull | Some vs \<Rightarrow> JArray (map JInt vs)], reads)"
  "boost_ok J \<Longrightarrow> reply_op J (op_json (ReadOp k)) [] = Inr (op_json (ReadOp k), [])"
  by (simp_all add: reply_op_def first_string_def second_int_def set_third_def numeral_2_eq_2)

lemma reply_ops_filled:
  assumes "boost_ok J"
  shows "reply_ops J (map op_json ops) (fst (run_ops m ops)) = Inr (filled m ops)"
  using assms
proof (induction ops arbitrary: m)
  case (Cons op ops)
  then show ?case by (cases op) (simp_all del: op_json.simps)
qed simp

lemma reply_ops_none:
  assumes "boost_ok J"
  shows "reply_ops J (map op_json ops) [] = Inr (map op_json ops)"
  using assms
proof (induction ops)
  case (Cons op ops)
  then show ?case by (cases op) (simp_all del: op_json.simps)
qed simp

text \<open>The answer to a transaction that returned, and that every answer is one message.\<close>

lemma answer_txn_returns:
  assumes "boost_ok J" and "map_of (body request) ''txn'' = Some (JArray vals)" and "reply_ops J vals reads = Inr vals'"
  shows "\<exists>m. (\<forall>tape s. answer_txn J request (Inr reads) tape s = (Returns (), tape, s, [message_json J m])) \<and>
    sender m = recipient request \<and> recipient m = sender request \<and> msg_type m = ''txn_ok'' \<and>
    inReplyTo m = msgId request \<and> map_of (body m) ''txn'' = Some (JArray vals')"
proof -
  let ?bd = "obj_set J (body request) ''txn'' (JArray vals')"
  obtain m where m: "make_Message J (recipient request) (sender request) ''txn_ok'' ?bd None (msgId request) = Inr m"
    by (simp add: make_Message_def Let_def)
  have "map_of (body m) ''txn'' = Some (JArray vals')"
    using make_Message_body(4) [OF assms(1) m, of "''txn''"] assms(1) by simp
  with m assms make_Message_fields [OF m] show ?thesis
    by (intro exI [of _ m]) (simp add: answer_txn_def createReply_def)
qed

lemma answer_txn_one:
  "\<exists>m s'. answer_txn J request result tape s = (Returns (), tape, s', [message_json J m]) \<and>
     msg_type m \<in> {''txn_ok'', ''error''} \<and> sender m = recipient request \<and> recipient m = sender request \<and>
     inReplyTo m = msgId request \<and> (\<exists>es. s' = s\<lparr>logged := logged s @ es\<rparr>)"
proof -
  have made: "\<exists>m. make_Message J (recipient request) (sender request) ty bd None (msgId request) = Inr m" for ty bd
    by (simp add: make_Message_def Let_def)
  have err: "\<exists>m. reply_error J request e tape s = (Returns (), tape, s\<lparr>logged := logged s @ [e]\<rparr>, [message_json J m]) \<and>
      msg_type m = ''error'' \<and> sender m = recipient request \<and> recipient m = sender request \<and> inReplyTo m = msgId request" for e
    using made [of "''error''" "[]"] make_Message_fields by (fastforce simp: reply_error_def log_error_def)
  have ok: "s = s\<lparr>logged := logged s @ []\<rparr>" by simp
  show ?thesis
  proof (cases result)
    case (Inl e)
    with err [of e] show ?thesis by (auto simp: answer_txn_def)
  next
    case (Inr reads)
    show ?thesis
    proof (cases "createReply J (body request) reads")
      case (Inl e)
      with Inr err [of e] show ?thesis by (auto simp: answer_txn_def)
    next
      case bd: (Inr bd)
      obtain m where m: "make_Message J (recipient request) (sender request) ''txn_ok'' bd None (msgId request) = Inr m"
        using made by blast
      with Inr bd have "answer_txn J request result tape s = (Returns (), tape, s, [message_json J m])"
        by (simp add: answer_txn_def)
      with make_Message_fields [OF m] ok show ?thesis by blast
    qed
  qed
qed

definition demo_ops :: "Operation list" where
  "demo_ops = [AppendOp 5 1, ReadOp 5, ReadOp 6]"

definition demo_request :: Message where
  "demo_request = \<lparr>sender = ''c1'', recipient = ''n0'', msg_type = ''txn'',
     body = [(''type'', JString ''txn''), (''msg_id'', JInt 3), (''txn'', JArray (map op_json demo_ops))],
     msgId = Some 3, inReplyTo = None\<rparr>"

text \<open>
  C26 (the answer to a request). On a node without peers, with no other thread running,
  a \<open>txn\<close> request in the canonical encoding is answered by exactly one message to its
  sender, of type \<open>txn_ok\<close> and in reply to the request. If every key is free for the
  transaction, every read in its operation array carries the value the reference
  semantics reads at that point, and the store is the final state of the reference
  semantics. If a key is locked by another transaction, nothing is executed, the store
  is unchanged, and the answer is \<open>txn_ok\<close> all the same, with the request's own array:
  null for every read, and every append as if it had been done.
\<close>

theorem txn_request_served:
  assumes "boost_ok J" "std_ok L" "executor_ok L X" "coordinator s = None"
    and "kv_wf L (store s)" "tx_inv (next_tx_id s) (lock_manager s)"
    and "map_of (body request) ''txn'' = Some (JArray (map op_json ops))" and "T (map op_json ops) = Inr ops"
  shows "\<exists>s' m. handle_txn L J S X T (\<lambda>_. quiet) tape request s = (Returns (), tape, s', [message_json J m]) \<and>
    sender m = recipient request \<and> recipient m = sender request \<and> msg_type m = ''txn_ok'' \<and>
    inReplyTo m = msgId request \<and>
    map_of (body m) ''txn'' = Some (JArray (if can_lock (lock_manager s) (next_tx_id s) ops
      then filled (kv_get L (store s)) ops else map op_json ops)) \<and>
    kv_get L (store s') = (if can_lock (lock_manager s) (next_tx_id s) ops
      then snd (run_ops (kv_get L (store s)) ops) else kv_get L (store s))"
proof (cases "can_lock (lock_manager s) (next_tx_id s) ops")
  case True
  then obtain s' where s': "execute_transaction L J S X (\<lambda>_. quiet) tape ops s =
      (Returns (fst (run_ops (kv_get L (store s)) ops)), tape, s')"
      "kv_get L (store s') = snd (run_ops (kv_get L (store s)) ops)"
    using execute_transaction_spec [OF assms(4,2,3,5,6), of J S tape ops] by auto
  with True show ?thesis
    using answer_txn_returns [OF assms(1,7) reply_ops_filled [OF assms(1)], of "kv_get L (store s)"] assms(1,7,8)
    by (auto simp: handle_txn_def run_request_def request_ops_def)
next
  case False
  then obtain s' where s': "execute_transaction L J S X (\<lambda>_. quiet) tape ops s = (Returns [], tape, s')"
      "kv_get L (store s') = kv_get L (store s)"
    using execute_transaction_spec [OF assms(4,2,3,5,6), of J S tape ops] by auto
  with False show ?thesis
    using answer_txn_returns [OF assms(1,7) reply_ops_none [OF assms(1)]] assms(1,7,8)
    by (auto simp: handle_txn_def run_request_def request_ops_def)
qed

theorem txn_request_served_witness:
  "(\<exists>s' m. handle_txn std_ref boost_ref server_up (executor_ref std_ref) (\<lambda>_. Inr demo_ops) (\<lambda>_. quiet) []
      demo_request sched0 = (Returns (), [], s', [message_json boost_ref m]) \<and> inReplyTo m = Some 3 \<and>
    map_of (body m) ''txn'' = Some (JArray
      [JArray [JString ''append'', JInt 5, JInt 1], JArray [JString ''r'', JInt 5, JArray [JInt 1]],
       JArray [JString ''r'', JInt 6, JNull]])) \<and>
   (\<exists>s' m. handle_txn std_ref boost_ref server_up (executor_ref std_ref) (\<lambda>_. Inr demo_ops) (\<lambda>_. quiet) []
      demo_request (sched0\<lparr>lock_manager := lm_held\<rparr>) = (Returns (), [], s', [message_json boost_ref m]) \<and>
    msg_type m = ''txn_ok'' \<and> kv_get std_ref (store s') 5 = None)"
proof -
  have req: "map_of (body demo_request) ''txn'' = Some (JArray (map op_json demo_ops))" by (simp add: demo_request_def)
  note claim = txn_request_served [OF boost_ref_ok std_ref_ok executor_ref_ok _ _ _ req,
      of _ "\<lambda>_. Inr demo_ops" server_up "[]"]
  have free: "can_lock (lock_manager sched0) (next_tx_id sched0) demo_ops" by (simp add: can_lock_def demo_ops_def)
  have held: "\<not> can_lock lm_held (next_tx_id sched0) demo_ops" by (simp add: can_lock_def demo_ops_def)
  show ?thesis
    using claim [of sched0] claim [of "sched0\<lparr>lock_manager := lm_held\<rparr>"] free held
    by (intro conjI) (auto simp: demo_ops_def demo_request_def)
qed

text \<open>
  C27 (every request gets exactly one answer). For any request body, any constructor of
  transactions and any visitor, also failing ones, and whatever the other threads do
  within their contract: on a node without peers the handler returns and prints one
  message, of type \<open>txn_ok\<close> or \<open>error\<close>, to the sender of the request and in reply to
  it; the transaction holds no lock afterwards.
\<close>

theorem txn_request_answered:
  assumes "coordinator s = None" "tx_inv (next_tx_id s) (lock_manager s)" "rely_family (next_tx_id s) envs L"
    and "\<forall>k. owner_of (lock_manager s) k \<noteq> Some (next_tx_id s)"
  shows "\<exists>s' m. handle_txn L J S X T envs tape request s = (Returns (), tape, s', [message_json J m]) \<and>
    msg_type m \<in> {''txn_ok'', ''error''} \<and> recipient m = sender request \<and> inReplyTo m = msgId request \<and>
    tx_inv (next_tx_id s) (lock_manager s') \<and> (\<forall>k. owner_of (lock_manager s') k \<noteq> Some (next_tx_id s))"
proof -
  have "\<exists>out s'. run_request L J S X T envs tape (body request) s = (out, tape, s') \<and> out \<noteq> Blocked \<and>
      tx_inv (next_tx_id s) (lock_manager s') \<and> (\<forall>k. owner_of (lock_manager s') k \<noteq> Some (next_tx_id s))"
    using assms execute_transaction_total [OF assms(1-3), of J S X tape]
    by (auto simp: run_request_def split: sum.split)
  then obtain out s' where r: "run_request L J S X T envs tape (body request) s = (out, tape, s')" "out \<noteq> Blocked"
      "tx_inv (next_tx_id s) (lock_manager s')" "\<forall>k. owner_of (lock_manager s') k \<noteq> Some (next_tx_id s)" by blast
  then obtain result where "handle_txn L J S X T envs tape request s = answer_txn J request result tape s'"
    by (cases out) (auto simp: handle_txn_def)
  with r show ?thesis using answer_txn_one [of J request result tape s'] by auto
qed

theorem txn_request_answered_witness:
  "\<exists>s' m. handle_txn std_ref boost_ref server_up executor_faulty (\<lambda>_. Inr demo_ops) (\<lambda>_. quiet) []
      demo_request sched0 = (Returns (), [], s', [message_json boost_ref m]) \<and> inReplyTo m = Some 3"
  using txn_request_answered [OF _ _ quiet_family.rely_family_axioms, of sched0 boost_ref server_up executor_faulty
      "\<lambda>_. Inr demo_ops" "[]" demo_request]
  by (auto simp: demo_request_def)

end
