(* ===== verification/Node_Process.thy ===== *)
theory Node_Process
  imports Thread_Runs Txn_Handler
begin

text \<open>
  The whole process of a node without peers, as \<open>main.cpp\<close> runs it: the main thread
  reads one line after the other (\<open>Node::run\<close>) and posts the messages to the thread
  pool (\<open>Node::handleMessage\<close>); any number of workers of the pool take posted messages
  and run their handlers at the same time. A worker with a \<open>txn\<close> message executes its
  transaction in the steps of \<open>Concurrent\<close> and then prints the answer of
  \<open>Txn_Handler\<close>; the other handlers take one step. The main thread leaves \<open>Node::run\<close>
  at the end of the input or at an empty line; \<open>main\<close> then returns and destroys the
  node, whose thread pool is stopped: handlers that run are waited for, messages still
  queued are dropped. An exception in the main thread, which \<open>main\<close> does not catch,
  terminates the process at once. The process keeps three histories that nothing reads:
  which worker printed what, which transactions committed and which messages were dropped.
\<close>

section \<open>The process\<close>

datatype main_state = Reading | Returning | Stopped | Terminated

record process =
  main_at :: main_state
  input :: "string list"
  node :: "(handler, TwoPLScheduler) Node"
  workers :: "(Message \<times> thread) list"
  answers :: "(nat \<times> jobject) list"
  commits :: "(nat \<times> Operation list \<times> Results) list"
  dropped :: "(handler \<times> Message) list"

text \<open>What \<open>execute_transaction\<close> returns or throws at the end of its thread.\<close>

fun end_result :: "txn_end \<Rightarrow> Results res" where
  "end_result (Committed rs) = Inr rs"
| "end_result Aborted = Inr []"
| "end_result (Failed e) = Inl e"

text \<open>
  The main thread reads a line and posts its message; it finds no line, or an empty one,
  and leaves the loop; it destroys the thread pool; it fails on a line that is no message
  or has no handler. A worker answers an echo; a worker answers a request that has no
  transaction; a worker begins a transaction; a worker takes a step of its transaction;
  a worker whose transaction has ended prints the answer.
\<close>

inductive proc_step :: "stdlib \<Rightarrow> boost_json \<Rightarrow> executor_api \<Rightarrow> (json list \<Rightarrow> Operation list res) \<Rightarrow>
    (string \<Rightarrow> json res) \<Rightarrow> process \<Rightarrow> process \<Rightarrow> bool" for L J X T parse where
  read_line:
    "main_at p = Reading \<Longrightarrow> input p = line # rest \<Longrightarrow> line \<noteq> [] \<Longrightarrow> parse_Message J parse line = Inr m \<Longrightarrow>
     handleMessage J m (node p) = (Inr (), n) \<Longrightarrow>
     proc_step L J X T parse p (p\<lparr>input := rest, node := n\<rparr>)"
| end_input:
    "main_at p = Reading \<Longrightarrow> input p = [] \<or> input p = [] # rest \<Longrightarrow>
     proc_step L J X T parse p (p\<lparr>main_at := Returning\<rparr>)"
| stop_pool:
    "main_at p = Returning \<Longrightarrow>
     proc_step L J X T parse p
       (p\<lparr>main_at := Stopped, node := (node p)\<lparr>posted := []\<rparr>, dropped := dropped p @ posted (node p)\<rparr>)"
| crash:
    "main_at p = Reading \<Longrightarrow> input p = line # rest \<Longrightarrow> line \<noteq> [] \<Longrightarrow>
     (case parse_Message J parse line of Inl e \<Rightarrow> True | Inr m \<Rightarrow> isl (fst (handleMessage J m (node p)))) \<Longrightarrow>
     proc_step L J X T parse p (p\<lparr>main_at := Terminated\<rparr>)"
| echo:
    "main_at p \<noteq> Terminated \<Longrightarrow> posted (node p) = xs @ (Echo, m) # ys \<Longrightarrow> handle_echo J m = (Inr (), out) \<Longrightarrow>
     proc_step L J X T parse p (p\<lparr>node := (node p)\<lparr>posted := xs @ ys, printed := printed (node p) @ out\<rparr>\<rparr>)"
| refuse:
    "main_at p \<noteq> Terminated \<Longrightarrow> posted (node p) = xs @ (Txn, m) # ys \<Longrightarrow> request_ops J T (body m) = Inl e \<Longrightarrow>
     answer_txn J m (Inl e) [] (app (node p)) = (Returns (), [], s, out) \<Longrightarrow>
     proc_step L J X T parse p
       (p\<lparr>node := (node p)\<lparr>posted := xs @ ys, app := s, printed := printed (node p) @ out\<rparr>\<rparr>)"
| take_txn:
    "main_at p \<noteq> Terminated \<Longrightarrow> posted (node p) = xs @ (Txn, m) # ys \<Longrightarrow> request_ops J T (body m) = Inr ops \<Longrightarrow>
     set ks = op_keys ops \<Longrightarrow> distinct ks \<Longrightarrow> s = app (node p) \<Longrightarrow>
     proc_step L J X T parse p
       (p\<lparr>node := (node p)\<lparr>posted := xs @ ys, app := s\<lparr>next_tx_id := next_tx_id s + 1\<rparr>\<rparr>,
          workers := workers p @ [(m, \<lparr>tx_of = next_tx_id s, prog = ops, phase = Locking ks\<rparr>)]\<rparr>)"
| work:
    "main_at p \<noteq> Terminated \<Longrightarrow> i < length (workers p) \<Longrightarrow> workers p ! i = (m, t) \<Longrightarrow> s = app (node p) \<Longrightarrow>
     thread_step L X (lock_manager s, store s) t = Some ((lm, st), t') \<Longrightarrow>
     proc_step L J X T parse p
       (p\<lparr>node := (node p)\<lparr>app := s\<lparr>lock_manager := lm, store := st\<rparr>\<rparr>,
          workers := (workers p)[i := (m, t')], commits := commits p @ commit_entry i t\<rparr>)"
| answer:
    "main_at p \<noteq> Terminated \<Longrightarrow> i < length (workers p) \<Longrightarrow> workers p ! i = (m, t) \<Longrightarrow> phase t = Ended r \<Longrightarrow> i \<notin> fst ` set (answers p) \<Longrightarrow>
     answer_txn J m (end_result r) [] (app (node p)) = (Returns (), [], s, [out]) \<Longrightarrow>
     proc_step L J X T parse p
       (p\<lparr>node := (node p)\<lparr>app := s, printed := printed (node p) @ [out]\<rparr>, answers := answers p @ [(i, out)]\<rparr>)"

text \<open>The process after the first line, an \<open>init\<close> message that names no other node.\<close>

definition started :: "boost_json \<Rightarrow> (string \<Rightarrow> json res) \<Rightarrow> server_api \<Rightarrow> NodeID \<Rightarrow> string \<Rightarrow> string list \<Rightarrow> process \<Rightarrow> bool" where
  "started J parse S id0 line lines p \<longleftrightarrow>
     run J parse [line] (main_node S (make_scheduler id0 empty_store)) = (Inr (), node p) \<and>
     nodeId (node p) \<noteq> None \<and> peerIds (node p) = [] \<and>
     main_at p = Reading \<and> input p = lines \<and> workers p = [] \<and> answers p = [] \<and> commits p = [] \<and> dropped p = []"

section \<open>The process and the system of its transactions\<close>

definition sys_of :: "process \<Rightarrow> system" where
  "sys_of p = \<lparr>shared = (lock_manager (app (node p)), store (app (node p))), counter = next_tx_id (app (node p)),
     threads = map snd (workers p), history = commits p\<rparr>"

lemma sys_of_simps [simp]:
  "shared (sys_of p) = (lock_manager (app (node p)), store (app (node p)))"
  "counter (sys_of p) = next_tx_id (app (node p))"
  "threads (sys_of p) = map snd (workers p)" "history (sys_of p) = commits p"
  by (simp_all add: sys_of_def)

text \<open>Once initialized, the main thread only posts messages.\<close>

lemma handleMessage_posts:
  assumes "nodeId n \<noteq> None" and "handleMessage J m n = (Inr (), n')"
  obtains h where "messageHandlers n (msg_type m) = Some h" "n' = n\<lparr>posted := posted n @ [(h, m)]\<rparr>"
  using assms by (auto simp: handleMessage_def init_def split: if_splits option.splits)

lemma start_single:
  "start S self [] s = (r, s') \<Longrightarrow>
   lock_manager s' = lock_manager s \<and> store s' = store s \<and> next_tx_id s' = next_tx_id s \<and> coordinator s' = coordinator s"
  by (auto simp: start_def startup_server_def Let_def split: if_splits option.splits)

text \<open>The state of a started process: the two handlers, a fresh scheduler, one line printed.\<close>

lemma started_init:
  assumes "run J parse [line] (main_node S (make_scheduler id0 empty_store)) = (Inr (), n)"
    and "nodeId n \<noteq> None"
  obtains m where "parse_Message J parse line = Inr m" "msg_type m = ''init''"
    "init J m (main_node S (make_scheduler id0 empty_store)) = (Inr (), n)"
proof -
  let ?n0 = "main_node S (make_scheduler id0 empty_store)"
  have n0: "nodeId ?n0 = None"
    by (simp add: main_node_def registerInitHandler_def registerMessageHandler_def make_Node_def)
  have line: "line \<noteq> []" using assms n0 by auto
  obtain m where m: "parse_Message J parse line = Inr m" "handleMessage J m ?n0 = (Inr (), n)"
    using assms(1) line by (auto split: sum.splits prod.splits)
  have "msg_type m = ''init''"
    using m(2) assms(2) n0 by (auto simp: handleMessage_def split: if_splits option.splits)
  with m show ?thesis using that by (simp add: handleMessage_def)
qed

lemma started_node:
  assumes "started J parse S id0 line lines p"
  shows "posted (node p) = []" "length (printed (node p)) = 1" "coordinator (app (node p)) = None"
    and "messageHandlers (node p) = [''echo'' \<mapsto> Echo, ''txn'' \<mapsto> Txn]" "sys_of p = init_system"
proof -
  let ?n0 = "main_node S (make_scheduler id0 empty_store)"
  have run: "run J parse [line] ?n0 = (Inr (), node p)" "nodeId (node p) \<noteq> None" "peerIds (node p) = []"
      "workers p = []" "commits p = []"
    using assms by (simp_all add: started_def)
  obtain m where m: "init J m ?n0 = (Inr (), node p)" by (rule started_init [OF run(1,2)])
  have n0: "nodeId ?n0 = None" "posted ?n0 = []" "printed ?n0 = []" "initHandler ?n0 = [start S]"
      "messageHandlers ?n0 = [''echo'' \<mapsto> Echo, ''txn'' \<mapsto> Txn]" "app ?n0 = make_scheduler id0 empty_store"
    by (simp_all add: main_node_def registerInitHandler_def registerMessageHandler_def make_Node_def fun_upd_twist)
  obtain self peers s b where i:
      "run_init_handlers [start S] self peers (make_scheduler id0 empty_store) = (Inr b, s)"
      "respond J (recipient m) (sender m) (if b then ''init_ok'' else ''error'') [] (msgId m)
         (?n0\<lparr>nodeId := Some self, peerIds := peers, app := s\<rparr>) = (Inr (), node p)"
    using m n0 by (auto simp: init_def Let_def split: sum.splits prod.splits)
  obtain out where "?n0\<lparr>nodeId := Some self, peerIds := peers, app := s, printed := [out]\<rparr> = node p"
    using i(2) n0(3) by (auto simp: respond_def split: sum.splits)
  then have out: "node p = ?n0\<lparr>nodeId := Some self, peerIds := peers, app := s, printed := [out]\<rparr>" by simp
  then have "peers = []" using run(3) by simp
  then obtain r where "start S self [] (make_scheduler id0 empty_store) = (r, s)"
    using i(1) by (auto split: prod.splits sum.splits bool.splits)
  from start_single [OF this] have "lock_manager s = init_lock_manager \<and> store s = empty_store \<and> next_tx_id s = 1 \<and>
      coordinator s = None"
    by (simp add: make_scheduler_def)
  with out n0 run(4,5) show "posted (node p) = []" "length (printed (node p)) = 1" "coordinator (app (node p)) = None"
      "messageHandlers (node p) = [''echo'' \<mapsto> Echo, ''txn'' \<mapsto> Txn]" "sys_of p = init_system"
    by (simp_all add: sys_of_def init_system_def)
qed


inductive_cases proc_stepE [elim?]: "proc_step L J X T parse p p'"

lemma answer_txn_app:
  assumes "answer_txn J m result tape s = (Returns (), tape', s', out)"
  shows "lock_manager s' = lock_manager s \<and> store s' = store s \<and> next_tx_id s' = next_tx_id s \<and>
    coordinator s' = coordinator s"
  using answer_txn_one [of J m result tape s] assms by auto

text \<open>Every step of the process is a step of the system of its transactions, or leaves it alone.\<close>

lemma proc_step_sys:
  assumes "proc_step L J X T parse p p'" and "nodeId (node p) \<noteq> None"
  shows "sys_of p' = sys_of p \<or> sys_step L X (sys_of p) (sys_of p')"
  using assms(1)
proof (cases rule: proc_step.cases)
  case (read_line line rest m n)
  obtain h where "n = (node p)\<lparr>posted := posted (node p) @ [(h, m)]\<rparr>"
    by (rule handleMessage_posts [OF assms(2) read_line(6)])
  with read_line show ?thesis by (simp add: sys_of_def)
next
  case (end_input rest)
  then show ?thesis by (simp add: sys_of_def)
next
  case stop_pool
  then show ?thesis by (simp add: sys_of_def)
next
  case (crash line rest)
  then show ?thesis by (simp add: sys_of_def)
next
  case (echo xs m ys out)
  then show ?thesis by (simp add: sys_of_def)
next
  case (refuse xs m ys e s out)
  with answer_txn_app [OF refuse(5)] show ?thesis by (simp add: sys_of_def)
next
  case (take_txn xs m ys ops ks s)
  then show ?thesis using sys_step.begin_txn [OF take_txn(5,6), of L X "sys_of p"] by (simp add: sys_of_def)
next
  case (work i m t s lm st t')
  then show ?thesis
    using sys_step.run_thread [of i "sys_of p" L X "(lm, st)" t'] by (simp add: sys_of_def map_update)
next
  case (answer i m t r s out)
  with answer_txn_app [OF answer(7)] show ?thesis by (simp add: sys_of_def)
qed

text \<open>
  What holds of every state: the handlers are the two of \<open>main\<close>, every worker runs the
  transaction of its request, every worker answers at most once, when its transaction has
  ended, every line but the one printed at the start answers a line that was read, and
  messages are dropped by the stop of the pool alone, which leaves none posted.
\<close>

definition requests_ok :: "boost_json \<Rightarrow> (json list \<Rightarrow> Operation list res) \<Rightarrow> (Message \<times> thread) list \<Rightarrow> bool" where
  "requests_ok J T ws \<longleftrightarrow> (\<forall>(m, t) \<in> set ws. request_ops J T (body m) = Inr (prog t))"

definition answers_ok :: "boost_json \<Rightarrow> (Message \<times> thread) list \<Rightarrow> (nat \<times> jobject) list \<Rightarrow> jobject list \<Rightarrow> bool" where
  "answers_ok J ws as outs \<longleftrightarrow> distinct (map fst as) \<and> snd ` set as \<subseteq> set outs \<and>
     (\<forall>(i, out) \<in> set as. i < length ws \<and>
        (\<exists>r s s'. phase (snd (ws ! i)) = Ended r \<and>
           answer_txn J (fst (ws ! i)) (end_result r) [] s = (Returns (), [], s', [out])))"

definition proc_inv :: "boost_json \<Rightarrow> (json list \<Rightarrow> Operation list res) \<Rightarrow> string list \<Rightarrow> process \<Rightarrow> bool" where
  "proc_inv J T lines p \<longleftrightarrow>
     nodeId (node p) \<noteq> None \<and> messageHandlers (node p) = [''echo'' \<mapsto> Echo, ''txn'' \<mapsto> Txn] \<and>
     coordinator (app (node p)) = None \<and> requests_ok J T (workers p) \<and>
     answers_ok J (workers p) (answers p) (printed (node p)) \<and> length (answers p) < length (printed (node p)) \<and>
     (dropped p \<noteq> [] \<longrightarrow> main_at p = Stopped) \<and> (main_at p = Stopped \<longrightarrow> posted (node p) = []) \<and>
     (\<exists>k. length lines = k + length (input p) \<and>
        length (printed (node p)) + length (posted (node p)) + length (dropped p) + length (workers p) =
          Suc k + length (answers p))"

lemma answers_ok_print: "answers_ok J ws as outs \<Longrightarrow> answers_ok J ws as (outs @ new)"
  by (auto simp: answers_ok_def)

lemma answers_ok_begin: "answers_ok J ws as outs \<Longrightarrow> answers_ok J (ws @ [w]) as outs"
  by (fastforce simp: answers_ok_def nth_append)

lemma answers_ok_work:
  assumes "answers_ok J ws as outs" and "\<not> ended (phase (snd (ws ! i)))"
  shows "answers_ok J (ws[i := w]) as outs"
proof -
  have "j \<noteq> i" if "phase (snd (ws ! j)) = Ended r" for j r using that assms(2) by (auto simp: ended_def)
  with assms(1) show ?thesis unfolding answers_ok_def by (simp add: case_prod_beta') (metis nth_list_update_neq)
qed

lemma answers_ok_answer:
  assumes "answers_ok J ws as outs" and "i < length ws" "phase (snd (ws ! i)) = Ended r" "i \<notin> fst ` set as"
    and "answer_txn J (fst (ws ! i)) (end_result r) [] s = (Returns (), [], s', [out])"
  shows "answers_ok J ws (as @ [(i, out)]) (outs @ [out])"
  using assms by (auto simp: answers_ok_def)

lemma proc_inv_started: "started J parse S id0 line lines p \<Longrightarrow> proc_inv J T lines p"
  using started_node [of J parse S id0 line lines p] by (simp add: proc_inv_def started_def requests_ok_def answers_ok_def)

lemma handle_echo_one: "handle_echo J m = (Inr (), out) \<Longrightarrow> length out = 1"
  by (auto simp: handle_echo_def split: sum.splits)

lemma answer_txn_length: "answer_txn J m result tape s = (Returns (), tape', s', out) \<Longrightarrow> length out = 1"
  using answer_txn_one [of J m result tape s] by auto

lemma proc_inv_step:
  assumes "proc_step L J X T parse p p'" and inv: "proc_inv J T lines p"
  shows "proc_inv J T lines p'"
  using assms(1)
proof (cases rule: proc_step.cases)
  case (read_line line rest m n)
  have "nodeId (node p) \<noteq> None" using inv by (simp add: proc_inv_def)
  then obtain h where "n = (node p)\<lparr>posted := posted (node p) @ [(h, m)]\<rparr>"
    by (rule handleMessage_posts [OF _ read_line(6)])
  with read_line inv show ?thesis by (auto simp: proc_inv_def)
next
  case (end_input rest)
  with inv show ?thesis by (auto simp: proc_inv_def)
next
  case stop_pool
  with inv show ?thesis by (auto simp: proc_inv_def)
next
  case (crash line rest)
  with inv show ?thesis by (auto simp: proc_inv_def)
next
  case (echo xs m ys out)
  with inv handle_echo_one [OF echo(4)] show ?thesis by (auto simp: proc_inv_def answers_ok_print)
next
  case (refuse xs m ys e s out)
  with inv answer_txn_app [OF refuse(5)] answer_txn_length [OF refuse(5)] show ?thesis
    by (auto simp: proc_inv_def answers_ok_print)
next
  case (take_txn xs m ys ops ks s)
  with inv show ?thesis by (auto simp: proc_inv_def answers_ok_begin requests_ok_def)
next
  case (work i m t s lm st t')
  obtain q where t': "t' = t\<lparr>phase := q\<rparr>" by (rule thread_step_frame [OF work(6)])
  have end_t: "\<not> ended (phase t)" using thread_progress [of L X "(lock_manager s, store s)" t] work(6) by simp
  have "(m, t) \<in> set (workers p)" using work(3,4) nth_mem by metis
  then have "requests_ok J T ((workers p)[i := (m, t')])"
    using inv t' by (auto simp: proc_inv_def requests_ok_def dest!: set_update_subset_insert [THEN subsetD])
  with work(1,4,5) inv end_t show ?thesis by (auto simp: proc_inv_def answers_ok_work)
next
  case (answer i m t r s out)
  with inv answer_txn_app [OF answer(7)] answers_ok_answer [of J "workers p" "answers p" "printed (node p)" i r]
  show ?thesis by (auto simp: proc_inv_def)
qed


definition proc_reachable :: "stdlib \<Rightarrow> boost_json \<Rightarrow> executor_api \<Rightarrow> (json list \<Rightarrow> Operation list res) \<Rightarrow>
    (string \<Rightarrow> json res) \<Rightarrow> string list \<Rightarrow> process \<Rightarrow> bool" where
  "proc_reachable L J X T parse lines p \<longleftrightarrow>
     (\<exists>S id0 line p0. started J parse S id0 line lines p0 \<and> (proc_step L J X T parse)\<^sup>*\<^sup>* p0 p)"

lemma proc_reachable_inv:
  assumes "proc_reachable L J X T parse lines p"
  shows "proc_inv J T lines p" and "reachable L X (sys_of p)"
proof -
  obtain S id0 line p0 where p0: "started J parse S id0 line lines p0" and run: "(proc_step L J X T parse)\<^sup>*\<^sup>* p0 p"
    using assms unfolding proc_reachable_def by blast
  from run have "proc_inv J T lines p \<and> reachable L X (sys_of p)"
  proof induction
    case base
    show ?case
      using proc_inv_started [OF p0] started_node(5) [OF p0] reachable.start [of L X] by (simp only:)
  next
    case (step p q)
    then have "nodeId (node p) \<noteq> None" by (simp add: proc_inv_def)
    with step show ?case
      using proc_step_sys [OF step.hyps(2)] proc_inv_step [OF step.hyps(2)] reachable.step by metis
  qed
  then show "proc_inv J T lines p" "reachable L X (sys_of p)" by blast+
qed

section \<open>Termination and progress\<close>

definition work_left :: "process \<Rightarrow> nat" where
  "work_left p = (\<Sum>w \<leftarrow> workers p. thread_left (shared (sys_of p)) (snd w)) + (length (workers p) - length (answers p))"

lemma answers_le: "answers_ok J ws as outs \<Longrightarrow> length as \<le> length ws"
proof -
  assume ok: "answers_ok J ws as outs"
  then have "fst ` set as \<subseteq> {..< length ws}" by (auto simp: answers_ok_def)
  moreover have "card (fst ` set as) = length as"
    using ok by (metis answers_ok_def distinct_card length_map list.set_map)
  ultimately show ?thesis by (metis card_lessThan card_mono finite_lessThan)
qed

text \<open>
  Every step brings the main thread nearer to its end or uses up input, posted messages
  or work, in this order of priority.
\<close>

primrec main_left :: "main_state \<Rightarrow> nat" where
  "main_left Reading = 3"
| "main_left Returning = 2"
| "main_left Stopped = 1"
| "main_left Terminated = 0"

definition proc_order :: "(process \<times> process) set" where
  "proc_order = measures [\<lambda>p. main_left (main_at p), \<lambda>p. length (input p), \<lambda>p. length (posted (node p)), work_left]"

lemma work_left_work:
  assumes std: "std_ok L" and inv: "locks_inv (sys_of p)" "length (workers p) \<le> 2 ^ 64"
    and i: "i < length (workers p)" "workers p ! i = (m, t)"
    and step: "thread_step L X (shared (sys_of p)) t = Some (g, t')"
  shows "(\<Sum>w \<leftarrow> (workers p)[i := (m, t')]. thread_left g (snd w)) <
    (\<Sum>w \<leftarrow> workers p. thread_left (shared (sys_of p)) (snd w))"
proof (rule sum_list_update_less [OF i(1)])
  show "thread_left g (snd (m, t')) < thread_left (shared (sys_of p)) (snd (workers p ! i))"
    using thread_step_left [OF std step] i(2) by simp
  show "thread_left g (snd (workers p ! j)) = thread_left (shared (sys_of p)) (snd (workers p ! j))"
    if "j < length (workers p)" "j \<noteq> i" for j
  proof -
    have "distinct (map tx_of (map snd (workers p)))"
      using locks_inv_names [OF inv(1)] inv(2) by simp
    then have "tx_of (snd (workers p ! j)) \<noteq> tx_of t"
      using that i by (force simp: distinct_conv_nth)
    then show ?thesis using thread_left_other [OF step] by simp
  qed
qed

lemma proc_step_order:
  assumes "proc_step L J X T parse p p'" and "std_ok L" and inv: "proc_inv J T lines p" "locks_inv (sys_of p)"
    and len: "length (workers p) \<le> 2 ^ 64"
  shows "(p', p) \<in> proc_order"
  using assms(1)
proof (cases rule: proc_step.cases)
  case (work i m t s lm st t')
  have "thread_step L X (shared (sys_of p)) t = Some ((lm, st), t')" using work by simp
  from work_left_work [OF assms(2) inv(2) len work(3,4) this] work(1) show ?thesis
    by (simp add: proc_order_def work_left_def)
next
  case (answer i m t r s out)
  have "answers_ok J (workers p) (answers p @ [(i, out)]) (printed (node p) @ [out])"
    using inv(1) answer answers_ok_answer [of J "workers p" "answers p" "printed (node p)" i r] by (simp add: proc_inv_def)
  from answers_le [OF this] answer(1) answer_txn_app [OF answer(7)] show ?thesis
    by (simp add: proc_order_def work_left_def)
qed (auto simp: proc_order_def)

text \<open>
  As long as the process lives, a worker can go on when a message is posted or a worker
  has not answered, without the main thread; and the main thread can go on until it has
  stopped the pool.
\<close>

lemma proc_progress:
  assumes "posted (node p) \<noteq> [] \<or> length (answers p) < length (workers p)" and live: "main_at p \<noteq> Terminated"
  shows "\<exists>p'. proc_step L J X T parse p p' \<and> main_at p' = main_at p \<and> input p' = input p"
proof (cases "posted (node p)")
  case (Cons x ys)
  then obtain h m where x: "posted (node p) = [] @ (h, m) # ys" by (cases x) auto
  show ?thesis
  proof (cases h)
    case Echo
    obtain out where "handle_echo J m = (Inr (), out)" by (simp add: handle_echo_def make_Message_def Let_def)
    note step = proc_step.echo [OF live x [unfolded Echo] this]
    show ?thesis by (intro exI conjI, rule step) simp_all
  next
    case Txn
    show ?thesis
    proof (cases "request_ops J T (body m)")
      case (Inl e)
      obtain s out where "answer_txn J m (Inl e) [] (app (node p)) = (Returns (), [], s, out)"
        using answer_txn_one [of J m "Inl e" "[]" "app (node p)"] by blast
      note step = proc_step.refuse [OF live x [unfolded Txn] Inl this]
      show ?thesis by (intro exI conjI, rule step) simp_all
    next
      case (Inr ops)
      obtain ks where ks: "set ks = op_keys ops" "distinct ks"
        using finite_distinct_list [of "op_keys ops"] by auto
      note step = proc_step.take_txn [OF live x [unfolded Txn] Inr ks refl]
      show ?thesis by (intro exI conjI, rule step) simp_all
    qed
  qed
next
  case Nil
  then have less: "length (answers p) < length (workers p)" using assms(1) by simp
  have "card (fst ` set (answers p)) \<le> length (answers p)" by (metis card_length length_map list.set_map)
  then have "\<not> {..< length (workers p)} \<subseteq> fst ` set (answers p)"
    using less card_mono [of "fst ` set (answers p)" "{..< length (workers p)}"] by auto
  then obtain i where i: "i < length (workers p)" "i \<notin> fst ` set (answers p)" by auto
  obtain m t where mt: "workers p ! i = (m, t)" by (cases "workers p ! i")
  show ?thesis
  proof (cases "ended (phase t)")
    case True
    then obtain r where r: "phase t = Ended r" by (auto simp: ended_def split: phase.splits)
    obtain s out where "answer_txn J m (end_result r) [] (app (node p)) = (Returns (), [], s, [out])"
      using answer_txn_one [of J m "end_result r" "[]" "app (node p)"] by blast
    note step = proc_step.answer [OF live i(1) mt r i(2) this]
    show ?thesis by (intro exI conjI, rule step) simp_all
  next
    case False
    then obtain lm st t' where "thread_step L X (lock_manager (app (node p)), store (app (node p))) t = Some ((lm, st), t')"
      using thread_progress [of L X "(lock_manager (app (node p)), store (app (node p)))" t] by auto
    note step = proc_step.work [OF live i(1) mt refl this]
    show ?thesis by (intro exI conjI, rule step) simp_all
  qed
qed

lemma isl_iff_unit: "isl r \<longleftrightarrow> r \<noteq> Inr ()"
  by (cases r) auto

lemma main_progress:
  assumes "main_at p = Reading \<or> main_at p = Returning"
  shows "\<exists>p'. proc_step L J X T parse p p'"
proof (cases "main_at p = Returning")
  case True
  from proc_step.stop_pool [OF this] show ?thesis by blast
next
  case False
  with assms have reading: "main_at p = Reading" by simp
  show ?thesis
  proof (cases "input p = [] \<or> (\<exists>rest. input p = [] # rest)")
    case True
    with proc_step.end_input [OF reading] show ?thesis by blast
  next
    case False
    then obtain line rest where line: "input p = line # rest" "line \<noteq> []" by (cases "input p") auto
    show ?thesis
    proof (cases "\<exists>m n. parse_Message J parse line = Inr m \<and> handleMessage J m (node p) = (Inr (), n)")
      case True
      with proc_step.read_line [OF reading line] show ?thesis by blast
    next
      case False
      then have "case parse_Message J parse line of Inl e \<Rightarrow> True | Inr m \<Rightarrow> isl (fst (handleMessage J m (node p)))"
        by (auto split: sum.split prod.split) (metis isl_iff_unit prod.collapse)
      from proc_step.crash [OF reading line this] show ?thesis by blast
    qed
  qed
qed


section \<open>Runs\<close>

text \<open>A worker that runs its transaction while the others pause, and one request from start to end.\<close>

lemma alone_process:
  assumes "alone L X g t g' t'" and "shared (sys_of p) = g" and "i < length (workers p)" and "workers p ! i = (m, t)"
    and "main_at p \<noteq> Terminated"
  shows "\<exists>p'. (proc_step L J X T parse)\<^sup>*\<^sup>* p p' \<and> shared (sys_of p') = g' \<and> input p' = input p \<and>
    workers p' = (workers p)[i := (m, t')] \<and> answers p' = answers p \<and> posted (node p') = posted (node p) \<and> main_at p' = main_at p"
  using assms
proof (induction arbitrary: p rule: alone.induct)
  case (alone_refl g t)
  then show ?case by (intro exI [of _ p]) (metis list_update_id rtranclp.rtrancl_refl)
next
  case (alone_step g t g1 t1 g' t')
  obtain lm st where g1: "g1 = (lm, st)" by (cases g1)
  let ?p1 = "p\<lparr>node := (node p)\<lparr>app := (app (node p))\<lparr>lock_manager := lm, store := st\<rparr>\<rparr>,
      workers := (workers p)[i := (m, t1)], commits := commits p @ commit_entry i t\<rparr>"
  have step: "proc_step L J X T parse p ?p1"
    using alone_step.hyps(1) alone_step.prems g1 by (intro proc_step.work [OF _ _ _ refl]) auto
  have "shared (sys_of ?p1) = g1" "i < length (workers ?p1)" "workers ?p1 ! i = (m, t1)" "main_at ?p1 \<noteq> Terminated"
    using g1 alone_step.prems by simp_all
  from alone_step.IH [OF this] step show ?case by (auto dest: converse_rtranclp_into_rtranclp)
qed

lemma alone_fresh:
  assumes "executor_ok L X" and "set ks = op_keys ops"
  shows "\<exists>g. alone L X (init_lock_manager, empty_store) \<lparr>tx_of = tx, prog = ops, phase = Locking ks\<rparr> g
    \<lparr>tx_of = tx, prog = ops, phase = Ended (Committed (fst (run_ops (kv_get L empty_store) ops)))\<rparr>"
proof -
  obtain b lm where a: "acquire_each (\<lambda>k. acquire quiet k tx) ks init_lock_manager = (b, lm)" by force
  have b: "b" using acquire_each_can_lock [OF assms(2), of tx init_lock_manager] a by (simp add: can_lock_def list_all_iff)
  with a show ?thesis
    using alone_transaction [OF assms(1) kv_wf_empty, of "\<lparr>tx_of = tx, prog = ops, phase = Locking ks\<rparr>" ks
        init_lock_manager b lm] by auto
qed

lemma request_run:
  assumes "started J parse S id0 line [l] p0" and "std_ok L" "executor_ok L X"
    and "l \<noteq> []" "parse_Message J parse l = Inr m" "msg_type m = ''txn''" "request_ops J T (body m) = Inr ops"
  shows "\<exists>p out r. proc_reachable L J X T parse [l] p \<and> answers p = [(0, out)] \<and>
    workers p = [(m, \<lparr>tx_of = 1, prog = ops, phase = Ended (Committed r)\<rparr>)]"
proof -
  note n = started_node [OF assms(1)]
  have p0: "input p0 = [l]" "workers p0 = []" "answers p0 = []" "nodeId (node p0) \<noteq> None" "main_at p0 = Reading"
    using assms(1) by (simp_all add: started_def)
  let ?p1 = "p0\<lparr>input := [], node := (node p0)\<lparr>posted := [(Txn, m)]\<rparr>\<rparr>"
  have "handleMessage J m (node p0) = (Inr (), (node p0)\<lparr>posted := [(Txn, m)]\<rparr>)"
    using assms(6) n by (simp add: handleMessage_def)
  then have s1: "proc_step L J X T parse p0 ?p1" using p0 assms(4,5) by (intro proc_step.read_line) auto
  obtain ks where ks: "set ks = op_keys ops" "distinct ks" using finite_distinct_list [of "op_keys ops"] by auto
  let ?s = "app (node p0)"
  have app: "next_tx_id ?s = 1" "lock_manager ?s = init_lock_manager" "store ?s = empty_store"
    using n(5) by (simp_all add: sys_of_def init_system_def)
  let ?t = "\<lparr>tx_of = 1, prog = ops, phase = Locking ks\<rparr>"
  let ?p2 = "?p1\<lparr>node := (node ?p1)\<lparr>posted := [], app := ?s\<lparr>next_tx_id := 2\<rparr>\<rparr>, workers := [(m, ?t)]\<rparr>"
  have s2: "proc_step L J X T parse ?p1 ?p2"
    using proc_step.take_txn [of ?p1 "[]" m "[]" J T ops ks ?s L X parse] assms(7) ks app p0 by simp
  let ?r = "fst (run_ops (kv_get L empty_store) ops)"
  obtain g where "alone L X (init_lock_manager, empty_store) ?t g (?t\<lparr>phase := Ended (Committed ?r)\<rparr>)"
    using alone_fresh [OF assms(3) ks(1), of 1] by auto
  from alone_process [OF this, of ?p2 0 m J T parse] app p0(3,5) obtain p3 where
    s3: "(proc_step L J X T parse)\<^sup>*\<^sup>* ?p2 p3" "workers p3 = [(m, ?t\<lparr>phase := Ended (Committed ?r)\<rparr>)]" "answers p3 = []" "main_at p3 = Reading"
    by auto
  obtain s out where "answer_txn J m (end_result (Committed ?r)) [] (app (node p3)) = (Returns (), [], s, [out])"
    using answer_txn_one [of J m "end_result (Committed ?r)" "[]" "app (node p3)"] by blast
  with s3 have s4: "proc_step L J X T parse p3
      (p3\<lparr>node := (node p3)\<lparr>app := s, printed := printed (node p3) @ [out]\<rparr>, answers := answers p3 @ [(0, out)]\<rparr>)"
    by (intro proc_step.answer [of p3 0 m _ "Committed ?r"]) auto
  let ?p4 = "p3\<lparr>node := (node p3)\<lparr>app := s, printed := printed (node p3) @ [out]\<rparr>, answers := answers p3 @ [(0, out)]\<rparr>"
  have "(proc_step L J X T parse)\<^sup>*\<^sup>* p0 ?p4"
    using s1 s2 s3(1) s4 by (meson converse_rtranclp_into_rtranclp rtranclp.rtrancl_into_rtrancl)
  then have "proc_reachable L J X T parse [l] ?p4" using assms(1) unfolding proc_reachable_def by blast
  with s3 show ?thesis by (intro exI [of _ ?p4]) auto
qed

section \<open>Properties\<close>

text \<open>
  What the answer to a \<open>txn\<close> request tells its client, given the serial order of the
  committed transactions: either the transaction stands in that order and the answer is
  the handler's reply to the results it has at its place there; or it does not, because
  it aborted, and the answer is the handler's reply to no results at all. For a request
  in the canonical encoding both replies are of type \<open>txn_ok\<close>: the first carries the
  reads at the transaction's place, the second the operations as they came.
\<close>

definition told :: "Message \<Rightarrow> json list \<Rightarrow> bool" where
  "told m vals \<longleftrightarrow> msg_type m = ''txn_ok'' \<and> map_of (body m) ''txn'' = Some (JArray vals)"

definition reply_to :: "boost_json \<Rightarrow> Message \<Rightarrow> Operation list \<Rightarrow> Results \<Rightarrow> json list \<Rightarrow> jobject \<Rightarrow> bool" where
  "reply_to J request ops rs vals out \<longleftrightarrow>
     (\<exists>m s s'. answer_txn J request (Inr rs) [] s = (Returns (), [], s', [out]) \<and> out = message_json J m \<and>
        recipient m = sender request \<and> inReplyTo m = msgId request \<and>
        (map_of (body request) ''txn'' = Some (JArray (map op_json ops)) \<longrightarrow> told m vals))"

definition reply_serial :: "boost_json \<Rightarrow> (nat \<times> Operation list \<times> Results) list \<Rightarrow> nat \<Rightarrow> Message \<Rightarrow>
    Operation list \<Rightarrow> jobject \<Rightarrow> bool" where
  "reply_serial J h i request ops out \<longleftrightarrow>
     (\<exists>h1 h2 rs. h = h1 @ (i, ops, rs) # h2 \<and> rs = fst (run_ops (serial_state Map.empty h1) ops) \<and>
        reply_to J request ops rs (filled (serial_state Map.empty h1) ops) out) \<or>
     i \<notin> fst ` set h \<and> reply_to J request ops [] (map op_json ops) out"

lemma answer_reply_to:
  assumes "boost_ok J" and ans: "answer_txn J request (Inr rs) [] s = (Returns (), [], s', [out])"
    and vals: "reply_ops J (map op_json ops) rs = Inr vals"
  shows "reply_to J request ops rs vals out"
proof (cases "map_of (body request) ''txn'' = Some (JArray (map op_json ops))")
  case True
  from answer_txn_returns [OF assms(1) True vals] ans show ?thesis by (fastforce simp: reply_to_def told_def)
next
  case False
  with answer_txn_one [of J request "Inr rs" "[]" s] ans show ?thesis by (fastforce simp: reply_to_def)
qed

lemma serial_nth:
  "serial m (h1 @ (i, ops, rs) # h2) \<Longrightarrow> rs = fst (run_ops (serial_state m h1) ops)"
  by (simp add: serial_append)

lemma answer_serial:
  assumes "boost_ok J" and "sys_inv L (sys_of p)" and "answers_ok J (workers p) (answers p) (printed (node p))"
    and "(i, out) \<in> set (answers p)"
  shows "reply_serial J (commits p) i (fst (workers p ! i)) (prog (snd (workers p ! i))) out"
proof -
  obtain m t where w: "workers p ! i = (m, t)" by (cases "workers p ! i")
  obtain r s s' where i: "i < length (workers p)" and r: "phase t = Ended r"
    and ans: "answer_txn J m (end_result r) [] s = (Returns (), [], s', [out])"
    using assms(3,4) w by (fastforce simp: answers_ok_def)
  have hist: "history_inv (commits p) (map snd (workers p))" "serial Map.empty (commits p)"
    using assms(2) by (simp_all add: sys_inv_def)
  show ?thesis
  proof (cases r)
    case (Committed rs)
    have "(i, prog t, rs) \<in> set (commits p)"
      using hist(1) i w r Committed by (simp add: history_inv_def result_of_def)
    then obtain h1 h2 where h: "commits p = h1 @ (i, prog t, rs) # h2" by (meson split_list)
    then have rs: "rs = fst (run_ops (serial_state Map.empty h1) (prog t))" using serial_nth hist(2) by metis
    have "reply_to J m (prog t) rs (filled (serial_state Map.empty h1) (prog t)) out"
      using ans Committed reply_ops_filled [OF assms(1)] rs by (intro answer_reply_to [OF assms(1)]) simp_all
    with h rs w show ?thesis by (auto simp: reply_serial_def)
  next
    case Aborted
    have "i \<notin> fst ` set (commits p)"
      using hist(1) i w r Aborted by (auto simp: history_inv_def result_of_def)
    with answer_reply_to [OF assms(1) _ reply_ops_none [OF assms(1)], of m s s' out] ans Aborted w show ?thesis
      by (simp add: reply_serial_def)
  next
    case (Failed e)
    then show ?thesis using hist(1) i w r by (auto simp: history_inv_def result_of_def)
  qed
qed

lemma workers_le: "proc_reachable L J X T parse lines p \<Longrightarrow> length (workers p) \<le> length lines"
  using proc_reachable_inv(1) [of L J X T parse lines p] by (auto simp: proc_inv_def)

lemma proc_reachable_sys_inv:
  assumes "std_ok L" "executor_ok L X" "proc_reachable L J X T parse lines p" "length lines \<le> 2 ^ 64"
  shows "sys_inv L (sys_of p)" and "length (workers p) \<le> 2 ^ 64"
  using reachable_sys_inv [OF assms(1,2) proc_reachable_inv(2) [OF assms(3)]] workers_le [OF assms(3)] assms(4)
  by simp_all

lemma proc_reachable_order:
  assumes "std_ok L" "executor_ok L X" "length lines \<le> 2 ^ 64"
    and "proc_step L J X T parse p p'" "proc_reachable L J X T parse lines p"
  shows "(p', p) \<in> proc_order"
  using proc_step_order [OF assms(4,1) proc_reachable_inv(1) [OF assms(5)]] proc_reachable_sys_inv [OF assms(1,2,5,3)]
  by (simp add: sys_inv_def)

lemma wf_proc_order: "wf proc_order"
  by (simp add: proc_order_def)

text \<open>A concrete process: one client sends an append and two reads.\<close>

definition demo_parse :: "string \<Rightarrow> json res" where
  "demo_parse line =
     Inr (JObject (message_json boost_ref
       (if line = ''init'' then demo_init\<lparr>body :=
          [(''type'', JString ''init''), (''node_id'', JString ''n1''), (''node_ids'', JArray [JString ''n1''])]\<rparr>
        else demo_request)))"

definition demo_process :: process where
  "demo_process = \<lparr>main_at = Reading, input = [''txn''],
     node = snd (run boost_ref demo_parse [''init''] (main_node server_up (make_scheduler 0 empty_store))),
     workers = [], answers = [], commits = [], dropped = []\<rparr>"

lemma demo_parse_Message: "parse_Message boost_ref demo_parse ''txn'' = Inr demo_request"
  by (simp add: parse_Message_def demo_parse_def member_c_str_def demo_request_def c_str_def optional_int_def)

lemma demo_started: "started boost_ref demo_parse server_up 0 ''init'' [''txn''] demo_process"
  unfolding started_def demo_process_def
  by (simp add: parse_Message_def demo_parse_def member_c_str_def demo_init_def c_str_def optional_int_def
    handleMessage_def init_def main_node_def registerInitHandler_def registerMessageHandler_def make_Node_def Let_def
    respond_def make_Message_def start_def from_chars_u16_def is_digit_def decimal_def startup_server_def)

lemma demo_served:
  "\<exists>p out r. proc_reachable std_ref boost_ref (executor_ref std_ref) (\<lambda>_. Inr demo_ops) demo_parse [''txn''] p \<and>
     answers p = [(0, out)] \<and> workers p = [(demo_request, \<lparr>tx_of = 1, prog = demo_ops, phase = Ended (Committed r)\<rparr>)]"
  by (rule request_run [OF demo_started std_ref_ok executor_ref_ok _ demo_parse_Message])
     (simp_all add: demo_request_def request_ops_def)

text \<open>
  C1 (answers against a serial execution). However the main thread and the workers of
  the thread pool of a node without peers are interleaved: the committed transactions
  are serial in the order of their commits, every worker answers at most once, to the
  sender of its request, and every answer is the handler's reply to what the transaction
  reads at its place in that serial order, or, for a transaction that aborted and is not
  in that order, the handler's reply to an empty list of results. For canonical requests
  this second reply is a \<open>txn_ok\<close> with the request's own operations as well: the client
  is not told that its transaction aborted.
\<close>

theorem replies_serializable:
  assumes "boost_ok J" "std_ok L" "executor_ok L X" "proc_reachable L J X T parse lines p" "length lines \<le> 2 ^ 64"
  shows "serial Map.empty (commits p) \<and> distinct (map fst (answers p)) \<and>
    (\<forall>(i, out) \<in> set (answers p). out \<in> set (printed (node p)) \<and> i < length (workers p) \<and>
       request_ops J T (body (fst (workers p ! i))) = Inr (prog (snd (workers p ! i))) \<and>
       reply_serial J (commits p) i (fst (workers p ! i)) (prog (snd (workers p ! i))) out)"
proof -
  have inv: "sys_inv L (sys_of p)" using assms(2-5) by (rule proc_reachable_sys_inv(1))
  have ok: "answers_ok J (workers p) (answers p) (printed (node p))" "requests_ok J T (workers p)"
    using proc_reachable_inv(1) [OF assms(4)] by (simp_all add: proc_inv_def)
  have "out \<in> set (printed (node p)) \<and> i < length (workers p) \<and>
      request_ops J T (body (fst (workers p ! i))) = Inr (prog (snd (workers p ! i)))" if "(i, out) \<in> set (answers p)" for i out
  proof -
    have "i < length (workers p)" "out \<in> set (printed (node p))" using ok(1) that by (force simp: answers_ok_def)+
    moreover from this(1) have "workers p ! i \<in> set (workers p)" by simp
    ultimately show ?thesis using ok(2) by (auto simp: requests_ok_def case_prod_beta')
  qed
  with inv ok show ?thesis
    using answer_serial [OF assms(1) inv ok(1)] by (auto simp: sys_inv_def answers_ok_def)
qed

theorem replies_serializable_witness:
  "\<exists>(p :: process) out. answers p = [(0, out)] \<and> serial Map.empty (commits p) \<and> 0 \<in> fst ` set (commits p) \<and>
     reply_serial boost_ref (commits p) 0 demo_request demo_ops out"
proof -
  obtain p out r where p: "proc_reachable std_ref boost_ref (executor_ref std_ref) (\<lambda>_. Inr demo_ops) demo_parse [''txn''] p"
      "answers p = [(0, out)]" "workers p = [(demo_request, \<lparr>tx_of = 1, prog = demo_ops, phase = Ended (Committed r)\<rparr>)]"
    using demo_served by blast
  have "(0, demo_ops, r) \<in> set (commits p)"
    using proc_reachable_sys_inv(1) [OF std_ref_ok executor_ref_ok p(1)] p(3)
    by (simp add: sys_inv_def history_inv_def result_of_def)
  then have "0 \<in> fst ` set (commits p)" by force
  with p replies_serializable [OF boost_ref_ok std_ref_ok executor_ref_ok p(1)] show ?thesis
    by (intro exI [of _ p] exI [of _ out]) simp
qed

text \<open>
  C7 (the process always comes to rest). No run of the process goes on for ever, for
  any interleaving: every step uses up a line of input, a posted message or a bounded
  amount of work of a transaction.
\<close>

theorem process_terminates:
  assumes "std_ok L" "executor_ok L X" "length lines \<le> 2 ^ 64"
  shows "wf {(p', p). proc_step L J X T parse p p' \<and> proc_reachable L J X T parse lines p}"
  using proc_reachable_order [OF assms] by (intro wf_subset [OF wf_proc_order]) blast

theorem process_terminates_witness:
  "wf {(p', p). proc_step std_ref boost_ref (executor_ref std_ref) (\<lambda>_. Inr demo_ops) demo_parse p p' \<and>
     proc_reachable std_ref boost_ref (executor_ref std_ref) (\<lambda>_. Inr demo_ops) demo_parse [''txn''] p}"
  by (rule process_terminates [OF std_ref_ok executor_ref_ok]) simp

text \<open>
  A request that is read just before the end of the input can be dropped: the pool is
  stopped while the message is queued, and no worker ever takes it.
\<close>

lemma queued_request_dropped:
  "\<exists>p. proc_reachable std_ref boost_ref (executor_ref std_ref) (\<lambda>_. Inr demo_ops) demo_parse [''txn''] p \<and>
     main_at p = Stopped \<and> input p = [] \<and> workers p = [] \<and> posted (node p) = [] \<and> dropped p = [(Txn, demo_request)]"
proof -
  let ?step = "proc_step std_ref boost_ref (executor_ref std_ref) (\<lambda>_. Inr demo_ops) demo_parse"
  let ?p1 = "demo_process\<lparr>input := [], node := (node demo_process)\<lparr>posted := [(Txn, demo_request)]\<rparr>\<rparr>"
  let ?p2 = "?p1\<lparr>main_at := Returning\<rparr>"
  let ?p3 = "?p2\<lparr>main_at := Stopped, node := (node ?p2)\<lparr>posted := []\<rparr>, dropped := dropped ?p2 @ posted (node ?p2)\<rparr>"
  have p0: "main_at demo_process = Reading" "input demo_process = [''txn'']" "workers demo_process = []"
      "dropped demo_process = []"
    by (simp_all add: demo_process_def)
  have "handleMessage boost_ref demo_request (node demo_process) =
      (Inr (), (node demo_process)\<lparr>posted := [(Txn, demo_request)]\<rparr>)"
    using started_node(1,4) [OF demo_started] by (simp add: handleMessage_def demo_request_def)
  from proc_step.read_line [OF p0(1,2) _ demo_parse_Message this] have s1: "?step demo_process ?p1" by simp
  have s2: "?step ?p1 ?p2" using p0(1) by (intro proc_step.end_input) simp_all
  have s3: "?step ?p2 ?p3" by (intro proc_step.stop_pool) simp
  from s1 s2 s3 have "?step\<^sup>*\<^sup>* demo_process ?p3" by (meson rtranclp.rtrancl_into_rtrancl rtranclp.rtrancl_refl)
  then have "proc_reachable std_ref boost_ref (executor_ref std_ref) (\<lambda>_. Inr demo_ops) demo_parse [''txn''] ?p3"
    unfolding proc_reachable_def using demo_started by blast
  then show ?thesis using p0 by (intro exI [of _ ?p3]) simp
qed

text \<open>
  C8 (every message read is answered or dropped at the end). At any moment, the lines
  printed, the messages still posted, the workers that have not answered yet and the
  messages dropped are as many as the lines read, counting the initialization; messages
  are dropped only by the stop of the pool, after the end of the input. As long as the
  process is not terminated by an exception of the main thread, a worker can go on
  whenever a message is posted or a worker has not answered. The process comes to rest
  only when it was terminated so, or when the pool is stopped, no message is left and
  every worker has answered: then every line read has its line printed but for the
  dropped messages.
\<close>

theorem one_answer_per_request:
  assumes "proc_reachable L J X T parse lines p"
  shows "length (printed (node p)) + length (posted (node p)) + length (dropped p) +
        (length (workers p) - length (answers p)) = Suc (length lines - length (input p)) \<and>
    (dropped p \<noteq> [] \<longrightarrow> main_at p = Stopped) \<and>
    (main_at p \<noteq> Terminated \<longrightarrow> posted (node p) \<noteq> [] \<or> length (answers p) \<noteq> length (workers p) \<longrightarrow>
       (\<exists>p'. proc_step L J X T parse p p' \<and> main_at p' = main_at p \<and> input p' = input p)) \<and>
    ((\<nexists>p'. proc_step L J X T parse p p') \<longrightarrow> main_at p = Terminated \<or>
       main_at p = Stopped \<and> posted (node p) = [] \<and> length (answers p) = length (workers p) \<and>
       length (printed (node p)) + length (dropped p) = Suc (length lines - length (input p)))"
proof -
  have inv: "proc_inv J T lines p" using proc_reachable_inv(1) [OF assms] .
  then have le: "length (answers p) \<le> length (workers p)" using answers_le by (auto simp: proc_inv_def)
  have drop: "dropped p \<noteq> [] \<longrightarrow> main_at p = Stopped" using inv by (simp add: proc_inv_def)
  have "\<exists>k. length lines = k + length (input p) \<and>
      length (printed (node p)) + length (posted (node p)) + length (dropped p) + length (workers p) =
        Suc k + length (answers p)"
    using inv by (simp add: proc_inv_def)
  with le have count: "length (printed (node p)) + length (posted (node p)) + length (dropped p) +
      (length (workers p) - length (answers p)) = Suc (length lines - length (input p))" by auto
  have go: "\<exists>p'. proc_step L J X T parse p p' \<and> main_at p' = main_at p \<and> input p' = input p"
    if "main_at p \<noteq> Terminated" "posted (node p) \<noteq> [] \<or> length (answers p) \<noteq> length (workers p)"
    by (rule proc_progress) (use that le in auto)
  have rest: "main_at p = Terminated \<or> main_at p = Stopped \<and> posted (node p) = [] \<and> length (answers p) = length (workers p)"
    if "\<nexists>p'. proc_step L J X T parse p p'"
    using that go main_progress [of p L J X T parse] by (cases "main_at p") blast+
  from count drop go rest show ?thesis by auto
qed

theorem one_answer_per_request_witness:
  "(\<exists>p :: process. length (answers p) = 1 \<and> length (workers p) = 1 \<and>
      length (printed (node p)) + length (posted (node p)) + length (dropped p) = Suc (1 - length (input p))) \<and>
   (\<exists>p :: process. main_at p = Stopped \<and> length (printed (node p)) = 1 \<and> dropped p = [(Txn, demo_request)])"
proof -
  note claim = one_answer_per_request [of std_ref boost_ref "executor_ref std_ref" "\<lambda>_. Inr demo_ops" demo_parse "[''txn'']"]
  obtain p out r where p: "proc_reachable std_ref boost_ref (executor_ref std_ref) (\<lambda>_. Inr demo_ops) demo_parse [''txn''] p"
      "answers p = [(0, out)]" "workers p = [(demo_request, \<lparr>tx_of = 1, prog = demo_ops, phase = Ended (Committed r)\<rparr>)]"
    using demo_served by blast
  obtain q where q: "proc_reachable std_ref boost_ref (executor_ref std_ref) (\<lambda>_. Inr demo_ops) demo_parse [''txn''] q"
      "main_at q = Stopped" "input q = []" "workers q = []" "posted (node q) = []" "dropped q = [(Txn, demo_request)]"
    using queued_request_dropped by blast
  have "length (printed (node q)) = 1" using claim [OF q(1)] q(3-6) by simp
  moreover have "length (printed (node p)) + length (posted (node p)) + length (dropped p) = Suc (1 - length (input p))"
    using claim [OF p(1)] p(2,3) by simp
  ultimately show ?thesis using p(2,3) q(2,6) by force
qed

end
