(* ===== verification/Distributed.thy ===== *)
theory Distributed
  imports Peer_Messages Single_Node
begin

text \<open>
  The distributed protocol: what the handlers of \<open>Peer_Messages\<close> guarantee to the
  waiting transactions of \<open>Scheduler\<close> on another node, and where they do not.
\<close>

section \<open>Messages\<close>

lemma lock_message_members [simp]:
  "boost_ok J \<Longrightarrow> map_of (lock_message J ty tx k) =
     [''key'' \<mapsto> JInt k, ''tx_id'' \<mapsto> JUint tx, ''type'' \<mapsto> JString ty]"
  by (auto simp: lock_message_def Let_def)

lemma tx_and_key_message [simp]: "boost_ok J \<Longrightarrow> tx_and_key J (lock_message J ty tx k) = Inr (tx, k)"
  by (simp add: tx_and_key_def)

text \<open>The type constants contain no NUL character and are pairwise different.\<close>

lemma MT_c_str [simp]:
  "c_str MT_LOCK_REQUEST = MT_LOCK_REQUEST" "c_str MT_LOCK_GRANTED = MT_LOCK_GRANTED"
  "c_str MT_LOCK_DENIED = MT_LOCK_DENIED" "c_str MT_LOCK_RELEASE = MT_LOCK_RELEASE"
  "c_str MT_OP_REQUEST = MT_OP_REQUEST" "c_str MT_OP_RESPONSE = MT_OP_RESPONSE"
  by (simp_all add: c_str_def MT_defs)

lemma MT_distinct [simp]:
  "MT_LOCK_GRANTED \<noteq> MT_LOCK_REQUEST" "MT_LOCK_DENIED \<noteq> MT_LOCK_REQUEST"
  "MT_LOCK_RELEASE \<noteq> MT_LOCK_REQUEST" "MT_LOCK_RELEASE \<noteq> MT_LOCK_GRANTED" "MT_LOCK_RELEASE \<noteq> MT_LOCK_DENIED"
  "MT_OP_REQUEST \<noteq> MT_LOCK_REQUEST" "MT_OP_REQUEST \<noteq> MT_LOCK_GRANTED" "MT_OP_REQUEST \<noteq> MT_LOCK_DENIED"
  "MT_OP_REQUEST \<noteq> MT_LOCK_RELEASE"
  "MT_OP_RESPONSE \<noteq> MT_LOCK_REQUEST" "MT_OP_RESPONSE \<noteq> MT_LOCK_GRANTED" "MT_OP_RESPONSE \<noteq> MT_LOCK_DENIED"
  "MT_OP_RESPONSE \<noteq> MT_LOCK_RELEASE" "MT_OP_RESPONSE \<noteq> MT_OP_REQUEST"
  by (simp_all add: MT_defs)

text \<open>Every message the scheduler sends reaches its handler.\<close>

lemma dispatch:
  assumes "boost_ok J"
  shows "map_of msg ''type'' = Some (JString MT_LOCK_REQUEST) \<Longrightarrow>
      handle_peer_message J S X env peer msg s = (Inr (), handle_lock_request J S env peer msg s)"
    and "map_of msg ''type'' = Some (JString MT_LOCK_RELEASE) \<Longrightarrow>
      handle_peer_message J S X env peer msg s = (Inr (), handle_lock_release J peer msg s)"
    and "map_of msg ''type'' = Some (JString MT_OP_REQUEST) \<Longrightarrow>
      handle_peer_message J S X env peer msg s = (Inr (), handle_operation_request J S X peer msg s)"
    and "map_of msg ''type'' = Some (JString MT_OP_RESPONSE) \<Longrightarrow>
      handle_peer_message J S X env peer msg s = (Inr (), handle_operation_response J peer msg s)"
  using assms by (simp_all add: handle_peer_message_def Let_def)

lemma dispatch_response:
  "boost_ok J \<Longrightarrow> ty = MT_LOCK_GRANTED \<or> ty = MT_LOCK_DENIED \<Longrightarrow> map_of msg ''type'' = Some (JString ty) \<Longrightarrow>
   handle_peer_message J S X env peer msg s = (Inr (), handle_lock_response J peer msg s)"
  by (elim disjE) (simp_all add: handle_peer_message_def Let_def)

lemma send_state: "snd (send S peer msg s) = s\<lparr>sent := sent s @ [(peer, msg)]\<rparr>"
  by (simp add: send_def split: option.split)

lemma send_catch:
  "(case send S peer msg s of (Inl e, s') \<Rightarrow> log_error e s' | (Inr _, s') \<Rightarrow> s') =
     s\<lparr>sent := sent s @ [(peer, msg)],
       logged := logged s @ (case srv_send S (sent s) peer msg of None \<Rightarrow> [] | Some e \<Rightarrow> [e])\<rparr>"
  by (simp add: send_def log_error_def split: option.split)

section \<open>The lock protocol\<close>

lemma lock_request_effect:
  assumes "boost_ok J" and "acquire env k tx (lock_manager s) = (r, lm)"
  shows "\<exists>es. handle_lock_request J S env peer (lock_message J ty tx k) s =
    s\<lparr>lock_manager := lm, sent := sent s @ [(peer, lock_message J
        (if r = ACQUIRED then MT_LOCK_GRANTED else MT_LOCK_DENIED) tx k)], logged := logged s @ es\<rparr>"
  using assms by (auto simp: handle_lock_request_def Let_def send_catch)

text \<open>
  Serving lock requests. Under the contract of the other threads, a lock request
  is answered with one message to the requesting peer, which says \<open>lock_granted\<close> exactly
  when the transaction owns the key afterwards; the invariant of the lock manager is
  kept and the store is not touched.
\<close>

theorem lock_request_served:
  assumes "boost_ok J" and "rely_env tx env" and "tx_inv tx (lock_manager s)"
  shows "\<exists>s' ty. handle_peer_message J S X env peer (lock_message J MT_LOCK_REQUEST tx k) s = (Inr (), s') \<and>
    sent s' = sent s @ [(peer, lock_message J ty tx k)] \<and>
    ty = (if owner_of (lock_manager s') k = Some tx then MT_LOCK_GRANTED else MT_LOCK_DENIED) \<and>
    tx_inv tx (lock_manager s') \<and> store s' = store s"
proof -
  obtain r lm where a: "acquire env k tx (lock_manager s) = (r, lm)" by force
  have "tx_inv tx lm" "r = ACQUIRED \<longleftrightarrow> owner_of lm k = Some tx"
    using rely_env.acquire_settled [OF assms(2,3) a] by blast+
  moreover obtain es where "handle_lock_request J S env peer (lock_message J MT_LOCK_REQUEST tx k) s =
    s\<lparr>lock_manager := lm, sent := sent s @ [(peer, lock_message J
        (if r = ACQUIRED then MT_LOCK_GRANTED else MT_LOCK_DENIED) tx k)], logged := logged s @ es\<rparr>"
    using lock_request_effect [OF assms(1) a] by blast
  ultimately show ?thesis using assms(1) dispatch(1) [OF assms(1)] by simp
qed

theorem lock_request_served_witness:
  "\<exists>s' ty. handle_peer_message boost_ref server_up (executor_ref std_ref) env_release 2
      (lock_message boost_ref MT_LOCK_REQUEST 9 5) (sched0\<lparr>lock_manager := lm_held\<rparr>) = (Inr (), s') \<and>
    sent s' = [(2, lock_message boost_ref ty 9 5)] \<and> tx_inv 9 (lock_manager s')"
  using lock_request_served [OF boost_ref_ok env_release_rely, of 9 "sched0\<lparr>lock_manager := lm_held\<rparr>"
      server_up "executor_ref std_ref" 2 5] by auto

text \<open>
  A denial counts as a grant. Whatever a lock response says, it erases all pending
  locks of its transaction, and the transaction that waits for its remote locks goes on
  as if all of them had been granted, also those not answered yet: the comparison with
  \<open>LOCK_GRANTED\<close> compares pointers.
\<close>

lemma lock_response_wakes:
  assumes "boost_ok J" and "ty = MT_LOCK_GRANTED \<or> ty = MT_LOCK_DENIED" and "pending_of s tx \<noteq> []"
  shows "\<exists>s'. wait_remote_locks L J S tx
      (Wake (\<lambda>s. snd (handle_peer_message J S X env peer (lock_message J ty tx k) s)) # tape) s =
      (Returns True, tape, s') \<and> pending_of s' tx = [] \<and> sent s' = sent s \<and> lock_manager s' = lock_manager s"
proof -
  let ?s1 = "touch_pending tx s"
  have "handle_peer_message J S X env peer (lock_message J ty tx k) ?s1 =
      (Inr (), ?s1\<lparr>pending_remote_locks := (pending_remote_locks ?s1)(tx := None)\<rparr>)"
    using assms(1) dispatch_response [OF assms(1,2)] by (simp add: handle_lock_response_def same_address_def)
  moreover have "pending_of ?s1 tx \<noteq> []" using assms(3) by (simp add: touch_pending_def pending_of_def)
  ultimately show ?thesis
    by (subst wait_remote_locks.simps, simp add: Let_def)
       (subst wait_remote_locks.simps, simp add: Let_def touch_pending_def pending_of_def)
qed

text \<open>
  Lock requests that crossed the wire are dropped. A lock request that was
  serialized and parsed on the way has a transaction id of signed kind unless the id is
  at least 2^63: the handler logs the exception, sends no answer and takes no lock.
\<close>

theorem lock_request_after_wire:
  assumes "boost_ok J" and "wire_ok W" and "unat tx < 2 ^ 63"
    and "W (JObject (lock_message J MT_LOCK_REQUEST tx k)) = JObject msg"
  shows "handle_peer_message J S X env peer msg s = (Inr (), log_error (SystemError ''not_kind'') s)"
proof -
  have m: "map_of msg j = map_option W (map_of (lock_message J MT_LOCK_REQUEST tx k) j)" for j
    using wire_object [OF assms(2), of "lock_message J MT_LOCK_REQUEST tx k"] assms(4) by (metis json.inject(7))
  have "map_of msg ''type'' = Some (JString MT_LOCK_REQUEST)" using m assms(1,2) by simp
  then have "handle_peer_message J S X env peer msg s = (Inr (), handle_lock_request J S env peer msg s)"
    by (rule dispatch(1) [OF assms(1)])
  then show ?thesis
    using m assms(1-3) by (simp add: handle_lock_request_def tx_and_key_def)
qed

theorem lock_request_after_wire_witness:
  "\<exists>msg. wire_ref (JObject (lock_message boost_ref MT_LOCK_REQUEST 9 5)) = JObject msg \<and>
    handle_peer_message boost_ref server_up (executor_ref std_ref) quiet 2 msg sched0 =
      (Inr (), log_error (SystemError ''not_kind'') sched0)"
proof -
  obtain msg where "wire_ref (JObject (lock_message boost_ref MT_LOCK_REQUEST 9 5)) = JObject msg"
    using wire_object [OF wire_ref_ok] by blast
  with lock_request_after_wire [OF boost_ref_ok wire_ref_ok _ this, of server_up "executor_ref std_ref" quiet 2 sched0]
  show ?thesis by simp
qed

text \<open>
  Transaction ids of different nodes collide. Ids are counted per node and locks
  are owned by ids alone: when a key is owned by transaction \<open>tx\<close>, a request of any peer
  for its own transaction with the same number is granted too.
\<close>

theorem lock_request_not_exclusive:
  assumes "boost_ok J" and "owner_of (lock_manager s) k = Some tx"
  shows "\<exists>s1 s2.
    handle_peer_message J S X quiet p (lock_message J MT_LOCK_REQUEST tx k) s = (Inr (), s1) \<and>
    handle_peer_message J S X quiet q (lock_message J MT_LOCK_REQUEST tx k) s1 = (Inr (), s2) \<and>
    sent s2 = sent s @ [(p, lock_message J MT_LOCK_GRANTED tx k), (q, lock_message J MT_LOCK_GRANTED tx k)]"
proof -
  let ?lm = "track k tx (lock_manager s)"
  have "acquire quiet k tx (lock_manager s) = (ACQUIRED, ?lm)" "acquire quiet k tx ?lm = (ACQUIRED, track k tx ?lm)"
    using assms(2) by (simp_all add: acquire_reentrant)
  then show ?thesis
    using assms(1) by (simp add: dispatch(1) handle_lock_request_def Let_def send_catch)
qed

theorem lock_request_not_exclusive_witness:
  "\<exists>s1 s2.
    handle_peer_message boost_ref server_up (executor_ref std_ref) quiet 1
      (lock_message boost_ref MT_LOCK_REQUEST 7 5) (sched0\<lparr>lock_manager := lm_held\<rparr>) = (Inr (), s1) \<and>
    handle_peer_message boost_ref server_up (executor_ref std_ref) quiet 2
      (lock_message boost_ref MT_LOCK_REQUEST 7 5) s1 = (Inr (), s2) \<and>
    sent s2 = [(1, lock_message boost_ref MT_LOCK_GRANTED 7 5), (2, lock_message boost_ref MT_LOCK_GRANTED 7 5)]"
  using lock_request_not_exclusive [OF boost_ref_ok, of "sched0\<lparr>lock_manager := lm_held\<rparr>" 5 7 server_up
      "executor_ref std_ref" 1 2] by auto

section \<open>Remote operations\<close>

lemma op_request_members:
  assumes "boost_ok J"
  shows "map_of (op_request J tx op) ''type'' = Some (JString MT_OP_REQUEST)"
    and "map_of (op_request J tx op) ''tx_id'' = Some (JUint tx)"
    and "map_of (op_request J tx op) ''key'' = Some (JInt (op_key op))"
    and "map_of (op_request J tx op) ''op_type'' =
      Some (JString (case op of ReadOp _ \<Rightarrow> ''read'' | AppendOp _ _ \<Rightarrow> ''append''))"
    and "map_of (op_request J tx op) ''value'' =
      (case op of ReadOp _ \<Rightarrow> None | AppendOp _ v \<Rightarrow> Some (JInt v))"
  using assms by (cases op; simp add: op_request_def Let_def)+

lemma request_op_request:
  "boost_ok J \<Longrightarrow> tx_op_key J (op_request J tx op) =
     Inr (tx, case op of ReadOp _ \<Rightarrow> ''read'' | AppendOp _ _ \<Rightarrow> ''append'', op_key op)"
  "boost_ok J \<Longrightarrow> request_op J (op_request J tx op)
     (case op of ReadOp _ \<Rightarrow> ''read'' | AppendOp _ _ \<Rightarrow> ''append'') (op_key op) = Inr (Some op)"
  by (cases op; simp add: tx_op_key_def request_op_def op_request_members c_str_def)+

lemma run_remote_op_refines:
  assumes "executor_ok L X" and "kv_wf L (store s)"
  obtains st where "run_remote_op X op s =
      (Inr (case op of ReadOp k \<Rightarrow> kv_get L (store s) k | AppendOp _ _ \<Rightarrow> None), s\<lparr>store := st\<rparr>)"
    and "kv_wf L st" and "kv_get L st = op_write (kv_get L (store s)) op"
proof -
  have st: "exec_store (make_executor X (store s)) = store s" using assms(1) by simp
  obtain v where v: "visit X op (make_executor X (store s)) = (Inr (op_read (kv_get L (store s)) op), v)"
      "kv_wf L (exec_store v)" "kv_get L (exec_store v) = op_write (kv_get L (store s)) op"
    using visit_refines [OF assms(1), of "make_executor X (store s)" op] assms(2) unfolding st by blast
  then show ?thesis by (intro that [of "exec_store v"]) (cases op, simp_all add: run_remote_op_def)
qed

lemma operation_request_effect:
  assumes "boost_ok J" and "executor_ok L X" and "kv_wf L (store s)"
  obtains st es where "handle_peer_message J S X env peer (op_request J tx op) s = (Inr (), s\<lparr>store := st,
      sent := sent s @ [(peer, op_response J tx (op_key op)
        (case op of ReadOp k \<Rightarrow> kv_get L (store s) k | AppendOp _ _ \<Rightarrow> None))], logged := logged s @ es\<rparr>)"
    and "kv_wf L st" and "kv_get L st = op_write (kv_get L (store s)) op"
proof -
  let ?r = "case op of ReadOp k \<Rightarrow> kv_get L (store s) k | AppendOp _ _ \<Rightarrow> None"
  obtain st where st: "run_remote_op X op s = (Inr ?r, s\<lparr>store := st\<rparr>)" "kv_wf L st"
      "kv_get L st = op_write (kv_get L (store s)) op"
    using run_remote_op_refines [OF assms(2,3)] by blast
  have "handle_operation_request J S X peer (op_request J tx op) s =
      (case send S peer (op_response J tx (op_key op) ?r) (s\<lparr>store := st\<rparr>) of
         (Inl e, s2) \<Rightarrow> log_error e s2 | (Inr _, s2) \<Rightarrow> s2)"
    using assms(1) st(1)
    by (simp add: handle_operation_request_def request_op_request op_request_members)
       (cases op, simp_all)
  then show ?thesis
    using that st(2,3) dispatch(3) [OF assms(1) op_request_members(1) [OF assms(1)]] by (simp add: send_catch)
qed

text \<open>
  Serving operations. An operation request executes its operation on the store as
  the reference semantics does and answers with the value read, or null for an append.
  The lock manager is neither consulted nor changed: the operation is executed whether
  or not its transaction owns the key.
\<close>

theorem operation_request_served:
  assumes "boost_ok J" and "executor_ok L X" and "kv_wf L (store s)"
  shows "\<exists>s'. handle_peer_message J S X env peer (op_request J tx op) s = (Inr (), s') \<and>
    kv_get L (store s') = op_write (kv_get L (store s)) op \<and> kv_wf L (store s') \<and>
    lock_manager s' = lock_manager s \<and>
    sent s' = sent s @ [(peer, op_response J tx (op_key op)
      (case op of ReadOp k \<Rightarrow> kv_get L (store s) k | AppendOp _ _ \<Rightarrow> None))]"
proof -
  obtain st es where "handle_peer_message J S X env peer (op_request J tx op) s = (Inr (), s\<lparr>store := st,
      sent := sent s @ [(peer, op_response J tx (op_key op)
        (case op of ReadOp k \<Rightarrow> kv_get L (store s) k | AppendOp _ _ \<Rightarrow> None))], logged := logged s @ es\<rparr>)"
      "kv_wf L st" "kv_get L st = op_write (kv_get L (store s)) op"
    by (rule operation_request_effect [OF assms])
  then show ?thesis by simp
qed

theorem operation_request_served_witness:
  "\<exists>s'. handle_peer_message boost_ref server_up (executor_ref std_ref) quiet 2
      (op_request boost_ref 9 (AppendOp 5 1)) (sched0\<lparr>lock_manager := lm_held\<rparr>) = (Inr (), s') \<and>
    kv_get std_ref (store s') 5 = Some [1] \<and> owner_of (lock_manager s') 5 = Some 7"
  using operation_request_served [OF boost_ref_ok executor_ref_ok, where op = "AppendOp 5 1"
      and s = "sched0\<lparr>lock_manager := lm_held\<rparr>" and L = std_ref and tx = 9 and peer = 2 and S = server_up
      and env = quiet] by auto

lemma int_array_ints: "boost_ok J \<Longrightarrow> int_array J (map JInt vs) = Inr vs"
  by (induction vs) simp_all

lemma op_response_members:
  assumes "boost_ok J"
  shows "map_of (op_response J tx k r) ''type'' = Some (JString MT_OP_RESPONSE)"
    and "tx_and_key J (op_response J tx k r) = Inr (tx, k)"
    and "map_of (op_response J tx k r) ''tx_id'' = Some (JUint tx)"
    and "map_of (op_response J tx k r) ''key'' = Some (JInt k)"
    and "response_value J (op_response J tx k r) = Inr (case r of None \<Rightarrow> [] | Some vs \<Rightarrow> vs)"
  using assms
  by (simp_all add: op_response_def tx_and_key_def response_value_def int_array_ints split: option.split)

lemma operation_response_effect:
  assumes "boost_ok J"
  shows "handle_peer_message J S X env peer (op_response J tx k r) s =
    (Inr (), s\<lparr>remote_results := (remote_results s)(tx \<mapsto>
         (case remote_results s tx of None \<Rightarrow> Map.empty | Some m \<Rightarrow> m)(k \<mapsto> (case r of None \<Rightarrow> [] | Some vs \<Rightarrow> vs))),
       pending_remote_ops := (pending_remote_ops s)(tx \<mapsto> removeAll (peer, k) (ops_pending s tx))\<rparr>)"
  using assms dispatch(4) [OF assms op_response_members(1) [OF assms]]
  by (simp add: handle_operation_response_def op_response_members)

lemma remote_operation_result:
  assumes "boost_ok J"
  shows "\<exists>s'. execute_remote_operation J server_up target tx op
      (Wake (\<lambda>s. snd (handle_peer_message J server_up X env target (op_response J tx (op_key op) r) s)) # tape) s =
      (Returns (Some (case r of None \<Rightarrow> [] | Some vs \<Rightarrow> vs)), tape, s') \<and>
    sent s' = sent s @ [(target, op_request J tx op)] \<and> store s' = store s \<and> lock_manager s' = lock_manager s \<and>
    (target, op_key op) \<notin> set (ops_pending s' tx) \<and> local_node_id s' = local_node_id s"
proof -
  let ?f = "\<lambda>s. snd (handle_peer_message J server_up X env target (op_response J tx (op_key op) r) s)"
  let ?s2 = "s\<lparr>pending_remote_ops := (pending_remote_ops s)(tx \<mapsto>
      List.insert (target, op_key op) (ops_pending s tx)), sent := sent s @ [(target, op_request J tx op)]\<rparr>"
  have f: "?f ?s2 = ?s2\<lparr>remote_results := (remote_results s)(tx \<mapsto>
      (case remote_results s tx of None \<Rightarrow> Map.empty | Some m \<Rightarrow> m)(op_key op \<mapsto> (case r of None \<Rightarrow> [] | Some vs \<Rightarrow> vs))),
      pending_remote_ops := (pending_remote_ops ?s2)(tx \<mapsto> removeAll (target, op_key op) (ops_pending ?s2 tx))\<rparr>"
    by (simp add: operation_response_effect [OF assms])
  have "(target, op_key op) \<in> set (ops_pending ?s2 tx)" by (simp add: ops_pending_def)
  then have "wait_remote_op tx target (op_key op) (Wake ?f # tape) ?s2 = wait_remote_op tx target (op_key op) tape (?f ?s2)"
    by (subst wait_remote_op.simps) simp
  also have "\<dots> = (Returns True, tape, ?f ?s2)"
    unfolding f by (subst wait_remote_op.simps) (simp add: ops_pending_def)
  finally show ?thesis
    unfolding execute_remote_operation_def Let_def
    by (simp add: send_def f) (simp add: ops_pending_def)
qed

text \<open>
  Round trip of a remote operation. A remote operation whose response arrives
  returns the value the response carries; a key that does not exist on the other node
  comes back as an empty list, not as the null of a local read.
\<close>

theorem remote_operation_roundtrip:
  assumes "boost_ok J"
  shows "\<exists>s'. execute_remote_operation J server_up target tx op
      (Wake (\<lambda>s. snd (handle_peer_message J server_up X env target (op_response J tx (op_key op) r) s)) # tape) s =
      (Returns (Some (case r of None \<Rightarrow> [] | Some vs \<Rightarrow> vs)), tape, s') \<and>
    sent s' = sent s @ [(target, op_request J tx op)] \<and> store s' = store s \<and> lock_manager s' = lock_manager s \<and>
    (target, op_key op) \<notin> set (ops_pending s' tx)"
  using remote_operation_result [OF assms] by blast

theorem remote_operation_roundtrip_witness:
  "\<exists>s'. execute_remote_operation boost_ref server_up 2 9 (ReadOp 5)
      [Wake (\<lambda>s. snd (handle_peer_message boost_ref server_up (executor_ref std_ref) quiet 2
        (op_response boost_ref 9 5 (Some [1, 2])) s))] sched0 = (Returns (Some [1, 2]), [], s')"
  using remote_operation_roundtrip [OF boost_ref_ok, of 2 9 "ReadOp 5" "executor_ref std_ref" quiet "Some [1, 2]" "[]" sched0]
  by auto

text \<open>
  Remote appends are reported as reads. A remote append whose response arrives adds
  the pair of its key and the empty list to the results of the transaction, where the
  reference semantics, and a local append, add nothing.
\<close>

theorem remote_append_reported:
  assumes "boost_ok J" and "key_to_node k = Some target" and "target \<noteq> local_node_id s"
  shows "\<exists>s'. exec_ops J server_up X key_to_node tx [AppendOp k v] results
      (Wake (\<lambda>s. snd (handle_peer_message J server_up X env target (op_response J tx k None) s)) # tape) s =
      (Returns (results @ [(k, Some [])]), tape, s') \<and> fst (run_ops m [AppendOp k v]) = []"
proof -
  obtain s' where "execute_remote_operation J server_up target tx (AppendOp k v)
      (Wake (\<lambda>s. snd (handle_peer_message J server_up X env target (op_response J tx k None) s)) # tape) s =
      (Returns (Some []), tape, s')"
    using remote_operation_result [OF assms(1), where op = "AppendOp k v" and r = None] by fastforce
  with assms(2,3) show ?thesis by (simp add: run_ops.simps)
qed

theorem remote_append_reported_witness:
  "\<exists>s'. exec_ops boost_ref server_up (executor_ref std_ref) [5 \<mapsto> 1] 9 [AppendOp 5 1] []
      [Wake (\<lambda>s. snd (handle_peer_message boost_ref server_up (executor_ref std_ref) quiet 1
         (op_response boost_ref 9 5 None) s))] sched0 = (Returns [(5, Some [])], [], s')"
  using remote_append_reported [OF boost_ref_ok, of "[5 \<mapsto> 1]" 5 1 sched0 "executor_ref std_ref" 9 1 "[]" quiet "[]"]
  by auto

text \<open>
  Who is notified. The response to the only pending operation of a transaction wakes the
  waiting thread.
\<close>

abbreviation awaiting :: "TransactionId \<Rightarrow> NodeID \<Rightarrow> Operation \<Rightarrow> TwoPLScheduler \<Rightarrow> TwoPLScheduler" where
  "awaiting tx n op s \<equiv> s\<lparr>pending_remote_ops :=
     (pending_remote_ops s)(tx \<mapsto> List.insert (n, op_key op) (ops_pending s tx))\<rparr>"

lemma notifies_op_response:
  assumes "boost_ok J"
  shows "notifies_op J n (op_response J tx (op_key op) r) (awaiting tx n op s) \<longleftrightarrow>
    set (ops_pending s tx) \<subseteq> {(n, op_key op)}"
proof -
  have "handle_operation_response J n (op_response J tx (op_key op) r) (awaiting tx n op s) =
      snd (handle_peer_message J server_up X env n (op_response J tx (op_key op) r) (awaiting tx n op s))" for X env
    using dispatch(4) [OF assms op_response_members(1) [OF assms]] by simp
  then have "ops_pending (handle_operation_response J n (op_response J tx (op_key op) r) (awaiting tx n op s)) tx =
      removeAll (n, op_key op) (List.insert (n, op_key op) (ops_pending s tx))"
    unfolding operation_response_effect [OF assms] by (simp add: ops_pending_def)
  moreover have "removeAll x (List.insert x xs) = [] \<longleftrightarrow> set xs \<subseteq> {x}" for x and xs :: "(NodeID \<times> KeyType) list"
    by (auto simp: removeAll_filter_not_eq filter_empty_conv)
  ultimately show ?thesis
    using assms by (simp add: notifies_op_def op_response_members)
qed

text \<open>
  A send that fails silences the responses that follow. \<open>execute_remote_operation\<close> catches
  the exception and returns nothing, but leaves its operation pending; the response to any
  later operation of the transaction on another key then notifies nobody.
\<close>

theorem failed_send_silences_responses:
  assumes "boost_ok J" and "srv_send S (sent s) n1 (op_request J tx op1) = Some e"
    and "(n2, op_key op2) \<noteq> (n1, op_key op1)"
  shows "\<exists>s1. execute_remote_operation J S n1 tx op1 tape s = (Returns None, tape, s1) \<and>
    \<not> notifies_op J n2 (op_response J tx (op_key op2) r) (awaiting tx n2 op2 s1)"
proof -
  let ?s1 = "(awaiting tx n1 op1 s)\<lparr>sent := sent s @ [(n1, op_request J tx op1)]\<rparr>"
  have "execute_remote_operation J S n1 tx op1 tape s = (Returns None, tape, ?s1)"
    using assms(2) by (simp add: execute_remote_operation_def Let_def send_def)
  moreover have "(n1, op_key op1) \<in> set (ops_pending ?s1 tx)" by (simp add: ops_pending_def)
  then have "\<not> notifies_op J n2 (op_response J tx (op_key op2) r) (awaiting tx n2 op2 ?s1)"
    unfolding notifies_op_response [OF assms(1)] using assms(3) by auto
  ultimately show ?thesis by blast
qed

section \<open>Messages of the growing and shrinking phase\<close>

lemma send_each_up: "send_each server_up ms s = (Inr (), s\<lparr>sent := sent s @ ms\<rparr>)"
  by (induction ms arbitrary: s) (auto simp: send_def)

text \<open>The (node, key) pairs of a map of sets.\<close>

definition pairs_of :: "('n \<times> 'k list) list \<Rightarrow> ('n \<times> 'k) set" where
  "pairs_of m = {(n, k). \<exists>ks. (n, ks) \<in> set m \<and> k \<in> set ks}"

lemma key_pairs_set: "std_ok L \<Longrightarrow> set (key_pairs L m) = pairs_of m"
  by (auto simp: key_pairs_def pairs_of_def)

lemma pairs_of_insert: "pairs_of (nk_insert n k m) = insert (n, k) (pairs_of m)"
proof (induction n k m rule: nk_insert.induct)
  case (1 n k)
  show ?case by (auto simp: pairs_of_def)
next
  case (2 n k m ks rest)
  have *: "pairs_of ((m, xs) # rest) = {m} \<times> set xs \<union> pairs_of rest" for xs and rest :: "('a \<times> 'b list) list" and m
    by (auto simp: pairs_of_def)
  show ?case using 2 by (auto simp: *)
qed

text \<open>The remote pairs of a transaction.\<close>

definition remote_pairs :: "NodeID \<Rightarrow> (NodeID \<times> KeyType list) list \<Rightarrow> (NodeID \<times> KeyType) set" where
  "remote_pairs here m = {(n, k) \<in> pairs_of m. n \<noteq> here}"

lemma remote_keys_pairs:
  "std_ok L \<Longrightarrow> set (key_pairs L (remote_keys L here m)) = remote_pairs here m"
  "std_ok L \<Longrightarrow> set (filter (\<lambda>(n, k). n \<noteq> here) (key_pairs L m)) = remote_pairs here m"
  by (auto simp: key_pairs_set remote_pairs_def remote_keys_def pairs_of_def)

lemma add_pending_all:
  "\<exists>m. foldl (\<lambda>s nk. add_pending tx nk s) s (p # ps) =
      s\<lparr>pending_remote_locks := (pending_remote_locks s)(tx \<mapsto> m)\<rparr> \<and>
    pairs_of m = pairs_of (pending_of s tx) \<union> set (p # ps)"
proof (induction ps arbitrary: s p)
  case Nil
  show ?case
    by (intro exI [of _ "nk_insert (fst p) (snd p) (pending_of s tx)"] conjI)
       (simp_all only: foldl.simps add_pending_def pairs_of_insert prod.collapse list.set
         Un_insert_right Un_empty_right)
next
  case (Cons q ps)
  let ?s1 = "add_pending tx p s"
  have 1: "pairs_of (pending_of ?s1 tx) = insert p (pairs_of (pending_of s tx))"
    by (cases p) (simp add: add_pending_def pending_of_def pairs_of_insert)
  obtain m where m: "foldl (\<lambda>s nk. add_pending tx nk s) ?s1 (q # ps) =
      ?s1\<lparr>pending_remote_locks := (pending_remote_locks ?s1)(tx \<mapsto> m)\<rparr>"
      "pairs_of m = pairs_of (pending_of ?s1 tx) \<union> set (q # ps)"
    using Cons.IH [of ?s1 q] by blast
  have "?s1\<lparr>pending_remote_locks := (pending_remote_locks ?s1)(tx \<mapsto> m)\<rparr> =
      s\<lparr>pending_remote_locks := (pending_remote_locks s)(tx \<mapsto> m)\<rparr>"
    by (simp add: add_pending_def)
  then have "foldl (\<lambda>s nk. add_pending tx nk s) s (p # q # ps) =
      s\<lparr>pending_remote_locks := (pending_remote_locks s)(tx \<mapsto> m)\<rparr>"
    using m(1) by (simp only: foldl.simps)
  moreover have "pairs_of m = pairs_of (pending_of s tx) \<union> set (p # q # ps)" using m(2) 1 by auto
  ultimately show ?case by blast
qed

lemma pairs_of_empty [simp]: "pairs_of [] = {}"
  by (simp add: pairs_of_def)

abbreviation request_message :: "boost_json \<Rightarrow> TransactionId \<Rightarrow> NodeID \<times> KeyType \<Rightarrow> NodeID \<times> jobject" where
  "request_message J tx \<equiv> \<lambda>(n, k). (n, lock_message J MT_LOCK_REQUEST tx k)"

abbreviation release_message :: "boost_json \<Rightarrow> TransactionId \<Rightarrow> NodeID \<times> KeyType \<Rightarrow> NodeID \<times> jobject" where
  "release_message J tx \<equiv> \<lambda>(n, k). (n, lock_message J MT_LOCK_RELEASE tx k)"

subsection \<open>The messages of a transaction\<close>

text \<open>
  The messages a transaction sends on its own behalf: lock requests, operation requests
  and releases under its id. The answers of a node to its peers are of other types.
\<close>

fun own :: "TransactionId \<Rightarrow> NodeID \<times> jobject \<Rightarrow> bool" where
  "own tx (n, msg) \<longleftrightarrow> map_of msg ''tx_id'' = Some (JUint tx) \<and>
     (map_of msg ''type'' = Some (JString MT_LOCK_REQUEST) \<or> map_of msg ''type'' = Some (JString MT_OP_REQUEST) \<or>
      map_of msg ''type'' = Some (JString MT_LOCK_RELEASE))"

definition own_sent :: "TransactionId \<Rightarrow> TwoPLScheduler \<Rightarrow> (NodeID \<times> jobject) list" where
  "own_sent tx s = filter (own tx) (sent s)"

lemma own_messages:
  assumes "boost_ok J"
  shows "filter (own tx) (map (request_message J tx) ps) = map (request_message J tx) ps"
    and "filter (own tx) (map (release_message J tx) ps) = map (release_message J tx) ps"
    and "own tx (n, op_request J tx op)"
  using assms by (auto simp: filter_id_conv op_request_members)

lemma own_sent_update [simp]:
  "own_sent tx (s\<lparr>lock_manager := lm\<rparr>) = own_sent tx s" "own_sent tx (s\<lparr>store := st\<rparr>) = own_sent tx s"
  "own_sent tx (s\<lparr>pending_remote_locks := p\<rparr>) = own_sent tx s" "own_sent tx (s\<lparr>pending_remote_ops := q\<rparr>) = own_sent tx s"
  "own_sent tx (s\<lparr>sent := ms\<rparr>) = filter (own tx) ms"
  by (simp_all add: own_sent_def)

text \<open>A loop of sends that does not throw has handed over all of its messages.\<close>

lemma send_each_result:
  "send_each S ms s = (r, s') \<Longrightarrow>
   (\<exists>ms'. s' = s\<lparr>sent := sent s @ ms'\<rparr>) \<and> (r = Inr () \<longrightarrow> s' = s\<lparr>sent := sent s @ ms\<rparr>)"
proof (induction ms arbitrary: s)
  case Nil
  then show ?case by (auto intro: exI [of _ "[]"])
next
  case (Cons m ms)
  obtain n msg where m: "m = (n, msg)" by force
  have st: "snd (send S n msg s) = s\<lparr>sent := sent s @ [(n, msg)]\<rparr>" by (rule send_state)
  show ?case
  proof (cases "fst (send S n msg s)")
    case (Inl e)
    then have "r = Inl e" "s' = snd (send S n msg s)" using Cons.prems m by (auto split: prod.splits)
    with st show ?thesis by auto
  next
    case (Inr u)
    then have "send_each S ms (s\<lparr>sent := sent s @ [(n, msg)]\<rparr>) = (r, s')" using Cons.prems m st by (auto split: prod.splits)
    from Cons.IH [OF this] m show ?thesis by auto
  qed
qed

text \<open>
  Threads that run while the transaction waits and do not send messages in its name. All
  handlers of peer messages are such, for any message.
\<close>

definition silent :: "TransactionId \<Rightarrow> (TwoPLScheduler \<Rightarrow> TwoPLScheduler) \<Rightarrow> bool" where
  "silent tx f \<longleftrightarrow> (\<forall>s. own_sent tx (f s) = own_sent tx s \<and> local_node_id (f s) = local_node_id s)"

lemma silentD:
  "silent tx f \<Longrightarrow> own_sent tx (f s) = own_sent tx s" "silent tx f \<Longrightarrow> local_node_id (f s) = local_node_id s"
  by (simp_all add: silent_def)

lemma answers_not_own:
  assumes "boost_ok J"
  shows "\<not> own tx (n, lock_message J MT_LOCK_GRANTED u k)" "\<not> own tx (n, lock_message J MT_LOCK_DENIED u k)"
    and "\<not> own tx (n, op_response J u k r)"
    and "\<not> own tx (n, obj_set J (obj_set J [] ''type'' (JString MT_TXN_COMMIT)) ''tx_id'' v)"
  using assms by (auto simp: op_response_members MT_defs)

lemma lock_handlers_silent:
  assumes "boost_ok J"
  shows "silent tx (handle_lock_request J S env peer msg)" "silent tx (handle_lock_response J peer msg)"
    "silent tx (handle_lock_release J peer msg)"
  using answers_not_own(1,2) [OF assms, of tx]
  by (auto simp: silent_def own_sent_def handle_lock_request_def handle_lock_response_def handle_lock_release_def
      same_address_def log_error_def Let_def send_catch simp del: own.simps split: sum.splits prod.splits)

lemma run_remote_op_frame: "run_remote_op X op s = (r, s') \<Longrightarrow> sent s' = sent s \<and> local_node_id s' = local_node_id s"
  by (auto simp: run_remote_op_def split: prod.splits sum.splits)

lemma operation_handlers_silent:
  assumes "boost_ok J"
  shows "silent tx (handle_operation_request J S X peer msg)" "silent tx (handle_operation_response J peer msg)"
    "silent tx (\<lambda>s. snd (handle_prepare_request J S peer msg s))"
  using answers_not_own(3,4) [OF assms, of tx]
  by (auto simp: silent_def own_sent_def handle_operation_request_def handle_operation_response_def handle_prepare_request_def
      log_error_def Let_def send_catch send_state simp del: own.simps split: sum.splits prod.splits option.splits
      dest!: run_remote_op_frame)

lemma handlers_silent:
  assumes "boost_ok J"
  shows "silent tx (\<lambda>s. snd (handle_peer_message J S X env peer msg s))"
  using lock_handlers_silent [OF assms, where tx = tx] operation_handlers_silent [OF assms, where tx = tx]
  by (auto simp: silent_def handle_peer_message_def Let_def handle_commit_request_def handle_abort_request_def split: sum.split)

text \<open>The growing phase up to the wait: the local locks, the entries of the pending keys, the requests.\<close>

definition request_and_wait :: "stdlib \<Rightarrow> boost_json \<Rightarrow> server_api \<Rightarrow> TransactionId \<Rightarrow> (NodeID \<times> KeyType) list \<Rightarrow>
    wait_event list \<Rightarrow> TwoPLScheduler \<Rightarrow> bool run" where
  "request_and_wait L J S tx ps tape s =
     (case send_each S (map (request_message J tx) ps) s of
        (Inl e, s1) \<Rightarrow> (Throws e, tape, s1)
      | (Inr _, s1) \<Rightarrow> (case wait_remote_locks L J S tx tape s1 of
          (Returns False, tape', s2) \<Rightarrow> (Returns False, tape', s2\<lparr>lock_manager := release_all L tx (lock_manager s2)\<rparr>)
        | r \<Rightarrow> r))"

lemma remote_requests:
  assumes "std_ok L" and "remote_pairs (local_node_id s) m \<noteq> {}"
    and "acquire_each (\<lambda>k. acquire (envs k) k tx) (key_order L (local_keys L (local_node_id s) m)) (lock_manager s) = (True, lm)"
  obtains ps p where "set ps = remote_pairs (local_node_id s) m" "p \<noteq> []"
    "pairs_of p = pairs_of (pending_of s tx) \<union> remote_pairs (local_node_id s) m"
    "\<forall>tape. acquire_all_locks L J S envs tape m tx s =
      request_and_wait L J S tx ps tape (s\<lparr>lock_manager := lm, pending_remote_locks := (pending_remote_locks s)(tx \<mapsto> p)\<rparr>)"
proof -
  let ?rk = "remote_keys L (local_node_id s) m"
  let ?ps = "key_pairs L ?rk" and ?s1 = "s\<lparr>lock_manager := lm\<rparr>"
  have ps: "set ?ps = remote_pairs (local_node_id s) m" using remote_keys_pairs(1) [OF assms(1)] .
  have rk: "?rk \<noteq> []" using ps assms(2) key_pairs_set [OF assms(1), of ?rk] by (metis pairs_of_empty)
  obtain q qs where q: "?ps = q # qs" using ps assms(2) by (cases ?ps) auto
  obtain p where p: "foldl (\<lambda>s nk. add_pending tx nk s) ?s1 ?ps =
      ?s1\<lparr>pending_remote_locks := (pending_remote_locks ?s1)(tx \<mapsto> p)\<rparr>" "pairs_of p = pairs_of (pending_of ?s1 tx) \<union> set ?ps"
    using add_pending_all [of tx ?s1 q qs] unfolding q by blast
  show ?thesis
  proof (rule that [of ?ps p])
    show "p \<noteq> []" using p(2) q by auto
    show "pairs_of p = pairs_of (pending_of s tx) \<union> remote_pairs (local_node_id s) m"
      using p(2) ps by (simp add: pending_of_def)
    show "\<forall>tape. acquire_all_locks L J S envs tape m tx s =
      request_and_wait L J S tx ?ps tape (s\<lparr>lock_manager := lm, pending_remote_locks := (pending_remote_locks s)(tx \<mapsto> p)\<rparr>)"
      using rk assms(3) p(1)
      by (simp add: request_and_wait_def acquire_all_locks_def acquire_remote_locks_with_retry_def Let_def split: prod.split sum.split)
  qed (rule ps)
qed

lemma wait_timeout:
  assumes "pending_remote_locks s tx = Some p" and "p \<noteq> []" and "std_ok L"
  obtains rel where "set rel = pairs_of (pending_of (f s) tx)"
    "wait_remote_locks L J S tx (Timeout f # tape) s =
      (case send_each S (map (release_message J tx) rel) (touch_pending tx (f s)) of
         (Inl e, s') \<Rightarrow> (Throws e, tape, s')
       | (Inr _, s') \<Rightarrow> (Returns False, tape, s'\<lparr>pending_remote_locks := (pending_remote_locks s')(tx := None)\<rparr>))"
proof (rule that [of "key_pairs L (pending_of (touch_pending tx (f s)) tx)"])
  show "set (key_pairs L (pending_of (touch_pending tx (f s)) tx)) = pairs_of (pending_of (f s) tx)"
    by (simp add: key_pairs_set [OF assms(3)]) (simp add: touch_pending_def pending_of_def)
  have "touch_pending tx s = s" using assms(1) by (simp add: touch_pending_def pending_of_def map_upd_triv)
  then show "wait_remote_locks L J S tx (Timeout f # tape) s =
      (case send_each S (map (release_message J tx) (key_pairs L (pending_of (touch_pending tx (f s)) tx))) (touch_pending tx (f s)) of
         (Inl e, s') \<Rightarrow> (Throws e, tape, s')
       | (Inr _, s') \<Rightarrow> (Returns False, tape, s'\<lparr>pending_remote_locks := (pending_remote_locks s')(tx := None)\<rparr>))"
    using assms(1,2) by (subst wait_remote_locks.simps) (simp add: Let_def pending_of_def)
qed

text \<open>One local key and one remote key, on node 0.\<close>

definition demo_keys :: "(NodeID \<times> KeyType list) list" where
  "demo_keys = [(0, [4]), (1, [5])]"

definition demo_lm :: LockManager where
  "demo_lm = set_owner 4 (Some 9) (track 4 9 (ensure_entry 4 init_lock_manager))"

lemma demo_keys_facts:
  "local_keys std_ref 0 demo_keys = [4]" "remote_pairs 0 demo_keys = {(1, 5)}"
  "acquire_each (\<lambda>k. acquire quiet k 9) [4] init_lock_manager = (True, demo_lm)"
  by (auto simp: local_keys_def demo_keys_def remote_pairs_def pairs_of_def acquire_free demo_lm_def)

lemma quiet_rely_family: "rely_family tx (\<lambda>_. quiet) std_ref"
  by (rule quiet_family.rely_family_axioms)


lemma demo_timeouts:
  "fst (acquire_all_locks std_ref boost_ref server_up (\<lambda>_. quiet) [Timeout (\<lambda>s. s)] demo_keys 9 sched0) = Returns False"
  "fst (acquire_all_locks std_ref boost_ref server_up (\<lambda>_. quiet)
     [Timeout (handle_lock_response boost_ref 1 (lock_message boost_ref MT_LOCK_GRANTED 9 5))] demo_keys 9 sched0) = Returns False"
  "fst (acquire_all_locks std_ref boost_ref server_up (\<lambda>_. quiet)
     [Wake (\<lambda>s. snd (handle_peer_message boost_ref server_up (executor_ref std_ref) quiet 3
       (lock_message boost_ref MT_LOCK_DENIED 9 7) s))] demo_keys 9 sched0) = Returns True"
  by code_simp+




text \<open>A server on which every send throws.\<close>

definition server_down :: "exn \<Rightarrow> server_api" where
  "server_down e = \<lparr>srv_send = (\<lambda>_ _ _. Some e), srv_startup = (\<lambda>_ _. None)\<rparr>"

text \<open>
  A failed send leaks the local locks. The growing phase stands outside the try
  block of the transaction: if sending a lock request throws, the exception leaves
  \<open>execute_with_distributed_support\<close> with all local keys still locked.
\<close>

theorem send_failure_leaks_locks:
  assumes "std_ok L" and "tx_inv tx (lock_manager s)" and "rely_family tx envs L"
    and "categorize L s ops (Map.empty, []) = Inr (key_to_node, m)"
    and "remote_pairs (local_node_id s) m \<noteq> {}"
    and "acquire_each (\<lambda>k. acquire (envs k) k tx) (key_order L (local_keys L (local_node_id s) m)) (lock_manager s) = (True, lm)"
  shows "\<exists>s'. execute_with_distributed_support L J (server_down e) X envs tape ops tx s = (Throws e, tape, s') \<and>
    (\<forall>k \<in> set (local_keys L (local_node_id s) m). owner_of (lock_manager s') k = Some tx)"
proof -
  let ?rk = "remote_keys L (local_node_id s) m"
  let ?ps = "key_pairs L ?rk" and ?s1 = "s\<lparr>lock_manager := lm\<rparr>"
  have ps: "set ?ps = remote_pairs (local_node_id s) m" using remote_keys_pairs(1) [OF assms(1)] .
  have rk: "?rk \<noteq> []" using ps assms(5) key_pairs_set [OF assms(1), of ?rk] by (metis pairs_of_empty)
  obtain q qs where q: "?ps = q # qs" using ps assms(5) by (cases ?ps) auto
  obtain p where p: "foldl (\<lambda>s nk. add_pending tx nk s) ?s1 (q # qs) =
      ?s1\<lparr>pending_remote_locks := (pending_remote_locks ?s1)(tx \<mapsto> p)\<rparr>"
    using add_pending_all [of tx ?s1 q qs] by blast
  have "\<exists>s2. acquire_remote_locks_with_retry L J (server_down e) tape ?rk tx ?s1 = (Throws e, tape, s2) \<and>
      lock_manager s2 = lm"
    unfolding acquire_remote_locks_with_retry_def Let_def q p
    by (cases q) (simp add: send_def server_down_def)
  then obtain s2 where "acquire_all_locks L J (server_down e) envs tape m tx s = (Throws e, tape, s2)" "lock_manager s2 = lm"
    using rk assms(6) by (auto simp: acquire_all_locks_def Let_def)
  moreover have "\<forall>k \<in> set (local_keys L (local_node_id s) m). owner_of lm k = Some tx"
    using rely_family.growing_phase(2) [OF assms(3,2,6)] assms(1) by simp
  ultimately show ?thesis using assms(4) by (simp add: execute_with_distributed_support_def)
qed

definition sched_cluster :: TwoPLScheduler where
  "sched_cluster = sched0\<lparr>coordinator := Some (make_coordinator 0 [0, 1]), num_nodes := 2\<rparr>"

lemma sched_cluster_simps [simp]:
  "local_node_id sched_cluster = 0" "lock_manager sched_cluster = init_lock_manager"
  by (simp_all add: sched_cluster_def)

lemma demo_categorize:
  "\<exists>key_to_node. categorize std_ref sched_cluster [ReadOp 4, ReadOp 5] (Map.empty, []) = Inr (key_to_node, demo_keys)"
proof -
  have "primary_of std_ref sched_cluster 4 = Inr 0" "primary_of std_ref sched_cluster 5 = Inr 1"
    by code_simp+
  then show ?thesis by (simp add: demo_keys_def)
qed

theorem send_failure_leaks_locks_witness:
  "\<exists>s'. execute_with_distributed_support std_ref boost_ref (server_down (RuntimeError ''peer'')) (executor_ref std_ref)
      (\<lambda>_. quiet) [] [ReadOp 4, ReadOp 5] 9 sched_cluster = (Throws (RuntimeError ''peer''), [], s') \<and>
    owner_of (lock_manager s') 4 = Some 9"
proof -
  obtain m where "categorize std_ref sched_cluster [ReadOp 4, ReadOp 5] (Map.empty, []) = Inr (m, demo_keys)"
    using demo_categorize by blast
  with send_failure_leaks_locks [OF std_ref_ok _ quiet_rely_family this, where lm = demo_lm and J = boost_ref
      and e = "RuntimeError ''peer''" and X = "executor_ref std_ref" and tape = "[]"]
  show ?thesis using demo_keys_facts by (simp del: acquire_each.simps)
qed

text \<open>
  An answer at the deadline leaks the remote locks. When the wait for remote locks ends with a
  timeout, releases are sent for the keys that are still pending and not for those that
  have been granted, and any lock response empties the pending keys: if one is handled
  before the waiting thread has the mutex again, the transaction returns nothing, no
  release is sent at all, and what the peers have granted stays locked.
\<close>

theorem late_answer_leaks_locks:
  assumes "std_ok L" and "boost_ok J" and "categorize L s ops (Map.empty, []) = Inr (key_to_node, m)"
    and "remote_pairs (local_node_id s) m \<noteq> {}"
    and "acquire_each (\<lambda>k. acquire (envs k) k tx) (key_order L (local_keys L (local_node_id s) m)) (lock_manager s) = (True, lm)"
  shows "\<exists>s' req. execute_with_distributed_support L J server_up X envs
      (Timeout (handle_lock_response J peer (lock_message J MT_LOCK_GRANTED tx k)) # tape) ops tx s = (Returns [], tape, s') \<and>
    sent s' = sent s @ map (request_message J tx) req \<and> set req = remote_pairs (local_node_id s) m"
proof -
  let ?rk = "remote_keys L (local_node_id s) m" and ?f = "handle_lock_response J peer (lock_message J MT_LOCK_GRANTED tx k)"
  let ?ps = "key_pairs L ?rk" and ?s1 = "s\<lparr>lock_manager := lm\<rparr>"
  have ps: "set ?ps = remote_pairs (local_node_id s) m" using remote_keys_pairs(1) [OF assms(1)] .
  have rk: "?rk \<noteq> []" using ps assms(4) key_pairs_set [OF assms(1), of ?rk] by (metis pairs_of_empty)
  obtain q qs where q: "?ps = q # qs" using ps assms(4) by (cases ?ps) auto
  obtain p where p: "foldl (\<lambda>s nk. add_pending tx nk s) ?s1 ?ps =
      ?s1\<lparr>pending_remote_locks := (pending_remote_locks s)(tx \<mapsto> p)\<rparr>" "set ?ps \<subseteq> pairs_of p"
    using add_pending_all [of tx ?s1 q qs] unfolding q by auto
  let ?s2 = "?s1\<lparr>pending_remote_locks := (pending_remote_locks s)(tx \<mapsto> p),
      sent := sent s @ map (request_message J tx) ?ps\<rparr>"
  have "p \<noteq> []" using p(2) q by auto
  moreover have "?f s' = s'\<lparr>pending_remote_locks := (pending_remote_locks s')(tx := None)\<rparr>" for s'
    using assms(2) by (simp add: handle_lock_response_def same_address_def)
  moreover have "key_pairs L [] = []" using key_pairs_set [OF assms(1), of "[]"] by (simp add: pairs_of_def)
  ultimately have "wait_remote_locks L J server_up tx (Timeout ?f # tape) ?s2 = (Returns False, tape,
      ?s2\<lparr>pending_remote_locks := (pending_remote_locks s)(tx := None)\<rparr>)"
    by (subst wait_remote_locks.simps) (simp add: Let_def touch_pending_def pending_of_def)
  then have "acquire_all_locks L J server_up envs (Timeout ?f # tape) m tx s = (Returns False, tape,
      ?s2\<lparr>pending_remote_locks := (pending_remote_locks s)(tx := None), lock_manager := release_all L tx lm\<rparr>)"
    using rk assms(5) p(1)
    by (simp add: acquire_all_locks_def Let_def acquire_remote_locks_with_retry_def send_each_up)
  then show ?thesis using assms(3) ps by (auto simp: execute_with_distributed_support_def)
qed

theorem late_answer_leaks_locks_witness:
  "\<exists>s'. execute_with_distributed_support std_ref boost_ref server_up (executor_ref std_ref) (\<lambda>_. quiet)
      [Timeout (handle_lock_response boost_ref 1 (lock_message boost_ref MT_LOCK_GRANTED 9 5))] [ReadOp 4, ReadOp 5] 9 sched_cluster =
      (Returns [], [], s') \<and> set (sent s') = {(1, lock_message boost_ref MT_LOCK_REQUEST 9 5)}"
proof -
  obtain m where "categorize std_ref sched_cluster [ReadOp 4, ReadOp 5] (Map.empty, []) = Inr (m, demo_keys)"
    using demo_categorize by blast
  from late_answer_leaks_locks [OF std_ref_ok boost_ref_ok this, where lm = demo_lm and envs = "\<lambda>_. quiet" and tape = "[]"
      and tx = 9 and peer = 1 and k = 5 and X = "executor_ref std_ref"]
  obtain s' req where run: "execute_with_distributed_support std_ref boost_ref server_up (executor_ref std_ref) (\<lambda>_. quiet)
      [Timeout (handle_lock_response boost_ref 1 (lock_message boost_ref MT_LOCK_GRANTED 9 5))] [ReadOp 4, ReadOp 5] 9 sched_cluster =
      (Returns [], [], s')" "sent s' = sent sched_cluster @ map (request_message boost_ref 9) req" "set req = {(1, 5)}"
    using demo_keys_facts by (auto simp del: acquire_each.simps)
  moreover have "sent sched_cluster = []" by (simp add: sched_cluster_def)
  ultimately show ?thesis by auto
qed

section \<open>The order of messages\<close>

definition silent_tape :: "TransactionId \<Rightarrow> wait_event list \<Rightarrow> bool" where
  "silent_tape tx = list_all (\<lambda>ev. case ev of Wake f \<Rightarrow> silent tx f | Timeout f \<Rightarrow> silent tx f)"

lemma silent_tape_simps [simp]:
  "silent_tape tx []" "silent_tape tx (Wake f # tape) \<longleftrightarrow> silent tx f \<and> silent_tape tx tape"
  "silent_tape tx (Timeout f # tape) \<longleftrightarrow> silent tx f \<and> silent_tape tx tape"
  by (simp_all add: silent_tape_def)

lemma wait_remote_locks_sent:
  "wait_remote_locks L J S tx tape s = (Returns True, tape', s') \<Longrightarrow> silent_tape tx tape \<Longrightarrow>
   own_sent tx s' = own_sent tx s \<and> local_node_id s' = local_node_id s \<and> silent_tape tx tape'"
proof (induction tape arbitrary: s)
  case Nil
  then show ?case
    by (subst (asm) wait_remote_locks.simps) (auto simp: Let_def touch_pending_def split: if_splits)
next
  case (Cons ev tape)
  show ?case
  proof (cases "pending_of (touch_pending tx s) tx = []")
    case True
    with Cons.prems show ?thesis
      by (subst (asm) wait_remote_locks.simps) (auto simp: Let_def touch_pending_def)
  next
    case False
    then obtain f where f: "ev = Wake f"
      using Cons.prems(1)
      by (subst (asm) wait_remote_locks.simps) (cases ev, auto simp: Let_def split: prod.splits sum.splits)
    with False Cons.prems have "wait_remote_locks L J S tx tape (f (touch_pending tx s)) = (Returns True, tape', s')"
      by (subst (asm) wait_remote_locks.simps) (simp add: Let_def)
    from Cons.IH [OF this] Cons.prems(2) f show ?thesis
      using silentD [of tx f "touch_pending tx s"] by (simp add: touch_pending_def)
  qed
qed

lemma wait_remote_op_sent:
  "wait_remote_op tx' target k tape s = (out, tape', s') \<Longrightarrow> silent_tape tx tape \<Longrightarrow>
   own_sent tx s' = own_sent tx s \<and> local_node_id s' = local_node_id s \<and> silent_tape tx tape'"
proof (induction tape arbitrary: s)
  case Nil
  then show ?case by (subst (asm) wait_remote_op.simps) (auto split: if_splits)
next
  case (Cons ev tape)
  from Cons.prems show ?case
    by (subst (asm) wait_remote_op.simps, cases ev)
       (auto simp: Let_def silentD split: if_splits dest!: Cons.IH)
qed

lemma execute_remote_operation_sent:
  assumes "execute_remote_operation J S target tx op tape s = (out, tape', s')" and "silent_tape tx tape" and "boost_ok J"
  shows "own_sent tx s' = own_sent tx s @ [(target, op_request J tx op)] \<and> local_node_id s' = local_node_id s \<and>
    silent_tape tx tape'"
proof -
  let ?s1 = "awaiting tx target op s"
  obtain r s2 where s2: "send S target (op_request J tx op) ?s1 = (r, s2)" by force
  have own: "own_sent tx s2 = own_sent tx s @ [(target, op_request J tx op)]" "local_node_id s2 = local_node_id s"
    using send_state [of S target "op_request J tx op" ?s1] s2 own_messages(3) [OF assms(3), of tx target op]
    by (simp_all add: own_sent_def)
  with assms(1,2) s2 show ?thesis
    by (auto simp: execute_remote_operation_def Let_def split: prod.splits sum.splits outcome.splits bool.splits
        dest!: wait_remote_op_sent)
qed

text \<open>The operation messages of a transaction: one per operation on a remote key.\<close>

definition op_messages :: "boost_json \<Rightarrow> TransactionId \<Rightarrow> NodeID \<Rightarrow> (KeyType \<rightharpoonup> NodeID) \<Rightarrow> Operation list \<Rightarrow>
    (NodeID \<times> jobject) list" where
  "op_messages J tx here m ops =
     map (\<lambda>op. (case m (op_key op) of None \<Rightarrow> 0 | Some n \<Rightarrow> n, op_request J tx op))
       (filter (\<lambda>op. (case m (op_key op) of None \<Rightarrow> 0 | Some n \<Rightarrow> n) \<noteq> here) ops)"

lemma exec_ops_sent:
  assumes "boost_ok J"
  shows "exec_ops J S X m tx ops results tape s = (Returns rs, tape', s') \<Longrightarrow> silent_tape tx tape \<Longrightarrow>
    own_sent tx s' = own_sent tx s @ op_messages J tx (local_node_id s) m ops \<and> local_node_id s' = local_node_id s"
proof (induction ops arbitrary: results tape s)
  case Nil
  then show ?case by (simp add: op_messages_def)
next
  case (Cons op ops)
  let ?n = "case m (op_key op) of None \<Rightarrow> 0 | Some n \<Rightarrow> n"
  show ?case
  proof (cases "?n = local_node_id s")
    case True
    then obtain rs1 v where "visit X op (make_executor X (store s)) = (Inr rs1, v)"
        "exec_ops J S X m tx ops (results @ rs1) tape (s\<lparr>store := exec_store v\<rparr>) = (Returns rs, tape', s')"
      using Cons.prems(1) by (auto simp: Let_def split: prod.splits sum.splits)
    with Cons.IH [OF this(2)] Cons.prems(2) True show ?thesis by (simp add: op_messages_def)
  next
    case False
    then obtain r tape1 s1 where
        r: "execute_remote_operation J S ?n tx op tape s = (Returns r, tape1, s1)"
        "exec_ops J S X m tx ops (case r of None \<Rightarrow> results | Some v \<Rightarrow> results @ [(op_key op, Some v)])
           tape1 s1 = (Returns rs, tape', s')"
      using Cons.prems(1) by (auto simp: Let_def split: prod.splits outcome.splits)
    note 1 = execute_remote_operation_sent [OF r(1) Cons.prems(2) assms]
    with Cons.IH [OF r(2)] False show ?thesis by (simp add: op_messages_def)
  qed
qed

lemma add_pending_frame:
  "sent (foldl (\<lambda>s nk. add_pending tx nk s) s ps) = sent s"
  "local_node_id (foldl (\<lambda>s nk. add_pending tx nk s) s ps) = local_node_id s"
  by (induction ps arbitrary: s) (simp_all add: add_pending_def)

lemma acquire_all_locks_sent:
  assumes "acquire_all_locks L J S envs tape m tx s = (Returns True, tape', s')" and "silent_tape tx tape"
    and "std_ok L" and "boost_ok J"
  shows "own_sent tx s' = own_sent tx s @ map (request_message J tx) (key_pairs L (remote_keys L (local_node_id s) m)) \<and>
    local_node_id s' = local_node_id s \<and> silent_tape tx tape'"
proof -
  let ?rk = "remote_keys L (local_node_id s) m"
  obtain lm where a: "acquire_each (\<lambda>k. acquire (envs k) k tx) (key_order L (local_keys L (local_node_id s) m))
      (lock_manager s) = (True, lm)"
    using assms(1) by (auto simp: acquire_all_locks_def Let_def split: prod.splits bool.splits)
  let ?ps = "key_pairs L (remote_keys L (local_node_id s) m)"
  let ?s1 = "foldl (\<lambda>s nk. add_pending tx nk s) (s\<lparr>lock_manager := lm\<rparr>) ?ps"
  show ?thesis
  proof (cases "?rk = []")
    case True
    then have "set ?ps = {}" using key_pairs_set [OF assms(3), of ?rk] by simp
    with True a assms show ?thesis by (auto simp: acquire_all_locks_def Let_def)
  next
    case False
    then have "acquire_remote_locks_with_retry L J S tape ?rk tx (s\<lparr>lock_manager := lm\<rparr>) = (Returns True, tape', s')"
      using assms(1) a by (auto simp: acquire_all_locks_def Let_def split: prod.splits outcome.splits bool.splits)
    then obtain s2 where s2: "send_each S (map (request_message J tx) ?ps) ?s1 = (Inr (), s2)"
        "wait_remote_locks L J S tx tape s2 = (Returns True, tape', s')"
      by (auto simp: acquire_remote_locks_with_retry_def Let_def split: prod.splits sum.splits)
    have "s2 = ?s1\<lparr>sent := sent s @ map (request_message J tx) ?ps\<rparr>"
      using send_each_result [OF s2(1)] by (simp add: add_pending_frame)
    then have "own_sent tx s2 = own_sent tx s @ map (request_message J tx) ?ps" "local_node_id s2 = local_node_id s"
      by (simp_all add: own_messages [OF assms(4)] add_pending_frame own_sent_def)
    with wait_remote_locks_sent [OF s2(2) assms(2)] show ?thesis by simp
  qed
qed


text \<open>The peer grants the lock and answers the read.\<close>

definition demo_tape :: "wait_event list" where
  "demo_tape =
     [Wake (\<lambda>s. snd (handle_peer_message boost_ref server_up (executor_ref std_ref) quiet 1
        (lock_message boost_ref MT_LOCK_GRANTED 9 5) s)),
      Wake (\<lambda>s. snd (handle_peer_message boost_ref server_up (executor_ref std_ref) quiet 1
        (op_response boost_ref 9 5 (Some [3])) s))]"

lemma demo_tape_silent: "silent_tape 9 demo_tape"
  by (simp add: demo_tape_def handlers_silent [OF boost_ref_ok])

lemma demo_tape_runs:
  "fst (acquire_all_locks std_ref boost_ref server_up (\<lambda>_. quiet) demo_tape demo_keys 9 sched_cluster) = Returns True"
  "fst (execute_with_distributed_support std_ref boost_ref server_up (executor_ref std_ref) (\<lambda>_. quiet) demo_tape
     [ReadOp 4, ReadOp 5] 9 sched_cluster) = Returns [(4, None), (5, Some [3])]"
  by code_simp+


section \<open>Robustness of the handlers\<close>

lemma log_error_frame [simp]:
  "lock_manager (log_error e s) = lock_manager s" "store (log_error e s) = store s"
  by (simp_all add: log_error_def)

text \<open>What each handler does to the locks and to the store, for any message.\<close>

lemma lock_request_safe:
  assumes "tx_inv t (lock_manager s)" and "\<And>w lm. leaves t lm (env w lm)"
  shows "tx_inv t (lock_manager (handle_lock_request J S env peer msg s)) \<and>
    store (handle_lock_request J S env peer msg s) = store s"
proof (cases "tx_and_key J msg")
  case (Inr p)
  obtain tx k where p: "p = (tx, k)" by (cases p)
  obtain r lm where a: "acquire env k tx (lock_manager s) = (r, lm)" by force
  have "tx_inv t lm"
  proof (cases "t = tx")
    case True
    have "rely_env tx env" using assms(2) True by unfold_locales simp
    then show ?thesis using rely_env.acquire_settled [OF _ _ a] assms(1) True by blast
  next
    case False
    then show ?thesis
      using tx_inv_leaves [OF assms(1)] acquire_leaves [of t env tx "lock_manager s" k] assms(2) a by simp
  qed
  with Inr p a assms(1) show ?thesis by (simp add: handle_lock_request_def Let_def send_catch)
qed (use assms(1) in \<open>simp add: handle_lock_request_def\<close>)

lemma lock_response_safe:
  "lock_manager (handle_lock_response J peer msg s) = lock_manager s"
  "store (handle_lock_response J peer msg s) = store s"
  by (auto simp: handle_lock_response_def same_address_def split: sum.splits prod.splits)

lemma lock_release_safe:
  "tx_inv t (lock_manager s) \<Longrightarrow> tx_inv t (lock_manager (handle_lock_release J peer msg s))"
  "store (handle_lock_release J peer msg s) = store s"
  by (auto simp: handle_lock_release_def split: sum.splits prod.splits)

lemma operation_response_safe:
  "lock_manager (handle_operation_response J peer msg s) = lock_manager s"
  "store (handle_operation_response J peer msg s) = store s"
  by (auto simp: handle_operation_response_def split: sum.splits prod.splits)

lemma operation_request_safe:
  assumes "executor_ok L X" and "kv_wf L (store s)"
  shows "lock_manager (handle_operation_request J S X peer msg s) = lock_manager s \<and>
    kv_wf L (store (handle_operation_request J S X peer msg s))"
proof (cases "tx_op_key J msg")
  case (Inr p)
  obtain tx kind k where p: "p = (tx, kind, k)" by (cases p) auto
  show ?thesis
  proof (cases "request_op J msg kind k")
    case req: (Inr op)
    show ?thesis
    proof (cases op)
      case None
      with Inr p req assms(2) show ?thesis by (simp add: handle_operation_request_def send_catch)
    next
      case (Some op')
      obtain st out where "run_remote_op X op' s = (Inr out, s\<lparr>store := st\<rparr>)" "kv_wf L st"
        using run_remote_op_refines [OF assms, of op'] by blast
      with Some Inr p req assms(2) show ?thesis by (simp add: handle_operation_request_def send_catch)
    qed
  qed (use Inr p assms(2) in \<open>simp add: handle_operation_request_def\<close>)
qed (use assms(2) in \<open>simp add: handle_operation_request_def\<close>)

lemma prepare_request_safe:
  "lock_manager (snd (handle_prepare_request J S peer msg s)) = lock_manager s"
  "store (snd (handle_prepare_request J S peer msg s)) = store s"
  by (simp_all add: handle_prepare_request_def Let_def send_state split: sum.split)

lemmas handlers_safe = lock_response_safe lock_release_safe operation_response_safe prepare_request_safe

text \<open>
  C31 (no message breaks the invariants). Whatever object a peer sends, with any or no
  \<open>type\<close>, members of the wrong kind or missing ones: the store stays well-formed, and the
  lock manager keeps the invariant of every transaction whose locks the other threads
  leave alone meanwhile. An exception leaves the dispatcher only if the type is not a
  string, as in the messages of \<open>DistributedCoordinator\<close>, or for a prepare message.
\<close>

theorem peer_message_safe:
  assumes "boost_ok J" and "executor_ok L X" and "kv_wf L (store s)"
    and "tx_inv t (lock_manager s)" and "\<And>w lm. leaves t lm (env w lm)"
  shows "tx_inv t (lock_manager (snd (handle_peer_message J S X env peer msg s))) \<and>
    kv_wf L (store (snd (handle_peer_message J S X env peer msg s))) \<and>
    ((\<exists>e. fst (handle_peer_message J S X env peer msg s) = Inl e) \<longrightarrow>
       (\<exists>v. map_of msg ''type'' = Some v \<and> (\<forall>t. v = JString t \<longrightarrow> c_str t = MT_TXN_PREPARE)))"
proof (cases "\<exists>t. map_of msg ''type'' = Some (JString t)")
  case True
  then obtain ty where "map_of msg ''type'' = Some (JString ty)" by blast
  then show ?thesis
    using assms(1,3,4) lock_request_safe [OF assms(4,5)] operation_request_safe [OF assms(2,3)]
    by (simp add: handle_peer_message_def Let_def handlers_safe handle_commit_request_def handle_abort_request_def)
next
  case False
  then show ?thesis
    using assms(1,3,4) by (auto simp: handle_peer_message_def split: option.splits json.splits)
qed

theorem peer_message_safe_witness:
  "let msg = [(''type'', JString MT_LOCK_REQUEST), (''tx_id'', JInt 9), (''key'', JNull)];
       s' = snd (handle_peer_message boost_ref server_up (executor_ref std_ref) quiet 2 msg
              (sched0\<lparr>lock_manager := lm_held\<rparr>))
   in tx_inv 7 (lock_manager s') \<and> kv_wf std_ref (store s')"
  using peer_message_safe [OF boost_ref_ok executor_ref_ok, of std_ref "sched0\<lparr>lock_manager := lm_held\<rparr>" 7 quiet
      server_up 2 "[(''type'', JString MT_LOCK_REQUEST), (''tx_id'', JInt 9), (''key'', JNull)]"]
  by (simp add: quiet_apply)

end
