(* ===== verification/Scheduler_Wf.thy ===== *)
theory Scheduler_Wf
  imports Distributed
begin

text \<open>
  What every operation of \<open>TwoPLScheduler\<close> keeps. The locale \<open>scheduler_invariant\<close> asks
  of a predicate that the elementary changes of the scheduler's state keep it, and
  concludes that whole transactions, local or distributed, and the handlers of peer
  messages do. It is used for the well-formedness of the state: the containers hold no
  duplicates and no empty sets, the store has its 256 stripes, and the coordinator, once
  there, agrees with the scheduler and lists its own node.
\<close>

section \<open>Invariants of the scheduler\<close>

definition tape_keeps :: "(TwoPLScheduler \<Rightarrow> bool) \<Rightarrow> wait_event list \<Rightarrow> bool" where
  "tape_keeps I tape \<longleftrightarrow> (\<forall>ev \<in> set tape. \<forall>s. I s \<longrightarrow> I (case ev of Wake f \<Rightarrow> f s | Timeout f \<Rightarrow> f s))"

lemma tape_keeps_Cons:
  "tape_keeps I (ev # tape) \<longleftrightarrow> (\<forall>s. I s \<longrightarrow> I (case ev of Wake f \<Rightarrow> f s | Timeout f \<Rightarrow> f s)) \<and> tape_keeps I tape"
  by (auto simp: tape_keeps_def)

text \<open>A run that ends, blocks or throws in a state with the invariant.\<close>

definition keeps :: "(TwoPLScheduler \<Rightarrow> bool) \<Rightarrow> 'a run \<Rightarrow> bool" where
  "keeps I r \<longleftrightarrow> tape_keeps I (fst (snd r)) \<and> I (snd (snd r))"

lemma keeps_simps [simp]: "keeps I (out, tape, s) \<longleftrightarrow> tape_keeps I tape \<and> I s"
  by (simp add: keeps_def)

locale scheduler_invariant =
  fixes I :: "TwoPLScheduler \<Rightarrow> bool" and L :: stdlib and X :: executor_api and envs :: "KeyType \<Rightarrow> interference"
  assumes keep_acquire: "I s \<Longrightarrow> acquire (envs k) k tx (lock_manager s) = (r, lm) \<Longrightarrow> I (s\<lparr>lock_manager := lm\<rparr>)"
    and keep_release: "I s \<Longrightarrow> I (s\<lparr>lock_manager := release k tx (lock_manager s)\<rparr>)"
    and keep_release_all: "I s \<Longrightarrow> I (s\<lparr>lock_manager := release_all L tx (lock_manager s)\<rparr>)"
    and keep_visit: "I s \<Longrightarrow> visit X op (make_executor X (store s)) = (res, v) \<Longrightarrow> I (s\<lparr>store := exec_store v\<rparr>)"
    and keep_output: "I s \<Longrightarrow> I (s\<lparr>sent := ms\<rparr>)" "I s \<Longrightarrow> I (s\<lparr>logged := es\<rparr>)" "I s \<Longrightarrow> I (s\<lparr>next_tx_id := t\<rparr>)"
    and keep_pending: "I s \<Longrightarrow> I (touch_pending tx s)" "I s \<Longrightarrow> I (add_pending tx nk s)"
      "I s \<Longrightarrow> I (s\<lparr>pending_remote_locks := (pending_remote_locks s)(tx := None)\<rparr>)"
      "I s \<Longrightarrow> pending_remote_locks s tx = Some m \<Longrightarrow>
        I (s\<lparr>pending_remote_locks := (pending_remote_locks s)(tx \<mapsto> erase_pending peer k m)\<rparr>)"
    and keep_ops: "I s \<Longrightarrow> I (s\<lparr>pending_remote_ops := (pending_remote_ops s)(tx \<mapsto> List.insert p (ops_pending s tx))\<rparr>)"
      "I s \<Longrightarrow> I (s\<lparr>pending_remote_ops := (pending_remote_ops s)(tx \<mapsto> removeAll p (ops_pending s tx))\<rparr>)"
    and keep_results: "I s \<Longrightarrow> I (s\<lparr>remote_results := rr\<rparr>)"
begin

lemma send_keeps: "I s \<Longrightarrow> I (snd (send S peer msg s))"
  by (simp add: send_state keep_output)

lemma send_each_keeps: "I s \<Longrightarrow> I (snd (send_each S ms s))"
proof (induction ms arbitrary: s)
  case (Cons m ms)
  obtain peer msg where m: "m = (peer, msg)" by (cases m)
  obtain r s1 where r: "send S peer msg s = (r, s1)" by force
  then have "I s1" using send_keeps [OF Cons.prems, of S peer msg] by simp
  with m r Cons.IH Cons.prems show ?case by (cases r) simp_all
qed simp

lemma log_error_keeps: "I s \<Longrightarrow> I (log_error e s)"
  by (simp add: log_error_def keep_output)

lemma acquire_each_keeps:
  "I s \<Longrightarrow> acquire_each (\<lambda>k. acquire (envs k) k tx) ks (lock_manager s) = (b, lm) \<Longrightarrow> I (s\<lparr>lock_manager := lm\<rparr>)"
proof (induction ks arbitrary: s)
  case (Cons k ks)
  obtain r lm1 where a: "acquire (envs k) k tx (lock_manager s) = (r, lm1)" by force
  have I1: "I (s\<lparr>lock_manager := lm1\<rparr>)" by (rule keep_acquire [OF Cons.prems(1) a])
  show ?case
  proof (cases r)
    case ACQUIRED
    then show ?thesis using Cons.IH [OF I1] Cons.prems(2) a by simp
  next
    case ABORTED
    then show ?thesis using I1 Cons.prems(2) a by simp
  qed
qed auto

lemma wait_remote_locks_keeps: "I s \<Longrightarrow> tape_keeps I tape \<Longrightarrow> keeps I (wait_remote_locks L J S tx tape s)"
proof (induction tape arbitrary: s)
  case Nil
  then show ?case by (subst wait_remote_locks.simps) (simp add: Let_def keep_pending)
next
  case (Cons ev tape)
  have I1: "I (touch_pending tx s)" using Cons.prems(1) by (rule keep_pending)
  show ?case
  proof (cases ev)
    case (Wake f)
    then have "I (f (touch_pending tx s))" "tape_keeps I tape" using Cons.prems(2) I1 by (auto simp: tape_keeps_Cons)
    then show ?thesis
      using Cons Wake I1 by (subst wait_remote_locks.simps) (simp add: Let_def)
  next
    case (Timeout f)
    let ?s2 = "touch_pending tx (f (touch_pending tx s))"
    have f: "I ?s2" "tape_keeps I tape" using Cons.prems(2) I1 Timeout keep_pending(1) by (auto simp: tape_keeps_Cons)
    obtain r s3 where r: "send_each S (map (\<lambda>(n, k). (n, lock_message J MT_LOCK_RELEASE tx k))
        (key_pairs L (pending_of ?s2 tx))) ?s2 = (r, s3)" by force
    then have "I s3" using send_each_keeps [OF f(1)] by (metis snd_conv)
    then show ?thesis
      using Timeout Cons.prems I1 f r
      by (subst wait_remote_locks.simps) (cases r, simp_all add: Let_def keep_pending)
  qed
qed

lemma acquire_remote_keeps:
  assumes "I s" and "tape_keeps I tape"
  shows "keeps I (acquire_remote_locks_with_retry L J S tape remotes tx s)"
proof -
  have "I (foldl (\<lambda>s nk. add_pending tx nk s) s' ps)" if "I s'" for s' ps
    using that by (induction ps arbitrary: s') (simp_all add: keep_pending)
  note I1 = this [OF assms(1), of "key_pairs L remotes"]
  obtain r s2 where r: "send_each S (map (\<lambda>(n, k). (n, lock_message J MT_LOCK_REQUEST tx k)) (key_pairs L remotes))
      (foldl (\<lambda>s nk. add_pending tx nk s) s (key_pairs L remotes)) = (r, s2)" by force
  then have "I s2" using send_each_keeps [OF I1] by (metis snd_conv)
  with r assms(2) wait_remote_locks_keeps show ?thesis
    by (cases r) (simp_all add: acquire_remote_locks_with_retry_def Let_def)
qed

lemma acquire_all_locks_keeps:
  assumes "I s" and "tape_keeps I tape"
  shows "keeps I (acquire_all_locks L J S envs tape ntk tx s)"
proof -
  let ?ks = "key_order L (local_keys L (local_node_id s) ntk)" and ?rem = "remote_keys L (local_node_id s) ntk"
  obtain b lm where a: "acquire_each (\<lambda>k. acquire (envs k) k tx) ?ks (lock_manager s) = (b, lm)" by force
  let ?s1 = "s\<lparr>lock_manager := lm\<rparr>"
  have I1: "I ?s1" by (rule acquire_each_keeps [OF assms(1) a])
  obtain out tape' s2 where r: "acquire_remote_locks_with_retry L J S tape ?rem tx ?s1 = (out, tape', s2)"
    by (cases "acquire_remote_locks_with_retry L J S tape ?rem tx ?s1")
  then have I2: "I s2" "tape_keeps I tape'" using acquire_remote_keeps [OF I1 assms(2), of J S ?rem tx] by simp_all
  show ?thesis
    using a r I1 I2 assms(2) keep_release_all [OF I1, of tx] keep_release_all [OF I2(1), of tx]
    by (cases b) (auto simp: acquire_all_locks_def Let_def split: outcome.split bool.split)
qed

lemma release_all_locks_keeps: "I s \<Longrightarrow> I (snd (release_all_locks L J S ntk tx s))"
  by (simp add: release_all_locks_def Let_def send_each_keeps keep_release_all)

lemma wait_remote_op_keeps: "I s \<Longrightarrow> tape_keeps I tape \<Longrightarrow> keeps I (wait_remote_op tx target k tape s)"
proof (induction tape arbitrary: s)
  case Nil
  then show ?case by (subst wait_remote_op.simps) simp
next
  case (Cons ev tape)
  then show ?case
    by (subst wait_remote_op.simps, cases ev) (auto simp: Let_def tape_keeps_Cons keep_ops)
qed

lemma execute_remote_operation_keeps:
  assumes "I s" and "tape_keeps I tape"
  shows "keeps I (execute_remote_operation J S target tx op tape s)"
proof -
  let ?s1 = "s\<lparr>pending_remote_ops := (pending_remote_ops s)(tx \<mapsto> List.insert (target, op_key op) (ops_pending s tx))\<rparr>"
  have I1: "I ?s1" using assms(1) by (rule keep_ops)
  obtain r s2 where r: "send S target (op_request J tx op) ?s1 = (r, s2)" by force
  then have I2: "I s2" using send_keeps [OF I1, of S target "op_request J tx op"] by simp
  obtain out tape' s3 where w: "wait_remote_op tx target (op_key op) tape s2 = (out, tape', s3)"
    by (cases "wait_remote_op tx target (op_key op) tape s2")
  then have "I s3" "tape_keeps I tape'" using wait_remote_op_keeps [OF I2 assms(2), of tx target "op_key op"] by simp_all
  with r w I2 assms(2) show ?thesis
    by (cases r) (auto simp: execute_remote_operation_def Let_def split: outcome.split bool.split)
qed

lemma exec_ops_keeps: "I s \<Longrightarrow> tape_keeps I tape \<Longrightarrow> keeps I (exec_ops J S X m tx ops rs tape s)"
proof (induction ops arbitrary: rs tape s)
  case (Cons op ops)
  let ?primary = "case m (op_key op) of None \<Rightarrow> 0 | Some n \<Rightarrow> n"
  show ?case
  proof (cases "?primary = local_node_id s")
    case True
    obtain r v where v: "visit X op (make_executor X (store s)) = (r, v)" by force
    have "I (s\<lparr>store := exec_store v\<rparr>)" by (rule keep_visit [OF Cons.prems(1) v])
    with True v Cons show ?thesis by (cases r) (simp_all add: Let_def)
  next
    case False
    obtain out tape' s' where e: "execute_remote_operation J S ?primary tx op tape s = (out, tape', s')"
      by (cases "execute_remote_operation J S ?primary tx op tape s")
    then have "I s'" "tape_keeps I tape'"
      using execute_remote_operation_keeps [OF Cons.prems, of J S ?primary tx op] by simp_all
    with False e Cons.IH show ?thesis by (cases out) (simp_all add: Let_def)
  qed
qed simp

lemma execute_transaction_keeps:
  assumes "I s" and "tape_keeps I tape"
  shows "keeps I (execute_transaction L J S X envs tape ops s)"
proof -
  let ?tx = "next_tx_id s" and ?s0 = "s\<lparr>next_tx_id := next_tx_id s + 1\<rparr>"
  have I0: "I ?s0" using assms(1) by (rule keep_output)
  show ?thesis
  proof (cases "categorize L ?s0 ops (Map.empty, [])")
    case (Inl e)
    with I0 assms(2) show ?thesis by (simp add: execute_transaction_def execute_with_distributed_support_def)
  next
    case (Inr p)
    obtain m ntk where p: "p = (m, ntk)" by (cases p)
    obtain out tape1 s1 where a: "acquire_all_locks L J S envs tape ntk ?tx ?s0 = (out, tape1, s1)"
      by (cases "acquire_all_locks L J S envs tape ntk ?tx ?s0")
    then have I1: "I s1" "tape_keeps I tape1" using acquire_all_locks_keeps [OF I0 assms(2), of J S ntk ?tx] by simp_all
    obtain out2 tape2 s2 where x: "exec_ops J S X m ?tx ops [] tape1 s1 = (out2, tape2, s2)"
      by (cases "exec_ops J S X m ?tx ops [] tape1 s1")
    then have I2: "I s2" "tape_keeps I tape2" using exec_ops_keeps [OF I1, of J S m ?tx ops "[]"] by simp_all
    obtain r s3 where r: "release_all_locks L J S ntk ?tx s2 = (r, s3)" by force
    then have I3: "I s3" using release_all_locks_keeps [OF I2(1), of J S ntk ?tx] by simp
    obtain r' s4 where r': "release_all_locks L J S ntk ?tx s3 = (r', s4)" by force
    then have I4: "I s4" using release_all_locks_keeps [OF I3, of J S ntk ?tx] by simp
    show ?thesis
      using Inr p a x r r' I1 I2 I3 I4
      by (auto simp: execute_transaction_def execute_with_distributed_support_def cleanup_def
          split: outcome.split bool.split sum.split)
  qed
qed

lemma lock_request_keeps:
  assumes "I s" and "\<And>k. envs k = env"
  shows "I (handle_lock_request J S env peer msg s)"
proof (cases "tx_and_key J msg")
  case (Inr p)
  obtain tx k where p: "p = (tx, k)" by (cases p)
  obtain r lm where a: "acquire env k tx (lock_manager s) = (r, lm)" by force
  then have "I (s\<lparr>lock_manager := lm\<rparr>)" using keep_acquire [OF assms(1)] assms(2) by metis
  with Inr p a assms(1) show ?thesis
    by (simp add: handle_lock_request_def Let_def send_catch keep_output)
qed (use assms(1) in \<open>simp add: handle_lock_request_def log_error_keeps\<close>)

lemma operation_request_keeps:
  assumes "I s"
  shows "I (handle_operation_request J S X peer msg s)"
proof -
  have send: "I (case send S peer m s1 of (Inl e, s2) \<Rightarrow> log_error e s2 | (Inr _, s2) \<Rightarrow> s2)" if "I s1" for m s1
    using that by (simp add: send_catch keep_output)
  have run: "I (snd (run_remote_op X op s))" for op
    using keep_visit [OF assms] by (auto simp: run_remote_op_def split: prod.split sum.split)
  have "I (case (case op of None \<Rightarrow> (Inr None, s) | Some op' \<Rightarrow> run_remote_op X op' s) of
      (Inl e, s1) \<Rightarrow> log_error e s1 | (Inr result, s1) \<Rightarrow>
        (case send S peer (op_response J tx k result) s1 of (Inl e, s2) \<Rightarrow> log_error e s2 | (Inr _, s2) \<Rightarrow> s2))" for op tx k
  proof (cases op)
    case (Some op')
    obtain r s1 where r: "run_remote_op X op' s = (r, s1)" by force
    with run [of op'] have "I s1" by simp
    with Some r send log_error_keeps show ?thesis by (cases r) simp_all
  qed (simp add: send assms)
  with assms log_error_keeps [OF assms] show ?thesis
    by (auto simp: handle_operation_request_def split: sum.split prod.split)
qed

lemma responses_keep:
  assumes "I s"
  shows "I (handle_lock_response J peer msg s)" "I (handle_lock_release J peer msg s)"
    "I (handle_operation_response J peer msg s)" "I (snd (handle_prepare_request J S peer msg s))"
proof -
  have "I (s\<lparr>remote_results := rr, pending_remote_ops :=
      (pending_remote_ops s)(tx \<mapsto> removeAll p (ops_pending s tx))\<rparr>)" for rr tx p
    using keep_ops(2) [OF keep_results [OF assms, of rr], of tx p] by (simp add: ops_pending_def)
  then show "I (handle_operation_response J peer msg s)"
    using log_error_keeps [OF assms] assms by (auto simp: handle_operation_response_def split: sum.split prod.split)
  show "I (handle_lock_response J peer msg s)"
    using log_error_keeps [OF assms] assms keep_pending(3,4) [OF assms]
    by (auto simp: handle_lock_response_def split: sum.split prod.split option.split)
  show "I (handle_lock_release J peer msg s)" "I (snd (handle_prepare_request J S peer msg s))"
    using log_error_keeps [OF assms] assms keep_release [OF assms] send_keeps [OF assms]
    by (auto simp: handle_lock_release_def handle_prepare_request_def Let_def split: sum.split prod.split)
qed

lemma peer_message_keeps:
  assumes "I s" and "\<And>k. envs k = env"
  shows "I (snd (handle_peer_message J S X env peer msg s))"
  using assms lock_request_keeps [OF assms] operation_request_keeps [OF assms(1)] responses_keep [OF assms(1)]
  by (auto simp: handle_peer_message_def Let_def handle_commit_request_def handle_abort_request_def split: sum.split)

end

section \<open>Well-formed states\<close>

text \<open>The lock manager: every tracked set is a set, and not empty.\<close>

definition lm_wf :: "LockManager \<Rightarrow> bool" where
  "lm_wf lm \<longleftrightarrow> (\<forall>tx ks. held_locks lm tx = Some ks \<longrightarrow> ks \<noteq> [] \<and> distinct ks)"

text \<open>A map of sets: no key twice, no element twice, no empty set.\<close>

definition nk_wf :: "(NodeID \<times> KeyType list) list \<Rightarrow> bool" where
  "nk_wf m \<longleftrightarrow> distinct (map fst m) \<and> (\<forall>(n, ks) \<in> set m. ks \<noteq> [] \<and> distinct ks)"

text \<open>The view of the cluster: without peers one node, with peers the coordinator's list.\<close>

definition topology_wf :: "TwoPLScheduler \<Rightarrow> bool" where
  "topology_wf s = (case coordinator s of
     None \<Rightarrow> num_nodes s = 1 \<and> \<not> listener_running s
   | Some c \<Rightarrow> coord_local_node_id c = local_node_id s \<and> local_node_id s \<in> set (all_nodes c) \<and>
       sorted (all_nodes c) \<and> distinct (all_nodes c) \<and> num_nodes s = length (all_nodes c) \<and>
       listener_running s \<and> \<not> stop_listener s)"

definition sched_wf :: "stdlib \<Rightarrow> TwoPLScheduler \<Rightarrow> bool" where
  "sched_wf L s \<longleftrightarrow> kv_wf L (store s) \<and> lm_wf (lock_manager s) \<and> topology_wf s \<and>
     (\<forall>tx m. pending_remote_locks s tx = Some m \<longrightarrow> nk_wf m) \<and>
     (\<forall>tx ps. pending_remote_ops s tx = Some ps \<longrightarrow> distinct ps)"

lemma topology_wf_simps [simp]:
  "topology_wf (s\<lparr>lock_manager := a\<rparr>) = topology_wf s" "topology_wf (s\<lparr>store := b\<rparr>) = topology_wf s"
  "topology_wf (s\<lparr>sent := c\<rparr>) = topology_wf s" "topology_wf (s\<lparr>logged := d\<rparr>) = topology_wf s"
  "topology_wf (s\<lparr>next_tx_id := e\<rparr>) = topology_wf s" "topology_wf (s\<lparr>pending_remote_locks := f\<rparr>) = topology_wf s"
  "topology_wf (s\<lparr>pending_remote_ops := g\<rparr>) = topology_wf s" "topology_wf (s\<lparr>remote_results := h\<rparr>) = topology_wf s"
  by (simp_all add: topology_wf_def cong: option.case_cong)

lemma nk_wf_Nil [simp]: "nk_wf []"
  by (simp add: nk_wf_def)

lemma insert_not_Nil [simp]: "List.insert k ks \<noteq> []"
  by (auto simp: List.insert_def)

lemma lm_wf_simps [simp]:
  "lm_wf init_lock_manager" "lm_wf (ensure_entry k lm) = lm_wf lm" "lm_wf (set_owner k x lm) = lm_wf lm"
  "lm_wf lm \<Longrightarrow> lm_wf (track k tx lm)"
  by (auto simp: lm_wf_def init_lock_manager_def track_def List.insert_def split: option.splits if_splits)

lemma lm_wf_release [simp]: "lm_wf lm \<Longrightarrow> lm_wf (release k tx lm)"
  by (auto simp: lm_wf_def release_def Let_def distinct_removeAll split: option.splits if_splits)

lemma lm_wf_release_all [simp]: "lm_wf lm \<Longrightarrow> lm_wf (release_all L tx lm)"
  by (simp add: lm_wf_def release_all_held)

lemma lm_wf_loops:
  assumes "\<And>w lm. lm_wf lm \<Longrightarrow> lm_wf (env w lm)"
  shows "lm_wf lm \<Longrightarrow> lm_wf (snd (spin_loop env k tx n w lm))" "lm_wf lm \<Longrightarrow> lm_wf (snd (yield_loop env k tx n w lm))"
  using assms by (induction n arbitrary: w lm) (auto split: option.split)

lemma lm_wf_acquire:
  assumes "\<And>w lm. lm_wf lm \<Longrightarrow> lm_wf (env w lm)" and "lm_wf lm"
  shows "lm_wf (snd (acquire env k tx lm))"
proof -
  let ?lm = "track k tx (env 0 (ensure_entry k lm))"
  have 0: "lm_wf ?lm" using assms by simp
  obtain r1 lm1 where 1: "spin_loop env k tx MAX_SPINS 1 ?lm = (r1, lm1)" by force
  obtain r2 lm2 where 2: "yield_loop env k tx MAX_YIELDS (1 + MAX_SPINS) lm1 = (r2, lm2)" by force
  have "lm_wf (snd (spin_loop env k tx MAX_SPINS 1 ?lm))" by (intro lm_wf_loops(1) assms(1) 0)
  then have lm1: "lm_wf lm1" by (simp only: 1 snd_conv)
  have "lm_wf (snd (yield_loop env k tx MAX_YIELDS (1 + MAX_SPINS) lm1))" by (intro lm_wf_loops(2) assms(1) lm1)
  then have "lm_wf lm2" by (simp only: 2 snd_conv)
  with lm1 show ?thesis using 1 2 by (simp add: acquire_def acquire_with_wait_die_def split: option.split)
qed

lemma nk_insert_keys: "fst ` set (nk_insert n k m) = insert n (fst ` set m)"
proof (induction m)
  case (Cons x m)
  then show ?case by (cases x) (simp add: insert_commute)
qed simp

lemma nk_wf_insert: "nk_wf m \<Longrightarrow> nk_wf (nk_insert n k m)"
proof (induction m)
  case (Cons x m)
  obtain a ks where x: "x = (a, ks)" by (cases x)
  show ?case
  proof (cases "a = n")
    case True
    with Cons.prems x show ?thesis by (auto simp: nk_wf_def)
  next
    case False
    then have "nk_wf (nk_insert n k m)" "a \<notin> fst ` set (nk_insert n k m)"
      using Cons x nk_insert_keys [of n k m] by (auto simp: nk_wf_def)
    with False Cons.prems x show ?thesis by (auto simp: nk_wf_def)
  qed
qed (simp add: nk_wf_def)

lemma nk_wf_erase: "nk_wf m \<Longrightarrow> nk_wf (erase_pending peer k m)"
proof -
  assume wf: "nk_wf m"
  have same: "map fst (map (\<lambda>(n, ks). if n = peer then (n, removeAll k ks) else (n, ks)) m) = map fst m"
    by (induction m) auto
  have "distinct (map fst m)" using wf by (simp add: nk_wf_def)
  then have "distinct (map fst (erase_pending peer k m))"
    unfolding erase_pending_def by (intro distinct_map_filter) (simp only: same)
  moreover have "ks \<noteq> [] \<and> distinct ks" if "(n, ks) \<in> set (erase_pending peer k m)" for n ks
    using that wf by (auto simp: erase_pending_def nk_wf_def distinct_removeAll split: if_splits)
  ultimately show ?thesis by (auto simp: nk_wf_def)
qed

text \<open>Visitors and other threads that respect the representation.\<close>

locale wf_context =
  fixes L :: stdlib and X :: executor_api and envs :: "KeyType \<Rightarrow> interference"
  assumes exec: "executor_ok L X" and env_wf: "lm_wf lm \<Longrightarrow> lm_wf (envs k w lm)"

lemma pending_of_wf: "sched_wf L s \<Longrightarrow> nk_wf (pending_of s tx)"
  by (auto simp: sched_wf_def pending_of_def split: option.split)

lemma ops_pending_wf: "sched_wf L s \<Longrightarrow> distinct (ops_pending s tx)"
  by (auto simp: sched_wf_def ops_pending_def split: option.split)

lemma visit_wf:
  assumes "executor_ok L X" and "kv_wf L st" and "visit X op (make_executor X st) = (res, v)"
  shows "kv_wf L (exec_store v)"
proof -
  have "kv_wf L (exec_store (make_executor X st))" using assms(1,2) by simp
  from visit_refines [OF assms(1) this, of op] show ?thesis using assms(3) by auto
qed

sublocale wf_context \<subseteq> scheduler_invariant "sched_wf L" L X envs
proof
  fix s k tx r lm
  assume "sched_wf L s" "acquire (envs k) k tx (lock_manager s) = (r, lm)"
  then show "sched_wf L (s\<lparr>lock_manager := lm\<rparr>)"
    using lm_wf_acquire [of "envs k" "lock_manager s" k tx] env_wf by (simp add: sched_wf_def)
next
  fix s op res v
  assume wf: "sched_wf L s" and v: "visit X op (make_executor X (store s)) = (res, v)"
  have "kv_wf L (store s)" using wf by (simp add: sched_wf_def)
  from visit_wf [OF exec this v] wf show "sched_wf L (s\<lparr>store := exec_store v\<rparr>)"
    by (simp add: sched_wf_def)
next
  fix s tx nk
  assume wf: "sched_wf L s"
  then show "sched_wf L (touch_pending tx s)" "sched_wf L (add_pending tx nk s)"
    using pending_of_wf [OF wf, of tx] nk_wf_insert
    by (auto simp: sched_wf_def touch_pending_def add_pending_def)
next
  fix s tx m peer k
  assume "sched_wf L s" "pending_remote_locks s tx = Some m"
  then show "sched_wf L (s\<lparr>pending_remote_locks := (pending_remote_locks s)(tx \<mapsto> erase_pending peer k m)\<rparr>)"
    using nk_wf_erase by (auto simp: sched_wf_def)
next
  fix s tx p
  assume wf: "sched_wf L s"
  then show "sched_wf L (s\<lparr>pending_remote_ops := (pending_remote_ops s)(tx \<mapsto> List.insert p (ops_pending s tx))\<rparr>)"
    "sched_wf L (s\<lparr>pending_remote_ops := (pending_remote_ops s)(tx \<mapsto> removeAll p (ops_pending s tx))\<rparr>)"
    using ops_pending_wf [OF wf, of tx] by (auto simp: sched_wf_def distinct_removeAll)
qed (auto simp: sched_wf_def)

context wf_context
begin

lemma wf_run: "sched_wf L s \<Longrightarrow> tape_keeps (sched_wf L) tape \<Longrightarrow>
    keeps (sched_wf L) (execute_transaction L J S X envs tape ops s)"
  by (rule execute_transaction_keeps)

lemma wf_message: "sched_wf L s \<Longrightarrow> (\<And>k. envs k = env) \<Longrightarrow>
    sched_wf L (snd (handle_peer_message J S X env peer msg s))"
  by (rule peer_message_keeps)

end

interpretation quiet_wf: wf_context L "executor_ref L" "\<lambda>_. quiet" for L
  by unfold_locales (simp_all add: quiet_apply)

section \<open>Start-up and routing\<close>

lemma make_scheduler_wf: "kv_wf L st \<Longrightarrow> sched_wf L (make_scheduler i st)"
  by (simp add: sched_wf_def make_scheduler_def topology_wf_def)

text \<open>Whatever the outcome of a first start, its state is well formed.\<close>

lemma start_wf:
  assumes "sched_wf L s" and "coordinator s = None"
  shows "sched_wf L (snd (start S nodeID peers s))"
proof -
  have up: "sched_wf L (snd (startup_server S s')) = sched_wf L s'" for s'
    by (simp add: startup_server_def Let_def sched_wf_def topology_wf_def split: option.split)
  have named: "sched_wf L (s\<lparr>sched_id := i, local_node_id := j\<rparr>)" for i j
    using assms by (simp add: sched_wf_def topology_wf_def)
  have idle: "\<not> listener_running s" using assms by (simp add: sched_wf_def topology_wf_def)
  have peered: "sched_wf L (s1\<lparr>num_nodes := length (cluster_ids (local_node_id s1 # ids)),
      coordinator := Some (make_coordinator (local_node_id s1) (cluster_ids (local_node_id s1 # ids))),
      stop_listener := False, listener_running := True\<rparr>)" if "sched_wf L s1" for s1 ids
    using that cluster_ids_sorted by (simp add: sched_wf_def topology_wf_def make_coordinator_def)
  from peered [OF named] peered [OF assms(1)] named idle assms(1) show ?thesis
    by (auto simp: start_def start_message_listener_def up Let_def split: sum.split)
qed

text \<open>A well-formed scheduler knows where to send a key.\<close>

lemma primary_of_wf:
  assumes "sched_wf L s"
  shows "\<exists>n. primary_of L s key = Inr n"
proof (cases "coordinator s")
  case (Some c)
  then have "local_node_id s \<in> set (all_nodes c)" using assms by (simp add: sched_wf_def topology_wf_def)
  then have "all_nodes c \<noteq> []" by auto
  with Some show ?thesis
    by (auto simp: primary_of_def is_local_key_def is_local_def get_primary_node_def split: bool.split)
qed (simp add: primary_of_def is_local_key_def)

text \<open>
  C28 (the scheduler's state stays well formed). A scheduler is created well formed and
  its first start, successful or not, leaves it so. From then on a transaction, whatever
  the peers and the other threads do as long as they respect the containers, ends, blocks
  or throws in a well-formed state, and so does every handler of a peer message. In a
  well-formed state routing a key is defined: there is no remainder by zero and no
  missing coordinator.
\<close>

theorem scheduler_wf_preserved:
  assumes "executor_ok L X" and "\<forall>w lm. lm_wf lm \<longrightarrow> lm_wf (env w lm)"
    and "\<forall>k w lm. lm_wf lm \<longrightarrow> lm_wf (envs k w lm)"
  shows "(kv_wf L st \<longrightarrow> sched_wf L (snd (start S nodeID peers (make_scheduler i st)))) \<and>
    (sched_wf L s \<longrightarrow>
       (\<forall>key. \<exists>n. primary_of L s key = Inr n) \<and>
       (tape_keeps (sched_wf L) tape \<longrightarrow> keeps (sched_wf L) (execute_transaction L J S X envs tape ops s)) \<and>
       sched_wf L (snd (handle_peer_message J S X env peer msg s)))"
proof -
  have 1: "wf_context L X (\<lambda>_. env)" and 2: "wf_context L X envs"
    using assms by (simp_all add: wf_context_def)
  have "sched_wf L (snd (start S nodeID peers (make_scheduler i st)))" if "kv_wf L st"
    by (rule start_wf [OF make_scheduler_wf [OF that]]) (simp add: make_scheduler_def)
  moreover have "keeps (sched_wf L) (execute_transaction L J S X envs tape ops s)"
    if "sched_wf L s" "tape_keeps (sched_wf L) tape"
    by (rule wf_context.wf_run [OF 2 that])
  moreover have "sched_wf L (snd (handle_peer_message J S X env peer msg s))" if "sched_wf L s"
    by (rule wf_context.wf_message [OF 1 that refl])
  ultimately show ?thesis using primary_of_wf by blast
qed

theorem scheduler_wf_preserved_witness:
  "\<exists>s r. s = snd (start server_up ''n1'' [''n0'', ''n2''] (make_scheduler 9 empty_store)) \<and>
     r = execute_transaction std_ref boost_ref server_up (executor_ref std_ref) (\<lambda>_. quiet) [Wake id] [AppendOp 5 7] s \<and>
     sched_wf std_ref s \<and> (\<exists>n. primary_of std_ref s 5 = Inr n) \<and> sched_wf std_ref (snd (snd r))"
proof -
  let ?s = "snd (start server_up ''n1'' [''n0'', ''n2''] (make_scheduler 9 empty_store))"
  have hyps: "executor_ok std_ref (executor_ref std_ref)" "\<forall>w lm. lm_wf lm \<longrightarrow> lm_wf (quiet w lm)"
      "\<forall>k w lm. lm_wf lm \<longrightarrow> lm_wf ((\<lambda>_ :: KeyType. quiet) k w lm)" "kv_wf std_ref empty_store"
    by (simp_all add: quiet_apply)
  have tape: "tape_keeps (sched_wf std_ref) [Wake id]" by (simp add: tape_keeps_def)
  note wf = scheduler_wf_preserved [where env = quiet and envs = "\<lambda>_. quiet", OF hyps(1-3)]
  have "sched_wf std_ref ?s" using wf hyps(4) by blast
  then show ?thesis using wf [where s = ?s] tape by (auto simp: keeps_def)
qed

end
