(* ===== verification/Logger.thy ===== *)
theory Logger
  imports Prelude
begin

text \<open>
  \<open>system/Logger.h\<close>: formatted records on the standard error stream. The logging core of
  Boost.Log is a parameter, with what its documentation promises of sinks, filters and
  records as a named hypothesis (\<open>log_ok\<close>). \<open>std::vformat\<close> is modelled for the
  replacement fields the program uses: \<open>{}\<close>, and the escapes for the two braces.
\<close>

section \<open>Levels\<close>

text \<open>\<open>boost::log::trivial::severity_level\<close>, from the least to the most severe.\<close>

datatype log_level = Trace | Debug | Info | Warning | Error | Fatal

primrec level_rank :: "log_level \<Rightarrow> nat" where
  "level_rank Trace = 0"
| "level_rank Debug = 1"
| "level_rank Info = 2"
| "level_rank Warning = 3"
| "level_rank Error = 4"
| "level_rank Fatal = 5"

lemma level_rank_inj [simp]: "level_rank v = level_rank w \<longleftrightarrow> v = w"
  by (cases v; cases w) simp_all

instantiation log_level :: linorder
begin

definition less_eq_log_level :: "log_level \<Rightarrow> log_level \<Rightarrow> bool" where
  "v \<le> w \<longleftrightarrow> level_rank v \<le> level_rank w"

definition less_log_level :: "log_level \<Rightarrow> log_level \<Rightarrow> bool" where
  "v < w \<longleftrightarrow> level_rank v < level_rank w"

instance
  by standard (auto simp: less_eq_log_level_def less_log_level_def)

end

section \<open>The logging core\<close>

type_synonym formatter = "log_level \<Rightarrow> string \<Rightarrow> string"

record 'c boost_log =
  add_sink :: "formatter \<Rightarrow> 'c \<Rightarrow> 'c"
  add_common_attributes :: "'c \<Rightarrow> 'c"
  set_filter :: "(log_level \<Rightarrow> bool) \<Rightarrow> 'c \<Rightarrow> 'c"
  push_record :: "log_level \<Rightarrow> string \<Rightarrow> 'c \<Rightarrow> 'c"
  severity_text :: "log_level \<Rightarrow> string"
  core_sinks :: "'c \<Rightarrow> formatter list"
  core_filter :: "'c \<Rightarrow> log_level \<Rightarrow> bool"
  cerr :: "'c \<Rightarrow> string list"

text \<open>
  A sink is added to those there are, the filter is replaced, and a record that passes
  the filter is written once by every sink, in its format. Without any sink the core uses
  a default one, of which nothing is assumed.
\<close>

definition sinks_ok :: "'c boost_log \<Rightarrow> bool" where
  "sinks_ok B \<longleftrightarrow>
     (\<forall>f c. core_sinks B (add_sink B f c) = core_sinks B c @ [f] \<and>
        core_filter B (add_sink B f c) = core_filter B c \<and> cerr B (add_sink B f c) = cerr B c) \<and>
     (\<forall>c. core_sinks B (add_common_attributes B c) = core_sinks B c \<and>
        core_filter B (add_common_attributes B c) = core_filter B c \<and>
        cerr B (add_common_attributes B c) = cerr B c)"

definition records_ok :: "'c boost_log \<Rightarrow> bool" where
  "records_ok B \<longleftrightarrow>
     (\<forall>p c. core_sinks B (set_filter B p c) = core_sinks B c \<and>
        core_filter B (set_filter B p c) = p \<and> cerr B (set_filter B p c) = cerr B c) \<and>
     (\<forall>v m c. core_sinks B (push_record B v m c) = core_sinks B c \<and>
        core_filter B (push_record B v m c) = core_filter B c \<and>
        (core_sinks B c \<noteq> [] \<longrightarrow> cerr B (push_record B v m c) =
           cerr B c @ (if core_filter B c v then map (\<lambda>f. f v m) (core_sinks B c) else [])))"

definition log_ok :: "'c boost_log \<Rightarrow> bool" where
  "log_ok B \<longleftrightarrow> sinks_ok B \<and> records_ok B"

lemma log_ok_simps [simp]:
  assumes "log_ok B"
  shows "core_sinks B (add_sink B f c) = core_sinks B c @ [f]"
    and "core_filter B (add_sink B f c) = core_filter B c" and "cerr B (add_sink B f c) = cerr B c"
    and "core_sinks B (add_common_attributes B c) = core_sinks B c"
    and "core_filter B (add_common_attributes B c) = core_filter B c"
    and "cerr B (add_common_attributes B c) = cerr B c"
    and "core_sinks B (set_filter B p c) = core_sinks B c"
    and "core_filter B (set_filter B p c) = p" and "cerr B (set_filter B p c) = cerr B c"
    and "core_sinks B (push_record B v m c) = core_sinks B c"
    and "core_filter B (push_record B v m c) = core_filter B c"
    and "core_sinks B c \<noteq> [] \<Longrightarrow> cerr B (push_record B v m c) =
      cerr B c @ (if core_filter B c v then map (\<lambda>f. f v m) (core_sinks B c) else [])"
  using assms unfolding log_ok_def sinks_ok_def records_ok_def by blast+

section \<open>Formatting\<close>

text \<open>
  \<open>std::vformat\<close>; \<open>None\<close> where \<open>std::format_string\<close> rejects the format when the
  program is compiled. Arguments that are left over are ignored.
\<close>

fun vformat :: "string \<Rightarrow> string list \<Rightarrow> string option" where
  "vformat [] args = Some []"
| "vformat [c] args = (if c = CHR ''{'' \<or> c = CHR ''}'' then None else Some [c])"
| "vformat (c # d # cs) args =
     (if c = CHR ''{'' \<and> d = CHR ''}'' then
        (case args of [] \<Rightarrow> None | a # rest \<Rightarrow> map_option ((@) a) (vformat cs rest))
      else if (c = CHR ''{'' \<or> c = CHR ''}'') \<and> d = c then map_option ((#) c) (vformat cs args)
      else if c = CHR ''{'' \<or> c = CHR ''}'' then None
      else map_option ((#) c) (vformat (d # cs) args))"

section \<open>The functions of the logger\<close>

record 'c logger =
  init_flag :: bool
  core :: 'c

definition log_format :: "'c boost_log \<Rightarrow> formatter" where
  "log_format B level message = ''['' @ severity_text B level @ ''] '' @ message"

text \<open>\<open>std::call_once\<close>\<close>

definition init_logger :: "'c boost_log \<Rightarrow> 'c logger \<Rightarrow> 'c logger" where
  "init_logger B l =
     (if init_flag l then l
      else l\<lparr>init_flag := True, core := add_common_attributes B (add_sink B (log_format B) (core l))\<rparr>)"

text \<open>The logger object itself has no state of its own.\<close>

definition get_logger :: "'c boost_log \<Rightarrow> 'c logger \<Rightarrow> 'c logger" where
  "get_logger B l = init_logger B l"

definition log_msg :: "'c boost_log \<Rightarrow> log_level \<Rightarrow> string \<Rightarrow> 'c logger \<Rightarrow> 'c logger" where
  "log_msg B level formatted_string l =
     (let lg = get_logger B l in lg\<lparr>core := push_record B level formatted_string (core lg)\<rparr>)"

definition trace :: "'c boost_log \<Rightarrow> string \<Rightarrow> string list \<Rightarrow> 'c logger \<Rightarrow> 'c logger option" where
  "trace B fmt args l = map_option (\<lambda>s. log_msg B Trace s l) (vformat fmt args)"

definition debug :: "'c boost_log \<Rightarrow> string \<Rightarrow> string list \<Rightarrow> 'c logger \<Rightarrow> 'c logger option" where
  "debug B fmt args l = map_option (\<lambda>s. log_msg B Debug s l) (vformat fmt args)"

definition info :: "'c boost_log \<Rightarrow> string \<Rightarrow> string list \<Rightarrow> 'c logger \<Rightarrow> 'c logger option" where
  "info B fmt args l = map_option (\<lambda>s. log_msg B Info s l) (vformat fmt args)"

definition warn :: "'c boost_log \<Rightarrow> string \<Rightarrow> string list \<Rightarrow> 'c logger \<Rightarrow> 'c logger option" where
  "warn B fmt args l = map_option (\<lambda>s. log_msg B Warning s l) (vformat fmt args)"

definition error :: "'c boost_log \<Rightarrow> string \<Rightarrow> string list \<Rightarrow> 'c logger \<Rightarrow> 'c logger option" where
  "error B fmt args l = map_option (\<lambda>s. log_msg B Error s l) (vformat fmt args)"

definition fatal :: "'c boost_log \<Rightarrow> string \<Rightarrow> string list \<Rightarrow> 'c logger \<Rightarrow> 'c logger option" where
  "fatal B fmt args l = map_option (\<lambda>s. log_msg B Fatal s l) (vformat fmt args)"

definition set_level :: "'c boost_log \<Rightarrow> log_level \<Rightarrow> 'c logger \<Rightarrow> 'c logger" where
  "set_level B level l = l\<lparr>core := set_filter B (\<lambda>severity. level \<le> severity) (core l)\<rparr>"

section \<open>Programs that log\<close>

text \<open>The calls a part of the program makes, in order.\<close>

datatype log_call =
    Log log_level string "string list"
  | SetLevel log_level

fun run_call :: "'c boost_log \<Rightarrow> log_call \<Rightarrow> 'c logger \<Rightarrow> 'c logger option" where
  "run_call B (Log Trace fmt args) l = trace B fmt args l"
| "run_call B (Log Debug fmt args) l = debug B fmt args l"
| "run_call B (Log Info fmt args) l = info B fmt args l"
| "run_call B (Log Warning fmt args) l = warn B fmt args l"
| "run_call B (Log Error fmt args) l = error B fmt args l"
| "run_call B (Log Fatal fmt args) l = fatal B fmt args l"
| "run_call B (SetLevel level) l = Some (set_level B level l)"

fun run_calls :: "'c boost_log \<Rightarrow> log_call list \<Rightarrow> 'c logger \<Rightarrow> 'c logger option" where
  "run_calls B [] l = Some l"
| "run_calls B (c # cs) l = Option.bind (run_call B c l) (run_calls B cs)"

text \<open>The lines a reader of the standard error stream sees.\<close>

fun log_lines :: "(log_level \<Rightarrow> string) \<Rightarrow> (log_level \<Rightarrow> bool) \<Rightarrow> log_call list \<Rightarrow> string list" where
  "log_lines txt shown [] = []"
| "log_lines txt shown (SetLevel level # cs) = log_lines txt (\<lambda>severity. level \<le> severity) cs"
| "log_lines txt shown (Log v fmt args # cs) =
     (if shown v then [''['' @ txt v @ ''] '' @ the (vformat fmt args)] else []) @ log_lines txt shown cs"

fun formats_ok :: "log_call list \<Rightarrow> bool" where
  "formats_ok [] = True"
| "formats_ok (SetLevel level # cs) = formats_ok cs"
| "formats_ok (Log v fmt args # cs) = (vformat fmt args \<noteq> None \<and> formats_ok cs)"

section \<open>Properties\<close>

text \<open>The sink of the program is there from the first record on, and once.\<close>

definition sink_once :: "'c boost_log \<Rightarrow> 'c logger \<Rightarrow> bool" where
  "sink_once B l \<longleftrightarrow> core_sinks B (core l) = (if init_flag l then [log_format B] else [])"

lemma run_log:
  "run_call B (Log v fmt args) l = map_option (\<lambda>s. log_msg B v s l) (vformat fmt args)"
  by (cases v) (simp_all add: trace_def debug_def info_def warn_def error_def fatal_def)

lemma log_msg_effect:
  assumes "log_ok B" and "sink_once B l"
  shows "sink_once B (log_msg B v s l)" "init_flag (log_msg B v s l)"
    and "core_filter B (core (log_msg B v s l)) = core_filter B (core l)"
    and "cerr B (core (log_msg B v s l)) =
      cerr B (core l) @ (if core_filter B (core l) v then [log_format B v s] else [])"
  using assms by (simp_all add: log_msg_def get_logger_def init_logger_def sink_once_def Let_def)

lemma set_level_effect:
  assumes "log_ok B" and "sink_once B l"
  shows "sink_once B (set_level B v l)" "init_flag (set_level B v l) = init_flag l"
    and "core_filter B (core (set_level B v l)) = (\<lambda>w. v \<le> w)" "cerr B (core (set_level B v l)) = cerr B (core l)"
  using assms by (simp_all add: set_level_def sink_once_def)

lemma run_calls_lines:
  assumes "log_ok B" and "sink_once B l" and "formats_ok calls"
  shows "\<exists>l'. run_calls B calls l = Some l' \<and> sink_once B l' \<and>
    cerr B (core l') = cerr B (core l) @ log_lines (severity_text B) (core_filter B (core l)) calls"
  using assms(2,3)
proof (induction calls arbitrary: l)
  case (Cons c calls)
  show ?case
  proof (cases c)
    case (Log v fmt args)
    then obtain s where s: "vformat fmt args = Some s" and ok: "formats_ok calls" using Cons.prems by auto
    note eff = log_msg_effect [OF assms(1) Cons.prems(1), of v s]
    from Cons.IH [OF eff(1) ok] show ?thesis
      using Log s eff by (auto simp: run_log log_format_def simp del: run_call.simps)
  next
    case (SetLevel v)
    note eff = set_level_effect [OF assms(1) Cons.prems(1), of v]
    from Cons.IH [OF eff(1)] Cons.prems(2) show ?thesis using SetLevel eff by auto
  qed
qed simp

text \<open>
  C37 (the log). From the start of the program on, every call of one of the six logging
  functions writes exactly one line, its level in brackets and the formatted text, when
  the level is at least the one set last, and none otherwise; the lines appear in the
  order of the calls. The sink is installed by the first record and never twice, although
  every call asks for it.
\<close>

theorem logger_writes_lines:
  assumes "log_ok B" and "core_sinks B c = []" and "formats_ok calls"
  shows "\<exists>l'. run_calls B calls \<lparr>init_flag = False, core = c\<rparr> = Some l' \<and>
    cerr B (core l') = cerr B c @ log_lines (severity_text B) (core_filter B c) calls \<and>
    length (core_sinks B (core l')) \<le> 1"
proof -
  have "sink_once B \<lparr>init_flag = False, core = c\<rparr>" using assms(2) by (simp add: sink_once_def)
  from run_calls_lines [OF assms(1) this assms(3)] show ?thesis by (auto simp: sink_once_def)
qed

text \<open>A core that keeps its sinks, its filter and its output.\<close>

record core_state =
  sinks :: "formatter list"
  filter_fn :: "log_level \<Rightarrow> bool"
  lines :: "string list"

definition log_ref :: "core_state boost_log" where
  "log_ref = \<lparr>add_sink = (\<lambda>f c. c\<lparr>sinks := sinks c @ [f]\<rparr>), add_common_attributes = (\<lambda>c. c),
     set_filter = (\<lambda>p c. c\<lparr>filter_fn := p\<rparr>),
     push_record = (\<lambda>v m c. c\<lparr>lines := lines c @ (if filter_fn c v then map (\<lambda>f. f v m) (sinks c) else [])\<rparr>),
     severity_text = case_log_level ''trace'' ''debug'' ''info'' ''warning'' ''error'' ''fatal'',
     core_sinks = sinks, core_filter = filter_fn, cerr = lines\<rparr>"

definition core_new :: core_state where
  "core_new = \<lparr>sinks = [], filter_fn = (\<lambda>_. True), lines = []\<rparr>"

lemma log_ref_ok [simp]: "log_ok log_ref"
  by (simp add: log_ok_def sinks_ok_def records_ok_def log_ref_def)

theorem logger_writes_lines_witness:
  "\<exists>l'. run_calls log_ref [Log Info ''Startup'' [], SetLevel Warning, Log Info ''n{}'' [''1''], Log Error ''n{}'' [''2'']]
       \<lparr>init_flag = False, core = core_new\<rparr> = Some l' \<and>
     cerr log_ref (core l') = [''[info] Startup'', ''[error] n2'']"
proof -
  let ?calls = "[Log Info ''Startup'' [], SetLevel Warning, Log Info ''n{}'' [''1''], Log Error ''n{}'' [''2'']]"
  have "formats_ok ?calls" "core_sinks log_ref core_new = []" "cerr log_ref core_new = []"
      "log_lines (severity_text log_ref) (core_filter log_ref core_new) ?calls = [''[info] Startup'', ''[error] n2'']"
    by (simp_all add: log_ref_def core_new_def less_eq_log_level_def)
  with logger_writes_lines [OF log_ref_ok, of core_new ?calls] show ?thesis by auto
qed

end
