(* ===== verification/Peer.thy ===== *)
theory Peer
  imports Json Logger
begin

text \<open>
  \<open>system/Peer.h\<close>, \<open>Peer.cpp\<close> and \<open>JSONMessage.h\<close>: the framed connection to another
  node. A socket is a stream of bytes. What the third-party libraries do is a
  parameter: the text of a value (\<open>serialize\<close>), the parsing of a text and of a value
  into a message (\<open>json_parse\<close>, \<open>value_to\<close>), the text of an exception (\<open>what\<close>), how
  the wait for an incoming connection ends, and whether a write, a shutdown or a
  connection attempt fails. The records the code logs are part of what it does.
\<close>

unbundle bit_operations_syntax

type_synonym byte = "8 word"

record JSONMessage =
  src :: NodeID
  dest :: NodeID
  json_body :: jobject

record peer_libs =
  serialize :: "json \<Rightarrow> byte list"
  value_from :: "JSONMessage \<Rightarrow> json"
  json_parse :: "byte list \<Rightarrow> json res"
  value_to :: "json \<Rightarrow> JSONMessage res"
  what :: "exn \<Rightarrow> string"
  sock_write :: "byte list \<Rightarrow> byte list \<Rightarrow> exn option"

text \<open>
  \<open>out_stream\<close> are the bytes written to \<open>out_socket\<close>; \<open>in_socket\<close> is null until the
  connection of the other node has come in, then the bytes it sends up to the end of
  the stream.
\<close>

record Peer =
  peerId :: NodeID
  out_stream :: "byte list"
  in_socket :: "byte list option"
  incoming_init :: bool

definition parse_message :: "peer_libs \<Rightarrow> byte list \<Rightarrow> JSONMessage res" where
  "parse_message B messageString =
     (case json_parse B messageString of Inl e \<Rightarrow> Inl e | Inr msg \<Rightarrow> value_to B msg)"

text \<open>A number in decimal, as \<open>std::to_string\<close> and \<open>std::format\<close> print it.\<close>

fun dec :: "nat \<Rightarrow> string" where
  "dec n = (if n < 10 then [char_of (48 + n)] else dec (n div 10) @ [char_of (48 + n mod 10)])"

declare dec.simps [simp del]

fun is_system :: "exn \<Rightarrow> bool" where
  "is_system (SystemError code) = True"
| "is_system _ = False"

abbreviation operation_aborted :: exn where
  "operation_aborted \<equiv> SystemError ''operation_aborted''"

section \<open>Framing\<close>

text \<open>The four bytes of \<open>htonl(len)\<close> in memory, and back.\<close>

definition htonl_bytes :: "32 word \<Rightarrow> byte list" where
  "htonl_bytes n = [ucast (drop_bit 24 n), ucast (drop_bit 16 n), ucast (drop_bit 8 n), ucast n]"

fun ntohl_bytes :: "byte list \<Rightarrow> 32 word" where
  "ntohl_bytes [a, b, c, d] =
     push_bit 24 (ucast a) OR push_bit 16 (ucast b) OR push_bit 8 (ucast c) OR ucast d"
| "ntohl_bytes _ = 0"

definition send_bytes :: "peer_libs \<Rightarrow> json \<Rightarrow> Peer \<Rightarrow> unit res \<times> Peer" where
  "send_bytes B message p =
     (let payload = serialize B message
      in if 2 ^ 32 - 1 \<le> length payload then (Inl (LogicError ''Message size too large''), p)
         else
           (let len = word_of_nat (length payload) :: 32 word;
                out = htonl_bytes len @ payload
            in case sock_write B (out_stream p) out of
                 Some e \<Rightarrow> (Inl e, p)
               | None \<Rightarrow> (Inr (), p\<lparr>out_stream := out_stream p @ out\<rparr>)))"

text \<open>\<open>async_read\<close> of exactly \<open>n\<close> bytes; fewer bytes before the end are an error.\<close>

definition read_exactly :: "nat \<Rightarrow> byte list \<Rightarrow> (byte list \<times> byte list) res" where
  "read_exactly n stream =
     (if length stream < n then Inl (SystemError ''eof'') else Inr (take n stream, drop n stream))"

definition read_frame :: "byte list \<Rightarrow> (byte list \<times> byte list) res" where
  "read_frame stream =
     (case read_exactly 4 stream of
        Inl e \<Rightarrow> Inl e
      | Inr (header, rest) \<Rightarrow> read_exactly (unat (ntohl_bytes header)) rest)"

text \<open>
  \<open>wait\<close> is what happens while a receiver waits for the incoming connection: the
  result of the timer and the peer afterwards. A failed read leaves the socket at its end.
\<close>

definition receive_body :: "peer_libs \<Rightarrow> (Peer \<Rightarrow> exn option \<times> Peer) \<Rightarrow> Peer \<Rightarrow> JSONMessage res \<times> Peer" where
  "receive_body B wait p =
     (case (if in_socket p = None then wait p else (None, p)) of
        (Some e, p1) \<Rightarrow> (Inl e, p1)
      | (None, p1) \<Rightarrow>
          (case in_socket p1 of
             None \<Rightarrow> (Inl (Undefined ''null socket''), p1)
           | Some stream \<Rightarrow>
               (case read_frame stream of
                  Inl e \<Rightarrow> (Inl e, p1\<lparr>in_socket := Some []\<rparr>)
                | Inr (payload, rest) \<Rightarrow> (parse_message B payload, p1\<lparr>in_socket := Some rest\<rparr>))))"

text \<open>Every exception is passed on; a cancelled operation is logged first.\<close>

definition receive :: "peer_libs \<Rightarrow> (Peer \<Rightarrow> exn option \<times> Peer) \<Rightarrow> Peer \<Rightarrow>
    JSONMessage res \<times> Peer \<times> log_call list" where
  "receive B wait p =
     (case receive_body B wait p of
        (r, p') \<Rightarrow> (r, p',
          if r = Inl operation_aborted
          then [Log Error ''Receive Operation aborted: {}'' [what B operation_aborted]] else []))"

definition send_receive :: "peer_libs \<Rightarrow> (Peer \<Rightarrow> exn option \<times> Peer) \<Rightarrow> json \<Rightarrow> Peer \<Rightarrow>
    JSONMessage res \<times> Peer \<times> log_call list" where
  "send_receive B wait message p =
     (case send_bytes B message p of
        (Inl e, p1) \<Rightarrow> (Inl e, p1, [])
      | (Inr _, p1) \<Rightarrow> receive B wait p1)"

text \<open>\<open>std::call_once\<close>: only the first incoming connection is taken.\<close>

definition setup_incoming :: "byte list \<Rightarrow> Peer \<Rightarrow> Peer" where
  "setup_incoming socket p =
     (if incoming_init p then p else p\<lparr>in_socket := Some socket, incoming_init := True\<rparr>)"

section \<open>Connecting\<close>

datatype connect_end = Connected | Rethrown exn | Exited

definition DEFAULT_CONN_RETRIES :: nat where
  "DEFAULT_CONN_RETRIES = 10"

text \<open>In milliseconds.\<close>

definition DEFAULT_CONN_WAIT :: nat where
  "DEFAULT_CONN_WAIT = 200"

definition BASE_PORT_RANGE_START :: nat where
  "BASE_PORT_RANGE_START = 40000"

definition SERVER_IP :: string where
  "SERVER_IP = ''127.0.0.1''"

text \<open>The sum is an \<open>int\<close>; it is passed to the resolver in decimal.\<close>

definition peer_port :: "NodeID \<Rightarrow> nat" where
  "peer_port i = BASE_PORT_RANGE_START + unat i"

definition retry :: "exn \<Rightarrow> bool" where
  "retry e \<longleftrightarrow> e = SystemError ''connection_refused'' \<or> e = SystemError ''timed_out''"

text \<open>
  The loop, from attempt \<open>i\<close> on and \<open>n\<close> attempts at most: how it ends, what it logs and
  how long it sleeps. \<open>attempts j\<close> is the exception of attempt \<open>j\<close>, if it fails. Giving up
  ends the process.
\<close>

fun connect_loop :: "peer_libs \<Rightarrow> NodeID \<Rightarrow> nat \<Rightarrow> nat \<Rightarrow> (nat \<Rightarrow> exn option) \<Rightarrow> nat \<Rightarrow> nat \<Rightarrow>
    connect_end \<times> log_call list \<times> nat" where
  "connect_loop B peer maxRetries delay attempts i 0 =
     (Exited, [Log Error ''Could not establish connection to n{}, giving up'' [dec (unat peer)]], 0)"
| "connect_loop B peer maxRetries delay attempts i (Suc n) =
     (case attempts i of
        None \<Rightarrow> (Connected, [Log Info ''Connection to n{} successful'' [dec (unat peer)]], 0)
      | Some e \<Rightarrow>
          if \<not> is_system e then (Rethrown e, [], 0)
          else if retry e then
            (case connect_loop B peer maxRetries delay attempts (Suc i) n of
               (r, calls, slept) \<Rightarrow>
                 (r, Log Info ''Attempt {} of {}. Connect failed to n{}: {}''
                       [dec i, dec maxRetries, dec (unat peer), what B e] # calls, delay + slept))
          else (Rethrown e,
            [Log Error ''Could not establish connection to n{}: {}'' [dec (unat peer), what B e]], 0))"

definition connect :: "peer_libs \<Rightarrow> (string \<Rightarrow> string \<Rightarrow> exn option) \<Rightarrow> (nat \<Rightarrow> exn option) \<Rightarrow> nat \<Rightarrow> nat \<Rightarrow> NodeID \<Rightarrow>
    connect_end \<times> log_call list \<times> nat" where
  "connect B resolve attempts maxRetries delay peer =
     (case resolve SERVER_IP (dec (peer_port peer)) of
        Some e \<Rightarrow> (Rethrown e, [], 0)
      | None \<Rightarrow>
          (case connect_loop B peer maxRetries delay attempts 1 maxRetries of
             (r, calls, slept) \<Rightarrow>
               (r, Log Info ''Establish outgoing connection to n{}'' [dec (unat peer)] # calls, slept)))"

text \<open>The constructor: connect, then introduce oneself. \<open>None\<close>: the process has exited.\<close>

definition make_Peer :: "peer_libs \<Rightarrow> (string \<Rightarrow> string \<Rightarrow> exn option) \<Rightarrow> (nat \<Rightarrow> exn option) \<Rightarrow> NodeID \<Rightarrow> NodeID \<Rightarrow>
    Peer res option \<times> log_call list" where
  "make_Peer B resolve attempts nodeID peer =
     (let p = \<lparr>peerId = peer, out_stream = [], in_socket = None, incoming_init = False\<rparr>;
          msg = \<lparr>src = nodeID, dest = peer, json_body = [(''type'', JString ''connect'')]\<rparr>
      in case connect B resolve attempts DEFAULT_CONN_RETRIES DEFAULT_CONN_WAIT peer of
           (Exited, calls, _) \<Rightarrow> (None, calls)
         | (Rethrown e, calls, _) \<Rightarrow> (Some (Inl e), calls)
         | (Connected, calls, _) \<Rightarrow>
             (case send_bytes B (value_from B msg) p of
                (Inl e, _) \<Rightarrow> (Some (Inl e), calls)
              | (Inr _, p') \<Rightarrow> (Some (Inr p'), calls)))"

section \<open>Closing\<close>

text \<open>
  The destructor: whether each socket is shut down, and what is logged. An exception
  other than \<open>system_error\<close> would leave the destructor and terminate the program.
\<close>

definition destroy_Peer :: "peer_libs \<Rightarrow> exn option \<Rightarrow> exn option \<Rightarrow> Peer \<Rightarrow> (bool \<times> bool \<times> log_call list) res" where
  "destroy_Peer B shut_in shut_out p =
     (let caught = (\<lambda>e. if \<not> is_system e then Inl (Undefined ''std::terminate'')
            else Inr (if e \<noteq> SystemError ''not_connected'' \<and> e \<noteq> operation_aborted
              then [Log Error ''Exception occurred while closing sockets of Peer object p{}: {}''
                      [dec (unat (peerId p)), what B e]]
              else []))
      in case (if in_socket p = None then None else shut_in) of
           Some e \<Rightarrow> map_sum id (\<lambda>calls. (False, False, calls)) (caught e)
         | None \<Rightarrow>
             (case shut_out of
                Some e \<Rightarrow> map_sum id (\<lambda>calls. (in_socket p \<noteq> None, False, calls)) (caught e)
              | None \<Rightarrow> Inr (in_socket p \<noteq> None, True, [])))"

section \<open>Properties\<close>

lemma ntohl_htonl [simp]: "ntohl_bytes (htonl_bytes n) = n"
proof (rule bit_word_eqI)
  fix k
  assume "k < LENGTH(32)"
  then have "k < 8 \<or> (8 \<le> k \<and> k < 16) \<or> (16 \<le> k \<and> k < 24) \<or> (24 \<le> k \<and> k < 32)" by auto
  then show "bit (ntohl_bytes (htonl_bytes n)) k = bit n k"
    by (elim disjE) (auto simp: htonl_bytes_def bit_simps)
qed

lemma htonl_length [simp]: "length (htonl_bytes n) = 4"
  by (simp add: htonl_bytes_def)

lemma read_frame_written:
  assumes "length payload < 2 ^ 32"
  shows "read_frame (htonl_bytes (word_of_nat (length payload)) @ payload @ rest) = Inr (payload, rest)"
proof -
  have "unat (word_of_nat (length payload) :: 32 word) = length payload"
    using assms by (simp add: unat_of_nat)
  then show ?thesis by (simp add: read_frame_def read_exactly_def)
qed

text \<open>Sending and receiving a number of messages.\<close>

fun send_all :: "peer_libs \<Rightarrow> json list \<Rightarrow> Peer \<Rightarrow> unit res \<times> Peer" where
  "send_all B [] p = (Inr (), p)"
| "send_all B (m # ms) p =
     (case send_bytes B m p of (Inl e, p') \<Rightarrow> (Inl e, p') | (Inr _, p') \<Rightarrow> send_all B ms p')"

fun receive_many :: "peer_libs \<Rightarrow> nat \<Rightarrow> Peer \<Rightarrow> JSONMessage res list \<times> Peer" where
  "receive_many B 0 p = ([], p)"
| "receive_many B (Suc n) p =
     (case receive B (\<lambda>p. (None, p)) p of
        (r, p', _) \<Rightarrow> (case receive_many B n p' of (rs, p'') \<Rightarrow> (r # rs, p'')))"

definition frame :: "byte list \<Rightarrow> byte list" where
  "frame payload = htonl_bytes (word_of_nat (length payload)) @ payload"

lemma send_all_stream:
  assumes "\<And>w b. sock_write B w b = None" and "\<forall>m \<in> set ms. length (serialize B m) < 2 ^ 32 - 1"
  shows "send_all B ms p = (Inr (), p\<lparr>out_stream := out_stream p @ concat (map (frame \<circ> serialize B) ms)\<rparr>)"
  using assms(2) by (induction ms arbitrary: p) (auto simp: send_bytes_def Let_def assms(1) frame_def)

lemma receive_many_stream:
  assumes "\<forall>m \<in> set ms. length (serialize B m) < 2 ^ 32 - 1"
  shows "receive_many B (length ms) (q\<lparr>in_socket := Some (concat (map (frame \<circ> serialize B) ms) @ rest)\<rparr>) =
    (map (parse_message B \<circ> serialize B) ms, q\<lparr>in_socket := Some rest\<rparr>)"
  using assms
proof (induction ms)
  case (Cons m ms)
  have "length (serialize B m) < 2 ^ 32" using Cons.prems by simp
  from read_frame_written [OF this] Cons show ?case by (simp add: receive_def receive_body_def frame_def)
qed simp

text \<open>
  C35 (framing). Messages that are sent one after the other and do not exceed the size
  limit arrive one by one, complete and in order, whatever follows them in the stream:
  the big-endian length written in front of each message delimits it exactly.
\<close>

theorem framing_roundtrip:
  assumes "\<And>w b. sock_write B w b = None" and "\<forall>m \<in> set ms. length (serialize B m) < 2 ^ 32 - 1"
    and "out_stream p = []" and "in_socket q = Some (out_stream (snd (send_all B ms p)) @ rest)"
  shows "fst (send_all B ms p) = Inr () \<and>
    receive_many B (length ms) q = (map (\<lambda>m. parse_message B (serialize B m)) ms, q\<lparr>in_socket := Some rest\<rparr>)"
proof -
  have s: "send_all B ms p = (Inr (), p\<lparr>out_stream := concat (map (frame \<circ> serialize B) ms)\<rparr>)"
    using send_all_stream [OF assms(1,2), of p] assms(3) by simp
  then have "q = q\<lparr>in_socket := Some (concat (map (frame \<circ> serialize B) ms) @ rest)\<rparr>"
    using assms(4) by simp
  then show ?thesis using s receive_many_stream [OF assms(2), where q = q and rest = rest] by (simp add: comp_def)
qed

definition libs_ref :: peer_libs where
  "libs_ref = \<lparr>serialize = (\<lambda>v. case v of JString s \<Rightarrow> map of_char s | _ \<Rightarrow> []),
     value_from = (\<lambda>m. JObject (json_body m)),
     json_parse = (\<lambda>bs. Inr (JString (map (\<lambda>b. char_of (unat b)) bs))),
     value_to = (\<lambda>v. Inr \<lparr>src = 0, dest = (case v of JString s \<Rightarrow> word_of_nat (length s) | _ \<Rightarrow> 0), json_body = []\<rparr>),
     what = (\<lambda>e. case e of SystemError code \<Rightarrow> code | _ \<Rightarrow> ''error''),
     sock_write = (\<lambda>_ _. None)\<rparr>"

definition peer_ref :: Peer where
  "peer_ref = \<lparr>peerId = 1, out_stream = [], in_socket = None, incoming_init = False\<rparr>"

theorem framing_roundtrip_witness:
  "fst (receive_many libs_ref 2 (peer_ref\<lparr>in_socket :=
     Some (out_stream (snd (send_all libs_ref [JString ''ab'', JString ''c''] peer_ref)) @ [7])\<rparr>)) =
   [Inr \<lparr>src = 0, dest = 2, json_body = []\<rparr>, Inr \<lparr>src = 0, dest = 1, json_body = []\<rparr>]"
proof -
  let ?ms = "[JString ''ab'', JString ''c'']"
  let ?q = "peer_ref\<lparr>in_socket := Some (out_stream (snd (send_all libs_ref ?ms peer_ref)) @ [7])\<rparr>"
  have "\<And>w b. sock_write libs_ref w b = None" "\<forall>m \<in> set ?ms. length (serialize libs_ref m) < 2 ^ 32 - 1"
      "out_stream peer_ref = []" "in_socket ?q = Some (out_stream (snd (send_all libs_ref ?ms peer_ref)) @ [7])"
      "map (\<lambda>m. parse_message libs_ref (serialize libs_ref m)) ?ms =
        [Inr \<lparr>src = 0, dest = 2, json_body = []\<rparr>, Inr \<lparr>src = 0, dest = 1, json_body = []\<rparr>]"
    by (simp_all add: libs_ref_def peer_ref_def parse_message_def del: send_all.simps)
  moreover have "length ?ms = 2" by simp
  ultimately show ?thesis using framing_roundtrip [of libs_ref ?ms peer_ref ?q "[7]"] by (metis fst_conv)
qed

text \<open>The attempts that are refused or time out before one that is decisive.\<close>

definition retries :: "(nat \<Rightarrow> exn option) \<Rightarrow> nat list \<Rightarrow> nat list" where
  "retries attempts js = takeWhile (\<lambda>j. \<exists>e. attempts j = Some e \<and> retry e) js"

lemma retry_is_system [simp]: "retry e \<Longrightarrow> is_system e"
  by (auto simp: retry_def)

lemma connect_loop_ends:
  "fst (connect_loop B peer m delay attempts i n) =
     (case find (\<lambda>j. \<forall>e. attempts j = Some e \<longrightarrow> \<not> retry e) [i..<i + n] of
        None \<Rightarrow> Exited
      | Some j \<Rightarrow> (case attempts j of None \<Rightarrow> Connected | Some e \<Rightarrow> Rethrown e))"
proof (induction n arbitrary: i)
  case (Suc n)
  have range: "[i..<i + Suc n] = i # [Suc i..<Suc i + n]" by (simp add: upt_conv_Cons del: upt_Suc)
  show ?case
  proof (cases "\<exists>e. attempts i = Some e \<and> retry e")
    case True
    then show ?thesis using Suc.IH [of "Suc i"] by (auto simp only: range find.simps) (simp add: case_prod_beta)
  next
    case False
    then show ?thesis by (cases "attempts i") (auto simp: range simp del: upt_Suc add_Suc_right)
  qed
qed simp

lemma connect_loop_log:
  "connect_loop B peer m delay attempts i n = (r, calls, slept) \<Longrightarrow>
     formats_ok calls \<and> slept = delay * length (retries attempts [i..<i + n]) \<and>
     length calls \<le> Suc (length (retries attempts [i..<i + n]))"
proof (induction n arbitrary: i r calls slept)
  case (Suc n)
  obtain r' calls' slept' where rec: "connect_loop B peer m delay attempts (Suc i) n = (r', calls', slept')"
    by (cases "connect_loop B peer m delay attempts (Suc i) n")
  have range: "[i..<Suc (i + n)] = i # [Suc i..<Suc (i + n)]" by (simp add: upt_conv_Cons del: upt_Suc)
  show ?case
  proof (cases "\<exists>e. attempts i = Some e \<and> retry e")
    case True
    then show ?thesis using Suc.prems Suc.IH [OF rec] rec by (auto simp: retries_def range simp del: upt_Suc)
  next
    case False
    then show ?thesis using Suc.prems
      by (auto simp: retries_def range simp del: upt_Suc split: option.splits if_splits)
  qed
qed (auto simp: retries_def)

text \<open>
  Bounded connection attempts, against a reference. A peer whose port can be
  resolved makes at most ten attempts: the first one that is neither refused nor timed
  out decides, success connects and any other error is passed on; if there is none
  among the ten, the process exits.
\<close>

theorem connect_reference:
  assumes "resolve SERVER_IP (dec (peer_port peer)) = None"
  shows "fst (connect B resolve attempts DEFAULT_CONN_RETRIES delay peer) =
     (case find (\<lambda>j. \<forall>e. attempts j = Some e \<longrightarrow> \<not> retry e) [1..<11] of
        None \<Rightarrow> Exited
      | Some j \<Rightarrow> (case attempts j of None \<Rightarrow> Connected | Some e \<Rightarrow> Rethrown e))"
  using assms connect_loop_ends [of B peer 10 delay attempts 1 10]
  by (simp add: connect_def DEFAULT_CONN_RETRIES_def case_prod_beta)

theorem connect_reference_witness:
  "fst (connect libs_ref (\<lambda>_ _. None) (\<lambda>j. if j < 4 then Some (SystemError ''timed_out'') else None)
     DEFAULT_CONN_RETRIES 200 1) = Connected"
  using connect_reference [of "\<lambda>_ _. None" 1 libs_ref "\<lambda>j. if j < 4 then Some (SystemError ''timed_out'') else None" 200]
  by (simp add: upt_rec numeral_nat retry_def)

text \<open>
  C36 (bounds of a connection). The constructor of a peer sleeps 200 milliseconds for each
  refused or timed-out attempt, so two seconds in all at most, and writes one line per
  such attempt and two more at most to the log, every one of them properly formatted. The
  port it asks for is a 16-bit port exactly for node ids below 25536, and different nodes
  have different ports.
\<close>

theorem connect_bounds:
  "\<exists>r calls slept. connect B resolve attempts DEFAULT_CONN_RETRIES DEFAULT_CONN_WAIT peer = (r, calls, slept) \<and>
     slept \<le> 2000 \<and> 200 dvd slept \<and> length calls \<le> slept div 200 + 2 \<and> formats_ok calls \<and>
     (peer_port peer < 2 ^ 16 \<longleftrightarrow> peer < 25536) \<and> (peer_port peer = peer_port other \<longleftrightarrow> peer = other)"
proof -
  obtain r calls slept where loop: "connect_loop B peer 10 200 attempts 1 10 = (r, calls, slept)"
    by (cases "connect_loop B peer 10 200 attempts 1 10")
  let ?n = "length (retries attempts [1..<11])"
  have n: "?n \<le> 10"
    using length_takeWhile_le [of _ "[1..<11]"] by (simp add: retries_def del: upt_Suc)
  have log: "formats_ok calls" "slept = 200 * ?n" "length calls \<le> Suc ?n"
    using connect_loop_log [OF loop] by simp_all
  have port: "peer_port peer < 2 ^ 16 \<longleftrightarrow> peer < 25536" "peer_port peer = peer_port other \<longleftrightarrow> peer = other"
    by (simp_all add: peer_port_def BASE_PORT_RANGE_START_def word_less_nat_alt word_unat_eq_iff)
  show ?thesis
    using loop log n port
    by (cases "resolve SERVER_IP (dec (peer_port peer))")
      (auto simp: connect_def DEFAULT_CONN_RETRIES_def DEFAULT_CONN_WAIT_def)
qed

text \<open>
  How asio documents the timer \<open>ready\<close>: it is set to the end of time, so that a wait ends
  only when \<open>setup_incoming\<close> changes the expiry, and changing the expiry cancels every
  wait that is pending, which then fails with \<open>operation_aborted\<close>.
\<close>

definition cancelled_by :: "byte list \<Rightarrow> (Peer \<Rightarrow> exn option \<times> Peer) \<Rightarrow> bool" where
  "cancelled_by socket wait \<longleftrightarrow> (\<forall>p. wait p = (Some operation_aborted, setup_incoming socket p))"

text \<open>
  Receiving before the connection is there. A receiver that waits for the incoming
  connection fails when the connection arrives: the wait is cancelled, the error is logged
  and passed on. Nothing of the stream is lost, and the next receive reads its first
  message; a second connection is ignored.
\<close>

theorem receive_before_connection:
  assumes "in_socket p = None" and "\<not> incoming_init p" and "length payload < 2 ^ 32"
    and "cancelled_by (frame payload @ rest) wait"
  shows "\<exists>p' calls. receive B wait p = (Inl operation_aborted, p', calls) \<and>
    length calls = 1 \<and> formats_ok calls \<and>
    receive B wait' (setup_incoming other p') = (parse_message B payload, p'\<lparr>in_socket := Some rest\<rparr>,
      if parse_message B payload = Inl operation_aborted then calls else [])"
  using assms read_frame_written [OF assms(3), of rest]
  by (auto simp: receive_def receive_body_def cancelled_by_def setup_incoming_def frame_def)

theorem receive_before_connection_witness:
  "\<exists>p' calls. receive libs_ref (\<lambda>p. (Some operation_aborted, setup_incoming (frame [65, 66] @ [7]) p)) peer_ref =
       (Inl operation_aborted, p', calls) \<and>
     fst (receive libs_ref (\<lambda>p. (None, p)) (setup_incoming [] p')) = Inr \<lparr>src = 0, dest = 2, json_body = []\<rparr>"
proof -
  let ?w = "\<lambda>p. (Some operation_aborted, setup_incoming (frame [65, 66] @ [7]) p)"
  have "in_socket peer_ref = None" "\<not> incoming_init peer_ref" "length [65, 66 :: byte] < 2 ^ 32"
      "cancelled_by (frame [65, 66] @ [7]) ?w"
      "parse_message libs_ref [65, 66] = Inr \<lparr>src = 0, dest = 2, json_body = []\<rparr>"
    by (simp_all add: peer_ref_def libs_ref_def parse_message_def cancelled_by_def)
  with receive_before_connection [of peer_ref "[65, 66]" "[7]" ?w libs_ref "\<lambda>p. (None, p)" "[]"]
  show ?thesis by auto
qed

text \<open>
  The destructor of a peer whose sockets fail only with \<open>system_error\<close> never throws; the
  outgoing socket is shut down only if shutting down the incoming one did not fail.
\<close>

lemma destroy_Peer_safe:
  assumes "\<And>e. shut_in = Some e \<Longrightarrow> is_system e" and "\<And>e. shut_out = Some e \<Longrightarrow> is_system e"
  shows "\<exists>i out calls. destroy_Peer B shut_in shut_out p = Inr (i, out, calls) \<and> formats_ok calls \<and>
    (out \<longleftrightarrow> (in_socket p = None \<or> shut_in = None) \<and> shut_out = None)"
proof (cases "in_socket p = None \<or> shut_in = None")
  case True
  then have "(if in_socket p = None then None else shut_in) = None" by auto
  with True assms(2) show ?thesis by (cases shut_out) (auto simp: destroy_Peer_def Let_def)
next
  case False
  with assms(1) show ?thesis by (auto simp: destroy_Peer_def Let_def)
qed

end
