(* ===== verification/Cluster_Start.thy ===== *)
theory Cluster_Start
  imports Txn_Handler Scheduler_Wf Peer
begin

text \<open>
  From the \<open>init\<close> message to the routing of keys: the names of the nodes, which Maelstrom
  hands out as text, the start-up of the scheduler that \<open>main\<close> registers as an init
  handler, and the view of the cluster that each node derives from them.
\<close>

section \<open>Numbers in names\<close>

lemma digit_char:
  assumes "n < (10 :: nat)"
  shows "of_char (char_of (48 + n) :: char) = 48 + n" "is_digit (char_of (48 + n))"
  using assms by (simp_all add: is_digit_def)

lemma dec_digits: "dec n \<noteq> [] \<and> (\<forall>c \<in> set (dec n). is_digit c)"
proof (induction n rule: dec.induct)
  case (1 n)
  then show ?case by (subst (1 2) dec.simps) (auto simp: digit_char)
qed

lemma decimal_snoc: "decimal (ds @ [c]) = 10 * decimal ds + (of_char c - 48)"
  by (simp add: decimal_def)

lemma decimal_dec: "decimal (dec n) = n"
proof (induction n rule: dec.induct)
  case (1 n)
  show ?case
  proof (cases "n < 10")
    case True
    then show ?thesis using decimal_snoc [of "[]"] by (subst dec.simps) (simp add: digit_char decimal_def)
  next
    case False
    then show ?thesis using 1 by (subst dec.simps) (simp add: decimal_snoc digit_char)
  qed
qed

lemma takeWhile_dec [simp]: "takeWhile is_digit (dec n) = dec n"
  using dec_digits by (simp add: takeWhile_eq_all_conv)

lemma dec_not_Nil [simp]: "dec n \<noteq> []"
  using dec_digits by simp

lemma digit_plain:
  assumes "is_digit c"
  shows "\<not> is_space c" "c \<noteq> CHR ''-''" "c \<noteq> CHR ''+''" "c \<noteq> CHR 0x00"
  using assms by (auto simp: is_digit_def is_space_def)

lemma unat_16: "unat (i :: NodeID) < 65536"
  using unsigned_less [of i] by simp

lemma from_chars_dec: "from_chars_u16 (dec (unat i)) = Some i"
  using unat_16 [of i] by (simp add: from_chars_u16_def Let_def decimal_dec)

lemma stoi_dec: "stoi (dec (unat (i :: NodeID))) = Inr (uint i)"
proof -
  obtain c cs where d: "dec (unat i) = c # cs" by (cases "dec (unat i)") simp_all
  then have "is_digit c" using dec_digits [of "unat i"] by simp
  note plain = digit_plain [OF this]
  have "takeWhile is_digit (c # cs) = c # cs" "decimal (c # cs) = unat i"
    using takeWhile_dec [of "unat i"] decimal_dec [of "unat i"] d by simp_all
  moreover have "uint i < 2 ^ 31" using uint_bounded [of i] by simp
  moreover have "\<not> uint i < - 2147483648" using uint_nonnegative [of i] by linarith
  ultimately show ?thesis using d plain by (simp add: stoi_def Let_def)
qed

definition node_name :: "NodeID \<Rightarrow> string" where
  "node_name i = ''n'' @ dec (unat i)"

lemma node_name_inj [simp]: "node_name i = node_name j \<longleftrightarrow> i = j"
  using from_chars_dec by (metis node_name_def append_Cons append_Nil list.inject option.inject)

lemma c_str_node_name [simp]: "c_str (node_name i) = node_name i"
  using dec_digits [of "unat i"] digit_plain(4) by (auto simp: c_str_def node_name_def takeWhile_eq_all_conv)

lemma peer_ids_names: "peer_ids (map node_name js) = Inr js"
  by (induction js) (simp_all add: node_name_def stoi_dec)

section \<open>Starting a node of a cluster\<close>

text \<open>A server that comes up, and the state that a named node has after its start.\<close>

definition server_starts :: "server_api \<Rightarrow> bool" where
  "server_starts S \<longleftrightarrow> (\<forall>i ps. srv_startup S i ps = None)"

lemma start_named:
  assumes "server_starts S" and "\<not> listener_running s" and "js \<noteq> []"
  shows "\<exists>s'. start S (node_name i) (map node_name js) s = (Inr True, s') \<and> local_node_id s' = i \<and>
    coordinator s' = Some (make_coordinator i (cluster_ids (i # js)))"
  using assms peer_ids_names [of js]
  by (simp add: start_def node_name_def [of i] from_chars_dec start_message_listener_def startup_server_def
      server_starts_def Let_def)

lemma start_alone:
  assumes "server_starts S" and "coordinator s = None"
  shows "\<exists>s'. start S (node_name i) [] s = (Inr True, s') \<and> local_node_id s' = i \<and> coordinator s' = None"
  using assms by (simp add: start_def node_name_def from_chars_dec startup_server_def server_starts_def Let_def)

text \<open>The \<open>init\<close> message of node \<open>i\<close> in a cluster of nodes \<open>ids\<close>.\<close>

definition init_message :: "NodeID \<Rightarrow> NodeID list \<Rightarrow> Message \<Rightarrow> bool" where
  "init_message i ids msg \<longleftrightarrow> getType msg = ''init'' \<and>
     map_of (getBody msg) ''node_id'' = Some (JString (node_name i)) \<and>
     map_of (getBody msg) ''node_ids'' = Some (JArray (map (JString \<circ> node_name) ids))"

lemma other_names: "filter (\<lambda>s. s \<noteq> node_name i) (map node_name ids) = map node_name (filter (\<lambda>j. j \<noteq> i) ids)"
  by (simp add: filter_map comp_def)

lemma add_peers_names:
  assumes "boost_ok J"
  shows "add_peers J (node_name i) (map (JString \<circ> node_name) ids) [] = (Inr (), map node_name (filter (\<lambda>j. j \<noteq> i) ids))"
  using add_peers_strings [OF assms, of "map node_name ids" "node_name i" "[]"] other_names by (simp add: comp_def)

lemma init_starts:
  assumes "boost_ok J" and "init_message i ids msg"
    and "start S (node_name i) (map node_name (filter (\<lambda>j. j \<noteq> i) ids)) s = (Inr True, s')"
  shows "\<exists>n'. handleMessage J msg (main_node S s) = (Inr (), n') \<and> app n' = s' \<and> nodeId n' = Some (node_name i)"
proof -
  let ?n1 = "(main_node S s)\<lparr>nodeId := Some (node_name i), peerIds := map node_name (filter (\<lambda>j. j \<noteq> i) ids), app := s'\<rparr>"
  have "handleMessage J msg (main_node S s) =
      respond J (recipient msg) (sender msg) ''init_ok'' [] (msgId msg) ?n1"
    using assms add_peers_names [OF assms(1), of i ids]
    by (simp add: handleMessage_def init_def init_message_def member_c_str_def main_node_def make_Node_def
        registerInitHandler_def registerMessageHandler_def Let_def)
  with respond_ok [of J "recipient msg" "sender msg" "''init_ok''" "[]" "msgId msg" ?n1] show ?thesis by auto
qed

lemma cluster_ids_numbered:
  assumes "set ids = word_of_nat ` {0..<m}" and "m \<le> 2 ^ 16"
  shows "length (cluster_ids ids) = m"
proof -
  have "inj_on (word_of_nat :: nat \<Rightarrow> NodeID) {0..<m}"
    using assms(2) by (auto simp: inj_on_def word_of_nat_eq_iff take_bit_nat_eq_self)
  then have "card (set (cluster_ids ids)) = m" using assms(1) by (simp add: card_image)
  then show ?thesis using cluster_ids_sorted(2) [of ids] by (metis distinct_card)
qed

text \<open>
  C9 (the nodes of a cluster agree on routing). A node of a cluster that is named n0 to
  n(m-1), in whatever order the names are listed, answers its \<open>init\<close> message and knows its
  id afterwards. It then routes every key to the node with the number
  \<open>hash(key) mod m\<close>: a node of the cluster, the same for every node that is asked, and
  the key is local exactly there.
\<close>

theorem cluster_agrees_on_routing:
  assumes "boost_ok J" and "server_starts S" and "0 < m" and "m \<le> 65536"
    and "set ids = word_of_nat ` {0..<m}" and "i \<in> set ids" and "init_message i ids msg"
  shows "\<exists>n'. handleMessage J msg (main_node S (make_scheduler z st)) = (Inr (), n') \<and>
    local_node_id (app n') = i \<and>
    (\<forall>k. let p = word_of_nat (unat (hash_i64 L k) mod m) in
       p \<in> set ids \<and> primary_of L (app n') k = Inr p \<and> is_local_key L (app n') k = Inr (i = p))"
proof -
  let ?js = "filter (\<lambda>j. j \<noteq> i) ids" and ?p = "\<lambda>k. word_of_nat (unat (hash_i64 L k) mod m) :: NodeID"
  have p: "?p k \<in> set ids" for k using assms(3,5) by simp
  have "\<exists>s'. start S (node_name i) (map node_name ?js) (make_scheduler z st) = (Inr True, s') \<and> local_node_id s' = i \<and>
      (\<forall>k. primary_of L s' k = Inr (?p k) \<and> is_local_key L s' k = Inr (i = ?p k))"
  proof (cases "?js = []")
    case True
    then have "\<forall>j \<in> set ids. j = i" by (simp add: filter_empty_conv)
    with p have "?p k = i" for k by blast
    moreover have "coordinator (make_scheduler z st) = None" by (simp add: make_scheduler_def)
    ultimately show ?thesis
      using start_alone [OF assms(2), of "make_scheduler z st" i] True
      by (auto simp: primary_of_def is_local_key_def)
  next
    case False
    have all: "set (i # ?js) = word_of_nat ` {0..<m}" using assms(5,6) by auto
    then have "length (cluster_ids (i # ?js)) = m" using cluster_ids_numbered assms(4) by simp
    moreover from this have "cluster_ids (i # ?js) \<noteq> []" using assms(3) by auto
    ultimately have "get_primary_node L (make_coordinator i (cluster_ids (i # ?js))) k = Inr (?p k)" for k
      using primary_node_eq [of "make_coordinator i (cluster_ids (i # ?js))"] assms(4) by (simp add: make_coordinator_def)
    moreover have "\<not> listener_running (make_scheduler z st)" by (simp add: make_scheduler_def)
    ultimately show ?thesis
      using start_named [OF assms(2) _ False, of "make_scheduler z st" i]
      by (fastforce simp: primary_of_def is_local_key_def is_local_def make_coordinator_def split: bool.split)
  qed
  then obtain s' where s': "start S (node_name i) (map node_name ?js) (make_scheduler z st) = (Inr True, s')"
      "local_node_id s' = i" "\<And>k. primary_of L s' k = Inr (?p k)" "\<And>k. is_local_key L s' k = Inr (i = ?p k)"
    by blast
  from init_starts [OF assms(1,7) s'(1)] s' p show ?thesis by (auto simp: Let_def)
qed

theorem cluster_agrees_on_routing_witness:
  "\<exists>msg n'. init_message 2 [1, 0, 2] msg \<and>
     handleMessage boost_ref msg (main_node server_up (make_scheduler 0 empty_store)) = (Inr (), n') \<and>
     local_node_id (app n') = 2 \<and> primary_of std_ref (app n') 7 = Inr 1"
proof -
  let ?msg = "\<lparr>sender = ''c'', recipient = ''n2'', msg_type = ''init'',
     body = [(''node_id'', JString (node_name 2)), (''node_ids'', JArray (map (JString \<circ> node_name) [1, 0, 2]))],
     msgId = Some 1, inReplyTo = None\<rparr> :: Message"
  have "{0..<3} = {0, 1, 2 :: nat}" by auto
  then have ids: "set [1, 0, 2] = (word_of_nat ` {0..<3} :: NodeID set)" by auto
  have "init_message 2 [1, 0, 2] ?msg" "server_starts server_up" "(2 :: NodeID) \<in> set [1, 0, 2]"
    by (simp_all add: init_message_def server_starts_def server_up_def)
  then show ?thesis
    using cluster_agrees_on_routing [OF boost_ref_ok _ _ _ ids, of server_up 2 ?msg 0 empty_store std_ref]
    by (auto simp: Let_def)
qed

end
