(* ===== verification/Mutual_Exclusion.thy ===== *)
theory Mutual_Exclusion
  imports Prelude
begin

text \<open>
  What the theories with mutexes in their state share. A mutex holds the number of the
  thread that has locked it. The locale \<open>mutex_user\<close> is the contract of a machine with the
  code between a lock and its unlock: a step of a thread changes the mutex only as that
  thread enters or leaves. What follows from it, that at most one thread is inside, is
  proved once and used for every mutex of the program.
\<close>

text \<open>A mutex is locked by exactly the thread that stands in a section it guards.\<close>

definition guarded :: "nat option \<Rightarrow> ('t \<Rightarrow> bool) \<Rightarrow> 't list \<Rightarrow> bool" where
  "guarded m inside ts \<longleftrightarrow> (\<forall>i. m = Some i \<longleftrightarrow> i < length ts \<and> inside (ts ! i))"

text \<open>How a step of thread \<open>i\<close> may change a mutex.\<close>

definition moves :: "nat \<Rightarrow> bool \<Rightarrow> bool \<Rightarrow> nat option \<Rightarrow> nat option \<Rightarrow> bool" where
  "moves i before after m m' \<longleftrightarrow>
     (before = after \<and> m' = m) \<or> (\<not> before \<and> after \<and> m = None \<and> m' = Some i) \<or> (before \<and> \<not> after \<and> m' = None)"

lemma guarded_moves:
  assumes "guarded m inside ts" and "i < length ts" and "length ts' = length ts"
    and "\<And>j. j < length ts \<Longrightarrow> j \<noteq> i \<Longrightarrow> inside (ts' ! j) = inside (ts ! j)"
    and "moves i (inside (ts ! i)) (inside (ts' ! i)) m m'"
  shows "guarded m' inside ts'"
  unfolding guarded_def
proof (intro allI)
  fix j
  have "m = Some j \<longleftrightarrow> j < length ts \<and> inside (ts ! j)" "m = Some i \<longleftrightarrow> inside (ts ! i)"
    using assms(1,2) by (auto simp: guarded_def)
  with assms(2-) show "m' = Some j \<longleftrightarrow> j < length ts' \<and> inside (ts' ! j)"
    by (cases "j = i") (auto simp: moves_def)
qed

lemma guarded_append: "guarded m inside ts \<Longrightarrow> \<not> inside t \<Longrightarrow> guarded m inside (ts @ [t])"
  by (auto simp: guarded_def nth_append less_Suc_eq)

lemma guarded_none: "\<forall>t \<in> set ts. \<not> inside t \<Longrightarrow> guarded None inside ts"
  by (auto simp: guarded_def)

lemma guardedE:
  assumes "guarded m inside ts" and "m \<noteq> None"
  obtains i where "m = Some i" "i < length ts" "inside (ts ! i)"
  using assms unfolding guarded_def by (metis not_None_eq)

lemma guarded_unique:
  "guarded m inside ts \<Longrightarrow> i < length ts \<Longrightarrow> j < length ts \<Longrightarrow> inside (ts ! i) \<Longrightarrow> inside (ts ! j) \<Longrightarrow> i = j"
  unfolding guarded_def by (metis option.inject)

lemma guarded_locked: "guarded m inside ts \<Longrightarrow> i < length ts \<Longrightarrow> inside (ts ! i) \<Longrightarrow> m = Some i"
  unfolding guarded_def by blast

section \<open>Machines\<close>

locale mutex_user =
  fixes step :: "nat \<Rightarrow> 's \<Rightarrow> 's option"
    and threads :: "'s \<Rightarrow> 't list"
    and mutex :: "'s \<Rightarrow> nat option"
    and inside :: "'t \<Rightarrow> bool"
  assumes step_moves: "step i s = Some s' \<Longrightarrow>
      i < length (threads s) \<and> length (threads s') = length (threads s) \<and>
      (\<forall>j < length (threads s). j \<noteq> i \<longrightarrow> inside (threads s' ! j) = inside (threads s ! j)) \<and>
      moves i (inside (threads s ! i)) (inside (threads s' ! i)) (mutex s) (mutex s')"
begin

lemma exclusive:
  assumes "guarded (mutex s) inside (threads s)" and "step i s = Some s'"
  shows "guarded (mutex s') inside (threads s')"
  using step_moves [OF assms(2)] guarded_moves [OF assms(1)] by blast

text \<open>No thread enters while another one is inside.\<close>

lemma others_stay_outside:
  assumes "guarded (mutex s) inside (threads s)" and "step i s = Some s'"
    and "j < length (threads s)" and "inside (threads s ! j)" and "i \<noteq> j"
  shows "\<not> inside (threads s ! i) \<and> \<not> inside (threads s' ! i)"
proof -
  note m = step_moves [OF assms(2)] and g = exclusive [OF assms(1,2)]
  have "inside (threads s' ! j)" using m assms(3-5) by blast
  then show ?thesis
    using m assms(3-) guarded_unique [OF g, of i j] guarded_unique [OF assms(1), of i j] by metis
qed

end

end
