(* ===== verification/Mutexes.thy ===== *)
theory Mutexes
  imports Serializability Mutual_Exclusion
begin

text \<open>
  The mutexes of \<open>LockManager\<close>. In \<open>Concurrent\<close> a critical section is one step; here
  locking a mutex, every access to the data it guards and unlocking it are steps of their
  own, in the order of \<open>LockManager.cpp\<close>, and a thread that finds a mutex locked waits. A
  thread runs the transactions of \<open>Concurrent\<close>: it locks its keys, executes and releases.
  The operations on the store keep their granularity. The theory shows that the threads
  never deadlock on the mutexes, which accesses are protected and which are not, and that
  the machine refines the one with atomic sections, so that transactions are serializable
  at this level too.
\<close>

section \<open>Threads\<close>

text \<open>
  \<open>At p\<close>: between two sections, about to begin the one for phase \<open>p\<close>. The others say what
  the thread does next. \<open>acquire\<close>: \<open>E1\<close> creates the entry under \<open>table_mutex\<close>, \<open>E2\<close> unlocks
  it, \<open>Find\<close> is the unprotected \<open>lock_table.at(key)\<close>; \<open>C1\<close> locks \<open>held_locks_mutex\<close> with the
  entry locked, \<open>C2\<close> inserts, \<open>C3\<close> unlocks; \<open>First\<close> and \<open>Again\<close> are the checks of the loops,
  \<open>C5\<close> unlocks the entry. \<open>release_all\<close>: \<open>F1\<close> takes the set of keys, \<open>F2\<close> unlocks.
  \<open>release\<close>: \<open>R1\<close> looks up the entry under \<open>table_mutex\<close>, \<open>R2\<close> locks it, \<open>R3\<close> resets the owner,
  \<open>R4\<close> locks \<open>held_locks_mutex\<close>, \<open>R5\<close> erases, \<open>R6\<close> to \<open>R8\<close> unlock.
\<close>

datatype pc =
    At phase
  | E1 KeyType "KeyType list"
  | E2 KeyType "KeyType list"
  | Find KeyType "KeyType list"
  | C1 KeyType "KeyType list"
  | C2 KeyType "KeyType list"
  | C3 KeyType "KeyType list"
  | First KeyType "KeyType list"
  | Again nat KeyType "KeyType list"
  | C5 KeyType phase
  | F1 txn_end
  | F2 "KeyType list" txn_end
  | R1 KeyType "KeyType list" txn_end
  | R2 KeyType "KeyType list" txn_end
  | R3 KeyType "KeyType list" txn_end
  | R4 KeyType "KeyType list" txn_end
  | R5 KeyType "KeyType list" txn_end
  | R6 KeyType "KeyType list" txn_end
  | R7 KeyType "KeyType list" txn_end
  | R8 KeyType "KeyType list" txn_end

record mthread =
  mt_tx :: TransactionId
  mt_prog :: "Operation list"
  pc :: pc

text \<open>A mutex holds the number of the thread that has locked it.\<close>

record msystem =
  table_mutex :: "nat option"
  entry_mutex :: "KeyType \<Rightarrow> nat option"
  held_locks_mutex :: "nat option"
  lockman :: LockManager
  kv :: ThreadSafeKVStore
  mcounter :: TransactionId
  mthreads :: "mthread list"
  mhistory :: "(nat \<times> Operation list \<times> Results) list"

definition init_msystem :: msystem where
  "init_msystem = \<lparr>table_mutex = None, entry_mutex = (\<lambda>_. None), held_locks_mutex = None,
     lockman = init_lock_manager, kv = empty_store, mcounter = 1, mthreads = [], mhistory = []\<rparr>"

text \<open>The section under \<open>held_locks_mutex\<close> in \<open>release\<close>.\<close>

definition untrack :: "KeyType \<Rightarrow> TransactionId \<Rightarrow> LockManager \<Rightarrow> LockManager" where
  "untrack key tx lm =
     (case held_locks lm tx of
        None \<Rightarrow> lm
      | Some ks \<Rightarrow>
          (let ks' = removeAll key ks
           in lm\<lparr>held_locks := (held_locks lm)(tx := (if ks' = [] then None else Some ks'))\<rparr>))"

section \<open>Steps\<close>

definition goto :: "nat \<Rightarrow> pc \<Rightarrow> msystem \<Rightarrow> msystem" where
  "goto i p s = s\<lparr>mthreads := (mthreads s)[i := (mthreads s ! i)\<lparr>pc := p\<rparr>]\<rparr>"

definition lock_table_mutex :: "nat \<Rightarrow> pc \<Rightarrow> msystem \<Rightarrow> msystem option" where
  "lock_table_mutex i p s = (if table_mutex s = None then Some (goto i p (s\<lparr>table_mutex := Some i\<rparr>)) else None)"

definition lock_entry_mutex :: "nat \<Rightarrow> KeyType \<Rightarrow> pc \<Rightarrow> msystem \<Rightarrow> msystem option" where
  "lock_entry_mutex i k p s =
     (if entry_mutex s k = None then Some (goto i p (s\<lparr>entry_mutex := (entry_mutex s)(k := Some i)\<rparr>)) else None)"

definition lock_held_mutex :: "nat \<Rightarrow> pc \<Rightarrow> msystem \<Rightarrow> msystem option" where
  "lock_held_mutex i p s =
     (if held_locks_mutex s = None then Some (goto i p (s\<lparr>held_locks_mutex := Some i\<rparr>)) else None)"

text \<open>
  The step of thread \<open>i\<close>, which runs transaction \<open>tx\<close> of operations \<open>ops\<close> and stands at the
  given place. \<open>None\<close>: it waits for a mutex or has ended. An exception of
  \<open>lock_table.at(key)\<close> would leave \<open>execute_transaction\<close>.
\<close>

fun pc_step :: "stdlib \<Rightarrow> executor_api \<Rightarrow> nat \<Rightarrow> TransactionId \<Rightarrow> Operation list \<Rightarrow> pc \<Rightarrow> msystem \<Rightarrow> msystem option" where
  "pc_step L X i tx ops (At (Locking [])) s = Some (goto i (At (Executing [] ops [])) s)"
| "pc_step L X i tx ops (At (Locking (k # ks))) s = lock_table_mutex i (E1 k ks) s"
| "pc_step L X i tx ops (E1 k ks) s = Some (goto i (E2 k ks) (s\<lparr>lockman := ensure_entry k (lockman s)\<rparr>))"
| "pc_step L X i tx ops (E2 k ks) s = Some (goto i (Find k ks) (s\<lparr>table_mutex := None\<rparr>))"
| "pc_step L X i tx ops (Find k ks) s =
     (if has_entry (lockman s) k then Some (goto i (At (Entering k ks)) s)
      else Some (goto i (At (Ended (Failed (OutOfRange ''at'')))) s))"
| "pc_step L X i tx ops (At (Entering k ks)) s = lock_entry_mutex i k (C1 k ks) s"
| "pc_step L X i tx ops (C1 k ks) s = lock_held_mutex i (C2 k ks) s"
| "pc_step L X i tx ops (C2 k ks) s = Some (goto i (C3 k ks) (s\<lparr>lockman := track k tx (lockman s)\<rparr>))"
| "pc_step L X i tx ops (C3 k ks) s = Some (goto i (First k ks) (s\<lparr>held_locks_mutex := None\<rparr>))"
| "pc_step L X i tx ops (First k ks) s =
     (case check 0 k ks tx (lockman s) of (lm, p) \<Rightarrow> Some (goto i (C5 k p) (s\<lparr>lockman := lm\<rparr>)))"
| "pc_step L X i tx ops (At (Retrying n k ks)) s = lock_entry_mutex i k (Again n k ks) s"
| "pc_step L X i tx ops (Again n k ks) s =
     (case check n k ks tx (lockman s) of (lm, p) \<Rightarrow> Some (goto i (C5 k p) (s\<lparr>lockman := lm\<rparr>)))"
| "pc_step L X i tx ops (C5 k p) s = Some (goto i (At p) (s\<lparr>entry_mutex := (entry_mutex s)(k := None)\<rparr>))"
| "pc_step L X i tx ops (At (Executing d [] rs)) s =
     Some (goto i (At (Finishing (Committed rs))) (s\<lparr>mhistory := mhistory s @ [(i, ops, rs)]\<rparr>))"
| "pc_step L X i tx ops (At (Executing d (op # todo) rs)) s =
     (case visit X op (make_executor X (kv s)) of
        (Inl e, v) \<Rightarrow> Some (goto i (At (Finishing (Failed e))) (s\<lparr>kv := exec_store v\<rparr>))
      | (Inr rs', v) \<Rightarrow> Some (goto i (At (Executing (d @ [op]) todo (rs @ rs'))) (s\<lparr>kv := exec_store v\<rparr>)))"
| "pc_step L X i tx ops (At (Finishing r)) s = lock_held_mutex i (F1 r) s"
| "pc_step L X i tx ops (F1 r) s =
     (case held_locks (lockman s) tx of
        None \<Rightarrow> Some (goto i (F2 [] r) s)
      | Some ks \<Rightarrow> Some (goto i (F2 (key_order L ks) r)
          (s\<lparr>lockman := (lockman s)\<lparr>held_locks := (held_locks (lockman s))(tx := None)\<rparr>\<rparr>)))"
| "pc_step L X i tx ops (F2 ks r) s = Some (goto i (At (Releasing ks r)) (s\<lparr>held_locks_mutex := None\<rparr>))"
| "pc_step L X i tx ops (At (Releasing [] r)) s = Some (goto i (At (Ended r)) s)"
| "pc_step L X i tx ops (At (Releasing (k # ks) r)) s = lock_table_mutex i (R1 k ks r) s"
| "pc_step L X i tx ops (R1 k ks r) s =
     (if has_entry (lockman s) k then Some (goto i (R2 k ks r) s) else Some (goto i (R8 k ks r) s))"
| "pc_step L X i tx ops (R2 k ks r) s = lock_entry_mutex i k (R3 k ks r) s"
| "pc_step L X i tx ops (R3 k ks r) s =
     (if owner_of (lockman s) k = Some tx
      then Some (goto i (R4 k ks r) (s\<lparr>lockman := set_owner k None (lockman s)\<rparr>))
      else Some (goto i (R7 k ks r) s))"
| "pc_step L X i tx ops (R4 k ks r) s = lock_held_mutex i (R5 k ks r) s"
| "pc_step L X i tx ops (R5 k ks r) s = Some (goto i (R6 k ks r) (s\<lparr>lockman := untrack k tx (lockman s)\<rparr>))"
| "pc_step L X i tx ops (R6 k ks r) s = Some (goto i (R7 k ks r) (s\<lparr>held_locks_mutex := None\<rparr>))"
| "pc_step L X i tx ops (R7 k ks r) s = Some (goto i (R8 k ks r) (s\<lparr>entry_mutex := (entry_mutex s)(k := None)\<rparr>))"
| "pc_step L X i tx ops (R8 k ks r) s = Some (goto i (At (Releasing ks r)) (s\<lparr>table_mutex := None\<rparr>))"
| "pc_step L X i tx ops (At (Ended r)) s = None"

definition mstep :: "stdlib \<Rightarrow> executor_api \<Rightarrow> nat \<Rightarrow> msystem \<Rightarrow> msystem option" where
  "mstep L X i s =
     (if i < length (mthreads s)
      then pc_step L X i (mt_tx (mthreads s ! i)) (mt_prog (mthreads s ! i)) (pc (mthreads s ! i)) s
      else None)"

definition begin_mtxn :: "Operation list \<Rightarrow> KeyType list \<Rightarrow> msystem \<Rightarrow> msystem" where
  "begin_mtxn ops ks s = s\<lparr>mcounter := mcounter s + 1,
     mthreads := mthreads s @ [\<lparr>mt_tx = mcounter s, mt_prog = ops, pc = At (Locking ks)\<rparr>]\<rparr>"

inductive mreachable :: "stdlib \<Rightarrow> executor_api \<Rightarrow> msystem \<Rightarrow> bool" for L X where
  start: "mreachable L X init_msystem"
| begin_txn: "mreachable L X s \<Longrightarrow> set ks = op_keys ops \<Longrightarrow> distinct ks \<Longrightarrow> mreachable L X (begin_mtxn ops ks s)"
| run: "mreachable L X s \<Longrightarrow> mstep L X i s = Some s' \<Longrightarrow> mreachable L X s'"

section \<open>Mutual exclusion\<close>

fun has_table :: "pc \<Rightarrow> bool" where
  "has_table (E1 k ks) = True"
| "has_table (E2 k ks) = True"
| "has_table (R1 k ks r) = True"
| "has_table (R2 k ks r) = True"
| "has_table (R3 k ks r) = True"
| "has_table (R4 k ks r) = True"
| "has_table (R5 k ks r) = True"
| "has_table (R6 k ks r) = True"
| "has_table (R7 k ks r) = True"
| "has_table (R8 k ks r) = True"
| "has_table _ = False"

fun has_held :: "pc \<Rightarrow> bool" where
  "has_held (C2 k ks) = True"
| "has_held (C3 k ks) = True"
| "has_held (F1 r) = True"
| "has_held (F2 ks r) = True"
| "has_held (R5 k ks r) = True"
| "has_held (R6 k ks r) = True"
| "has_held _ = False"

fun has_entry_mutex :: "KeyType \<Rightarrow> pc \<Rightarrow> bool" where
  "has_entry_mutex key (C1 k ks) = (k = key)"
| "has_entry_mutex key (C2 k ks) = (k = key)"
| "has_entry_mutex key (C3 k ks) = (k = key)"
| "has_entry_mutex key (First k ks) = (k = key)"
| "has_entry_mutex key (Again n k ks) = (k = key)"
| "has_entry_mutex key (C5 k p) = (k = key)"
| "has_entry_mutex key (R3 k ks r) = (k = key)"
| "has_entry_mutex key (R4 k ks r) = (k = key)"
| "has_entry_mutex key (R5 k ks r) = (k = key)"
| "has_entry_mutex key (R6 k ks r) = (k = key)"
| "has_entry_mutex key (R7 k ks r) = (k = key)"
| "has_entry_mutex key _ = False"

abbreviation guards :: "nat option \<Rightarrow> (pc \<Rightarrow> bool) \<Rightarrow> mthread list \<Rightarrow> bool" where
  "guards m inside ts \<equiv> guarded m (\<lambda>t. inside (pc t)) ts"

definition mutex_inv :: "msystem \<Rightarrow> bool" where
  "mutex_inv s \<longleftrightarrow> guards (table_mutex s) has_table (mthreads s) \<and>
     guards (held_locks_mutex s) has_held (mthreads s) \<and>
     (\<forall>k. guards (entry_mutex s k) (has_entry_mutex k) (mthreads s))"

lemmas mutex_ops = lock_table_mutex_def lock_entry_mutex_def lock_held_mutex_def goto_def

lemma pc_step_moves:
  assumes "pc_step L X i tx ops p s = Some s'" and "i < length (mthreads s)"
  defines "p' \<equiv> pc (mthreads s' ! i)"
  shows "mthreads s' = (mthreads s)[i := (mthreads s ! i)\<lparr>pc := p'\<rparr>]"
    and "moves i (has_table p) (has_table p') (table_mutex s) (table_mutex s')"
    and "moves i (has_held p) (has_held p') (held_locks_mutex s) (held_locks_mutex s')"
    and "moves i (has_entry_mutex k p) (has_entry_mutex k p') (entry_mutex s k) (entry_mutex s' k)"
  using assms(1,2) unfolding p'_def atomize_conj
  by (cases "(L, X, i, tx, ops, p, s)" rule: pc_step.cases;
      auto simp: mutex_ops moves_def check_def split: if_splits option.splits prod.splits sum.splits)+

lemma mstep_moves:
  assumes "mstep L X i s = Some s'"
  shows "i < length (mthreads s)"
    and "pc_step L X i (mt_tx (mthreads s ! i)) (mt_prog (mthreads s ! i)) (pc (mthreads s ! i)) s = Some s'"
  using assms by (auto simp: mstep_def split: if_splits)

lemma mstep_length: "mstep L X i s = Some s' \<Longrightarrow> length (mthreads s') = length (mthreads s)"
  and mstep_tx: "mstep L X i s = Some s' \<Longrightarrow> mt_tx (mthreads s' ! i) = mt_tx (mthreads s ! i)"
  and mstep_txs: "mstep L X i s = Some s' \<Longrightarrow> mt_tx ` set (mthreads s') = mt_tx ` set (mthreads s)"
proof -
  assume "mstep L X i s = Some s'"
  note i = mstep_moves [OF this]
  obtain p where t: "mthreads s' = (mthreads s)[i := (mthreads s ! i)\<lparr>pc := p\<rparr>]"
    using pc_step_moves(1) [OF i(2,1)] by blast
  with i(1) show "length (mthreads s') = length (mthreads s)" "mt_tx (mthreads s' ! i) = mt_tx (mthreads s ! i)" by simp_all
  have "map mt_tx (mthreads s') = map mt_tx (mthreads s)" using t i(1) by (simp add: map_update list_update_same_conv)
  then show "mt_tx ` set (mthreads s') = mt_tx ` set (mthreads s)" by (metis list.set_map)
qed

lemma mstep_mutex_user:
  assumes "mstep L X i s = Some s'"
    and "\<And>p s'. pc_step L X i (mt_tx (mthreads s ! i)) (mt_prog (mthreads s ! i)) p s = Some s' \<Longrightarrow>
      i < length (mthreads s) \<Longrightarrow> moves i (inside p) (inside (pc (mthreads s' ! i))) (m s) (m s')"
  shows "i < length (mthreads s) \<and> length (mthreads s') = length (mthreads s) \<and>
    (\<forall>j < length (mthreads s). j \<noteq> i \<longrightarrow> inside (pc (mthreads s' ! j)) = inside (pc (mthreads s ! j))) \<and>
    moves i (inside (pc (mthreads s ! i))) (inside (pc (mthreads s' ! i))) (m s) (m s')"
proof -
  note i = mstep_moves [OF assms(1)]
  show ?thesis
    using i(1) pc_step_moves(1) [OF i(2,1)] assms(2) [OF i(2,1)] by (metis length_list_update nth_list_update_neq)
qed

interpretation table: mutex_user "mstep L X" mthreads table_mutex "\<lambda>t. has_table (pc t)" for L X
  by unfold_locales (rule mstep_mutex_user, assumption, rule pc_step_moves(2))

interpretation held: mutex_user "mstep L X" mthreads held_locks_mutex "\<lambda>t. has_held (pc t)" for L X
  by unfold_locales (rule mstep_mutex_user, assumption, rule pc_step_moves(3))

interpretation entry: mutex_user "mstep L X" mthreads "\<lambda>s. entry_mutex s k" "\<lambda>t. has_entry_mutex k (pc t)" for L X k
  by unfold_locales (rule mstep_mutex_user, assumption, rule pc_step_moves(4))

lemma mstep_mutex_inv: "mutex_inv s \<Longrightarrow> mstep L X i s = Some s' \<Longrightarrow> mutex_inv s'"
  unfolding mutex_inv_def using table.exclusive held.exclusive entry.exclusive by blast

lemma mreachable_mutex_inv: "mreachable L X s \<Longrightarrow> mutex_inv s"
proof (induction rule: mreachable.induct)
  case start
  show ?case by (simp add: mutex_inv_def init_msystem_def guarded_def)
next
  case (begin_txn s ks ops)
  then show ?case by (simp add: mutex_inv_def begin_mtxn_def guarded_append)
qed (rule mstep_mutex_inv)

section \<open>No deadlock\<close>

fun waits_table :: "pc \<Rightarrow> bool" where
  "waits_table (At (Locking (k # ks))) = True"
| "waits_table (At (Releasing (k # ks) r)) = True"
| "waits_table _ = False"

fun waits_entry :: "KeyType \<Rightarrow> pc \<Rightarrow> bool" where
  "waits_entry key (At (Entering k ks)) = (k = key)"
| "waits_entry key (At (Retrying n k ks)) = (k = key)"
| "waits_entry key (R2 k ks r) = (k = key)"
| "waits_entry key _ = False"

fun waits_held :: "pc \<Rightarrow> bool" where
  "waits_held (C1 k ks) = True"
| "waits_held (At (Finishing r)) = True"
| "waits_held (R4 k ks r) = True"
| "waits_held _ = False"

fun at_end :: "pc \<Rightarrow> bool" where
  "at_end (At (Ended r)) = True"
| "at_end _ = False"

lemma pc_step_waits:
  "pc_step L X i tx ops p s = None \<Longrightarrow> at_end p \<or> (waits_table p \<and> table_mutex s \<noteq> None) \<or>
     (\<exists>k. waits_entry k p \<and> entry_mutex s k \<noteq> None) \<or> (waits_held p \<and> held_locks_mutex s \<noteq> None)"
  by (cases "(L, X, i, tx, ops, p, s)" rule: pc_step.cases;
      auto simp: mutex_ops split: if_splits option.splits prod.splits sum.splits)

text \<open>Whoever waits for a mutex holds only mutexes that come before it in the order table, entry, held.\<close>

lemma lock_order:
  "has_held p \<Longrightarrow> \<not> at_end p \<and> \<not> waits_table p \<and> \<not> waits_entry k p \<and> \<not> waits_held p"
  "has_entry_mutex k' p \<Longrightarrow> \<not> at_end p \<and> \<not> waits_table p \<and> \<not> waits_entry k p"
  "has_table p \<Longrightarrow> \<not> at_end p \<and> \<not> waits_table p"
  by (cases p; simp)+

lemma mutex_invD:
  assumes "mutex_inv s"
  shows "guards (table_mutex s) has_table (mthreads s)" "guards (held_locks_mutex s) has_held (mthreads s)"
    "guards (entry_mutex s k) (has_entry_mutex k) (mthreads s)"
  using assms by (simp_all add: mutex_inv_def)

text \<open>
  Threads that wait for \<open>table_mutex\<close>, the mutex of an entry or \<open>held_locks_mutex\<close> never wait
  for each other in a circle.
\<close>

lemma some_thread_moves:
  assumes "mreachable L X s" and "i < length (mthreads s)" and "\<not> at_end (pc (mthreads s ! i))"
  shows "\<exists>j s'. mstep L X j s = Some s'"
proof (rule ccontr)
  assume stuck: "\<nexists>j s'. mstep L X j s = Some s'"
  have inv: "mutex_inv s" using assms(1) by (rule mreachable_mutex_inv)
  have blocked: "at_end (pc (mthreads s ! j)) \<or> (waits_table (pc (mthreads s ! j)) \<and> table_mutex s \<noteq> None) \<or>
      (\<exists>k. waits_entry k (pc (mthreads s ! j)) \<and> entry_mutex s k \<noteq> None) \<or>
      (waits_held (pc (mthreads s ! j)) \<and> held_locks_mutex s \<noteq> None)" if "j < length (mthreads s)" for j
    using stuck that pc_step_waits [of L X j] by (fastforce simp: mstep_def)
  have held: "held_locks_mutex s = None"
  proof (rule ccontr)
    assume "held_locks_mutex s \<noteq> None"
    then obtain j where "j < length (mthreads s)" "has_held (pc (mthreads s ! j))"
      using guardedE [OF mutex_invD(2) [OF inv]] by blast
    with blocked lock_order(1) show False by blast
  qed
  have entry: "entry_mutex s k = None" for k
  proof (rule ccontr)
    assume "entry_mutex s k \<noteq> None"
    then obtain j where "j < length (mthreads s)" "has_entry_mutex k (pc (mthreads s ! j))"
      using guardedE [OF mutex_invD(3) [OF inv]] by blast
    with blocked lock_order(2) held show False by blast
  qed
  have "table_mutex s = None"
  proof (rule ccontr)
    assume "table_mutex s \<noteq> None"
    then obtain j where j: "j < length (mthreads s)" "has_table (pc (mthreads s ! j))"
      using guardedE [OF mutex_invD(1) [OF inv]] by blast
    show False using blocked [OF j(1)] lock_order(3) [OF j(2)] held entry by simp
  qed
  then show False using blocked [OF assms(2)] assms(3) held entry by simp
qed

section \<open>Data races\<close>

text \<open>What the next step of a thread reads (\<open>False\<close>) or writes (\<open>True\<close>) of the lock manager.\<close>

datatype location = LockTable | EntryOwner KeyType | HeldLocks

fun accesses :: "LockManager \<Rightarrow> pc \<Rightarrow> (location \<times> bool) option" where
  "accesses lm (E1 k ks) = Some (LockTable, \<not> has_entry lm k)"
| "accesses lm (Find k ks) = Some (LockTable, False)"
| "accesses lm (C2 k ks) = Some (HeldLocks, True)"
| "accesses lm (First k ks) = Some (EntryOwner k, True)"
| "accesses lm (Again n k ks) = Some (EntryOwner k, True)"
| "accesses lm (F1 r) = Some (HeldLocks, True)"
| "accesses lm (R1 k ks r) = Some (LockTable, False)"
| "accesses lm (R3 k ks r) = Some (EntryOwner k, True)"
| "accesses lm (R5 k ks r) = Some (HeldLocks, True)"
| "accesses lm _ = None"

definition race :: "msystem \<Rightarrow> nat \<Rightarrow> nat \<Rightarrow> location \<Rightarrow> bool" where
  "race s i j l \<longleftrightarrow> i < length (mthreads s) \<and> j < length (mthreads s) \<and> i \<noteq> j \<and>
     (\<exists>w w'. accesses (lockman s) (pc (mthreads s ! i)) = Some (l, w) \<and>
        accesses (lockman s) (pc (mthreads s ! j)) = Some (l, w') \<and> (w \<or> w'))"

fun at_find :: "pc \<Rightarrow> bool" where
  "at_find (Find k ks) = True"
| "at_find _ = False"

lemma accesses_guarded:
  "accesses lm p = Some (LockTable, w) \<Longrightarrow> has_table p \<or> (at_find p \<and> \<not> w)"
  "accesses lm p = Some (EntryOwner k, w) \<Longrightarrow> has_entry_mutex k p"
  "accesses lm p = Some (HeldLocks, w) \<Longrightarrow> has_held p"
  by (cases p; simp)+

text \<open>
  C13 (which accesses are protected). No two threads access the owner of an entry or the
  map \<open>held_locks\<close> at the same time, and the only access to the lock table that can
  coincide with a change of it is the lookup of the entry in \<open>acquire\<close>, which stands
  after the section of \<open>table_mutex\<close>.
\<close>

theorem lock_manager_races:
  assumes "mreachable L X s" and "race s i j l"
  shows "l = LockTable \<and> (at_find (pc (mthreads s ! i)) \<or> at_find (pc (mthreads s ! j)))"
proof -
  have inv: "mutex_inv s" using assms(1) by (rule mreachable_mutex_inv)
  obtain w w' where ij: "i < length (mthreads s)" "j < length (mthreads s)" "i \<noteq> j"
      and a: "accesses (lockman s) (pc (mthreads s ! i)) = Some (l, w)"
        "accesses (lockman s) (pc (mthreads s ! j)) = Some (l, w')" "w \<or> w'"
    using assms(2) by (auto simp: race_def)
  have unique: "\<not> (inside (pc (mthreads s ! i)) \<and> inside (pc (mthreads s ! j)))"
    if "guards m inside (mthreads s)" for m inside
    using guarded_unique [OF that ij(1,2)] ij(3) by blast
  show ?thesis
  proof (cases l)
    case LockTable
    then show ?thesis
      using a accesses_guarded(1) unique [OF mutex_invD(1) [OF inv]] by blast
  next
    case (EntryOwner k)
    then show ?thesis using a(1,2) accesses_guarded(2) unique [OF mutex_invD(3) [OF inv]] by blast
  next
    case HeldLocks
    then show ?thesis using a(1,2) accesses_guarded(3) unique [OF mutex_invD(2) [OF inv]] by blast
  qed
qed

section \<open>Refinement of the atomic sections\<close>

text \<open>Keys whose entry a thread relies on; entries are never removed.\<close>

fun phase_key :: "phase \<Rightarrow> KeyType option" where
  "phase_key (Entering k ks) = Some k"
| "phase_key (Retrying n k ks) = Some k"
| "phase_key _ = None"

fun needs_entry :: "KeyType \<Rightarrow> pc \<Rightarrow> bool" where
  "needs_entry key (At p) = (phase_key p = Some key)"
| "needs_entry key (Find k ks) = (k = key)"
| "needs_entry key (E2 k ks) = (k = key)"
| "needs_entry key (C5 k p) = (k = key \<or> phase_key p = Some key)"
| "needs_entry key (R2 k ks r) = (k = key)"
| "needs_entry key p = has_entry_mutex key p"

definition entries_inv :: "msystem \<Rightarrow> bool" where
  "entries_inv s \<longleftrightarrow> (\<forall>i < length (mthreads s). \<forall>k. needs_entry k (pc (mthreads s ! i)) \<longrightarrow> has_entry (lockman s) k)"

lemma untrack_effects [simp]:
  "lock_table (untrack k tx lm) = lock_table lm" "has_entry (untrack k tx lm) j = has_entry lm j"
  "t \<noteq> tx \<Longrightarrow> held_locks (untrack k tx lm) t = held_locks lm t"
  by (simp_all add: untrack_def Let_def has_entry_def split: option.split)

lemma check_effects [simp]:
  "held_locks (fst (check n k ks tx lm)) = held_locks lm" "has_entry (fst (check n k ks tx lm)) j = has_entry lm j"
  by (simp_all add: check_def split: option.split)

lemma check_phase_key: "phase_key (snd (check n k ks tx lm)) = Some j \<Longrightarrow> j = k"
  by (auto simp: check_def split: if_splits option.splits)

lemma pc_step_entries:
  assumes "pc_step L X i tx ops p s = Some s'" and "i < length (mthreads s)"
    and "\<And>k. needs_entry k p \<Longrightarrow> has_entry (lockman s) k"
  shows "has_entry (lockman s) k \<Longrightarrow> has_entry (lockman s') k"
    and "needs_entry k (pc (mthreads s' ! i)) \<Longrightarrow> has_entry (lockman s') k"
  using assms
  by (cases "(L, X, i, tx, ops, p, s)" rule: pc_step.cases;
      auto simp: mutex_ops case_prod_beta dest!: check_phase_key split: if_splits option.splits sum.splits prod.splits)+

lemma mreachable_entries_inv: "mreachable L X s \<Longrightarrow> entries_inv s"
proof (induction rule: mreachable.induct)
  case start
  show ?case by (simp add: entries_inv_def init_msystem_def)
next
  case (begin_txn s ks ops)
  then show ?case by (auto simp: entries_inv_def begin_mtxn_def nth_append less_Suc_eq)
next
  case (run s i s')
  note i = mstep_moves [OF run.hyps(2)]
  have "\<And>k. needs_entry k (pc (mthreads s ! i)) \<Longrightarrow> has_entry (lockman s) k"
    using run.IH i(1) by (simp add: entries_inv_def)
  note keep = pc_step_entries [OF i(2,1) this]
  obtain t where t: "mthreads s' = (mthreads s)[i := t]" using pc_step_moves(1) [OF i(2,1)] by blast
  show ?case
    unfolding entries_inv_def
  proof (intro allI impI)
    fix j k
    assume j: "j < length (mthreads s')" "needs_entry k (pc (mthreads s' ! j))"
    show "has_entry (lockman s') k"
    proof (cases "j = i")
      case True
      with j keep(2) show ?thesis by simp
    next
      case False
      with j keep(1) run.IH show ?thesis by (auto simp: entries_inv_def t)
    qed
  qed
qed

text \<open>
  The part of its section that a thread has begun and not finished: the first check
  after the key is tracked, and the erasure after the owner is reset. With it, the thread
  is at the end of its section.
\<close>

fun early :: "TransactionId \<Rightarrow> pc \<Rightarrow> LockManager \<Rightarrow> LockManager" where
  "early tx (C3 k ks) lm = fst (check 0 k ks tx lm)"
| "early tx (First k ks) lm = fst (check 0 k ks tx lm)"
| "early tx (R4 k ks r) lm = untrack k tx lm"
| "early tx (R5 k ks r) lm = untrack k tx lm"
| "early tx _ lm = lm"

fun abs_phase :: "LockManager \<Rightarrow> TransactionId \<Rightarrow> pc \<Rightarrow> phase" where
  "abs_phase lm tx (At p) = p"
| "abs_phase lm tx (E1 k ks) = Locking (k # ks)"
| "abs_phase lm tx (E2 k ks) = Entering k ks"
| "abs_phase lm tx (Find k ks) = Entering k ks"
| "abs_phase lm tx (C1 k ks) = Entering k ks"
| "abs_phase lm tx (C2 k ks) = Entering k ks"
| "abs_phase lm tx (C3 k ks) = snd (check 0 k ks tx lm)"
| "abs_phase lm tx (First k ks) = snd (check 0 k ks tx lm)"
| "abs_phase lm tx (Again n k ks) = Retrying n k ks"
| "abs_phase lm tx (C5 k p) = p"
| "abs_phase lm tx (F1 r) = Finishing r"
| "abs_phase lm tx (F2 ks r) = Releasing ks r"
| "abs_phase lm tx (R1 k ks r) = Releasing (k # ks) r"
| "abs_phase lm tx (R2 k ks r) = Releasing (k # ks) r"
| "abs_phase lm tx (R3 k ks r) = Releasing (k # ks) r"
| "abs_phase lm tx (R4 k ks r) = Releasing ks r"
| "abs_phase lm tx (R5 k ks r) = Releasing ks r"
| "abs_phase lm tx (R6 k ks r) = Releasing ks r"
| "abs_phase lm tx (R7 k ks r) = Releasing ks r"
| "abs_phase lm tx (R8 k ks r) = Releasing ks r"

definition abs_thread :: "LockManager \<Rightarrow> mthread \<Rightarrow> thread" where
  "abs_thread lm t = \<lparr>tx_of = mt_tx t, prog = mt_prog t, phase = abs_phase lm (mt_tx t) (pc t)\<rparr>"

text \<open>The entry of a key is the one the thread that has locked its mutex will leave.\<close>

definition abs_entry :: "msystem \<Rightarrow> KeyType \<Rightarrow> LockEntry option" where
  "abs_entry s k =
     (case entry_mutex s k of
        None \<Rightarrow> lock_table (lockman s) k
      | Some i \<Rightarrow> lock_table (early (mt_tx (mthreads s ! i)) (pc (mthreads s ! i)) (lockman s)) k)"

definition lm_sim :: "msystem \<Rightarrow> LockManager \<Rightarrow> bool" where
  "lm_sim s lm \<longleftrightarrow> (\<forall>k. lock_table lm k = abs_entry s k) \<and>
     (\<forall>t \<in> set (mthreads s). held_locks lm (mt_tx t) = held_locks (early (mt_tx t) (pc t) (lockman s)) (mt_tx t)) \<and>
     (\<forall>u. u \<notin> mt_tx ` set (mthreads s) \<longrightarrow> held_locks lm u = held_locks (lockman s) u)"

definition sim :: "msystem \<Rightarrow> system \<Rightarrow> bool" where
  "sim s a \<longleftrightarrow> lm_sim s (fst (shared a)) \<and> snd (shared a) = kv s \<and> counter a = mcounter s \<and>
     threads a = map (abs_thread (lockman s)) (mthreads s) \<and> history a = mhistory s"

lemma check_cong:
  assumes "lock_table lm' k = lock_table lm k"
  shows "snd (check n k ks tx lm') = snd (check n k ks tx lm)"
    and "lock_table (fst (check n k ks tx lm')) k = lock_table (fst (check n k ks tx lm)) k"
  using assms by (simp_all add: check_def owner_of_def set_owner_def split: option.split)

lemma check_other: "j \<noteq> k \<Longrightarrow> lock_table (fst (check n k ks tx lm)) j = lock_table lm j"
  by (simp add: check_def set_owner_def split: option.split)

lemma untrack_cong:
  "held_locks lm' tx = held_locks lm tx \<Longrightarrow> held_locks (untrack k tx lm') tx = held_locks (untrack k tx lm) tx"
  by (simp add: untrack_def Let_def split: option.split)

text \<open>Other threads do not disturb the section of a thread.\<close>

lemma early_frame:
  assumes "\<And>k. has_entry_mutex k p \<Longrightarrow> lock_table lm' k = lock_table lm k" and "held_locks lm' tx = held_locks lm tx"
  shows "abs_phase lm' tx p = abs_phase lm tx p"
    and "has_entry_mutex k p \<Longrightarrow> lock_table (early tx p lm') k = lock_table (early tx p lm) k"
    and "held_locks (early tx p lm') tx = held_locks (early tx p lm) tx"
  using assms check_cong [of lm' _ lm] untrack_cong [of lm' tx lm] by (cases p; simp)+

text \<open>What a step changes of the data.\<close>

lemma pc_step_data:
  assumes "pc_step L X i tx ops p s = Some s'"
  shows "lock_table (lockman s') k \<noteq> lock_table (lockman s) k \<Longrightarrow> has_entry_mutex k p \<or> \<not> has_entry (lockman s) k"
    and "u \<noteq> tx \<Longrightarrow> held_locks (lockman s') u = held_locks (lockman s) u"
  using assms
  by (cases "(L, X, i, tx, ops, p, s)" rule: pc_step.cases;
      auto simp: mutex_ops case_prod_beta ensure_entry_def track_def set_owner_def check_other
        split: if_splits option.splits sum.splits prod.splits)+

text \<open>The steps at which a section takes effect; the others are not visible outside.\<close>

fun visible :: "LockManager \<Rightarrow> pc \<Rightarrow> bool" where
  "visible lm (At (Locking [])) = True"
| "visible lm (E1 k ks) = True"
| "visible lm (C2 k ks) = True"
| "visible lm (Again n k ks) = True"
| "visible lm (At (Executing d todo rs)) = True"
| "visible lm (F1 r) = True"
| "visible lm (R1 k ks r) = (\<not> has_entry lm k)"
| "visible lm (R3 k ks r) = True"
| "visible lm (At (Releasing [] r)) = True"
| "visible lm _ = False"

lemma invisible_step:
  assumes "pc_step L X i tx ops p s = Some s'" and "i < length (mthreads s)" and "\<not> visible (lockman s) p"
    and "\<And>k. needs_entry k p \<Longrightarrow> has_entry (lockman s) k"
  defines "p' \<equiv> pc (mthreads s' ! i)"
  shows "abs_phase (lockman s') tx p' = abs_phase (lockman s) tx p"
    and "lock_table (early tx p' (lockman s')) = lock_table (early tx p (lockman s))"
    and "held_locks (early tx p' (lockman s')) tx = held_locks (early tx p (lockman s)) tx"
    and "\<not> has_entry_mutex k p \<Longrightarrow> lock_table (lockman s') k = lock_table (lockman s) k"
    and "kv s' = kv s" "mhistory s' = mhistory s" "mcounter s' = mcounter s"
  using assms(1-4) unfolding p'_def
  by (cases "(L, X, i, tx, ops, p, s)" rule: pc_step.cases;
      auto simp: mutex_ops case_prod_beta check_other split: if_splits)+

fun effect :: "TransactionId \<Rightarrow> pc \<Rightarrow> LockManager \<Rightarrow> LockManager" where
  "effect tx (E1 k ks) lm = ensure_entry k lm"
| "effect tx (C2 k ks) lm = fst (check 0 k ks tx (track k tx lm))"
| "effect tx (Again n k ks) lm = fst (check n k ks tx lm)"
| "effect tx (F1 r) lm = lm\<lparr>held_locks := (held_locks lm)(tx := None)\<rparr>"
| "effect tx (R1 k ks r) lm = release k tx lm"
| "effect tx (R3 k ks r) lm = release k tx lm"
| "effect tx _ lm = lm"

lemma release_sections:
  "release k tx lm = (if owner_of lm k = Some tx then untrack k tx (set_owner k None lm) else lm)"
  by (simp add: release_def untrack_def owner_of_def set_owner_def Let_def split: option.split)

text \<open>
  A visible step is the step of the atomic section, on any lock manager that agrees with
  the real one on the thread's own locks, on the entry whose mutex it has, and on missing
  entries.
\<close>

definition agree :: "LockManager \<Rightarrow> TransactionId \<Rightarrow> pc \<Rightarrow> LockManager \<Rightarrow> bool" where
  "agree lm tx p la \<longleftrightarrow> (\<forall>k. has_entry_mutex k p \<longrightarrow> lock_table la k = lock_table lm k) \<and>
     (\<forall>k. has_entry la k = has_entry lm k) \<and> held_locks la tx = held_locks lm tx"

lemma owner_cong: "lock_table la k = lock_table lm k \<Longrightarrow> owner_of la k = owner_of lm k"
  by (simp add: owner_of_def)

lemma track_entry: "lock_table (track k tx lm) j = lock_table lm j"
  by (simp add: track_def)

lemma agree_owner:
  assumes "agree lm tx p la" and "has_entry_mutex k p"
  shows "lock_table la k = lock_table lm k" "owner_of la k = owner_of lm k"
  using assms owner_cong [of la k lm] by (auto simp: agree_def)

lemmas abs_step = goto_def abs_thread_def thread_step.simps commit_entry_def

lemma visible_step:
  assumes step: "pc_step L X i (mt_tx t) (mt_prog t) (pc t) s = Some s'" and i: "i < length (mthreads s)" "t = mthreads s ! i"
    and vis: "visible (lockman s) (pc t)" and ag: "agree (lockman s) (mt_tx t) (pc t) la"
  shows "thread_step L X (la, kv s) (abs_thread (lockman s) t) =
      Some ((effect (mt_tx t) (pc t) la, kv s'), abs_thread (lockman s') (mthreads s' ! i)) \<and>
    mhistory s' = mhistory s @ commit_entry i (abs_thread (lockman s) t) \<and> mcounter s' = mcounter s"
proof (cases "pc t")
  case (At p)
  show ?thesis
  proof (cases p)
    case (Locking ks)
    with At step i vis show ?thesis
      by (cases ks) (auto simp: abs_step)
  next
    case (Executing d todo rs)
    with At step i show ?thesis
      by (cases todo) (auto simp: abs_step split: prod.splits sum.splits)
  next
    case (Releasing ks r)
    with At step i vis show ?thesis
      by (cases ks) (auto simp: abs_step)
  qed (use At vis in simp_all)
next
  case (E1 k ks)
  with step i show ?thesis by (auto simp: abs_step)
next
  case (C2 k ks)
  then have "lock_table (track k (mt_tx t) la) k = lock_table (track k (mt_tx t) (lockman s)) k"
    using agree_owner(1) [OF ag, of k] by (simp add: track_entry)
  from check_cong(1) [OF this, of 0 ks "mt_tx t"] C2 step i show ?thesis
    by (auto simp: abs_step case_prod_beta)
next
  case (Again n k ks)
  from check_cong(1) [OF agree_owner(1) [OF ag, of k], of n ks "mt_tx t"] Again step i show ?thesis
    by (auto simp: abs_step case_prod_beta)
next
  case (F1 r)
  then have "held_locks la (mt_tx t) = held_locks (lockman s) (mt_tx t)" using ag by (simp add: agree_def)
  moreover have "la\<lparr>held_locks := (held_locks la)(mt_tx t := None)\<rparr> = la" if "held_locks la (mt_tx t) = None"
    using that by (cases la) (auto simp: fun_upd_idem)
  ultimately show ?thesis
    using F1 step i
    by (auto simp: abs_step split: option.splits)
next
  case (R1 k ks r)
  with step i vis show ?thesis
    by (auto simp: abs_step)
next
  case (R3 k ks r)
  with step i show ?thesis
    by (auto simp: abs_step split: if_splits)
qed (use vis in simp_all)

text \<open>The atomic effect is what the thread has done so far and what it will still do.\<close>

lemma ensure_entry_table:
  "lock_table (ensure_entry k lm) j = (if j = k \<and> \<not> has_entry lm k then Some \<lparr>owner = None\<rparr> else lock_table lm j)"
  by (simp add: ensure_entry_def)

lemma set_owner_table: "lock_table (set_owner k x lm) j = (if j = k then map_option (\<lambda>e. e\<lparr>owner := x\<rparr>) (lock_table lm k) else lock_table lm j)"
  by (simp add: set_owner_def split: option.split)

lemma track_held:
  "held_locks la tx = held_locks lm tx \<Longrightarrow> held_locks (track k tx la) tx = held_locks (track k tx lm) tx"
  "u \<noteq> tx \<Longrightarrow> held_locks (track k tx la) u = held_locks la u"
  by (simp_all add: track_def)

lemma set_owner_held: "held_locks (set_owner k x lm) = held_locks lm"
  by (simp add: set_owner_def split: option.split)

lemma visible_data:
  assumes step: "pc_step L X i tx ops p s = Some s'" and i: "i < length (mthreads s)" and vis: "visible (lockman s) p"
    and ag: "agree (lockman s) tx p la"
  defines "p' \<equiv> pc (mthreads s' ! i)"
  shows "(has_entry_mutex k p \<or> has_entry_mutex k p' \<longrightarrow> lock_table (effect tx p la) k = lock_table (early tx p' (lockman s')) k) \<and>
    (\<not> has_entry_mutex k p \<longrightarrow> \<not> has_entry_mutex k p' \<longrightarrow>
      lock_table (effect tx p la) k = lock_table la k \<and> lock_table (lockman s') k = lock_table (lockman s) k \<or>
      \<not> has_entry (lockman s) k \<and> lock_table (effect tx p la) k = lock_table (lockman s') k) \<and>
    held_locks (effect tx p la) tx = held_locks (early tx p' (lockman s')) tx \<and>
    (u \<noteq> tx \<longrightarrow> held_locks (effect tx p la) u = held_locks la u)"
proof -
  have held: "held_locks la tx = held_locks (lockman s) tx" using ag by (simp add: agree_def)
  show ?thesis
  proof (cases p)
    case (At q)
    with step i vis held show ?thesis
      by (cases q; cases "(L, X, i, tx, ops, p, s)" rule: pc_step.cases)
        (auto simp: p'_def goto_def split: prod.splits sum.splits)
  next
    case (E1 j ks)
    have "has_entry la j = has_entry (lockman s) j" using ag by (simp add: agree_def)
    with E1 step i held show ?thesis by (auto simp: p'_def goto_def ensure_entry_table)
  next
    case (C2 j ks)
    have "lock_table (track j tx la) j = lock_table (track j tx (lockman s)) j"
      using agree_owner(1) [OF ag, of j] C2 by (simp add: track_entry)
    from check_cong(2) [OF this] C2 step i track_held(1) [OF held] show ?thesis
      by (auto simp: p'_def goto_def track_entry check_other track_held(2))
  next
    case (Again n j ks)
    from check_cong(2) [OF agree_owner(1) [OF ag, of j]] Again step i held show ?thesis
      by (auto simp: p'_def goto_def check_other case_prod_beta)
  next
    case (F1 r)
    with step i held show ?thesis by (auto simp: p'_def goto_def split: option.splits)
  next
    case (R1 j ks r)
    then have "\<not> has_entry la j" using ag vis by (simp add: agree_def)
    then have "release j tx la = la" by (intro release_not_owner) (auto dest: owner_of_entry)
    with R1 step i held vis show ?thesis by (auto simp: p'_def goto_def)
  next
    case (R3 j ks r)
    note own = agree_owner [OF ag, of j]
    have "held_locks (untrack j tx (set_owner j None la)) tx = held_locks (untrack j tx (set_owner j None (lockman s))) tx"
      by (rule untrack_cong) (simp add: set_owner_held held)
    with R3 step i held own show ?thesis
      by (auto simp: p'_def goto_def release_sections set_owner_table set_owner_held split: if_splits)
  qed (use vis in simp_all)
qed

text \<open>The lock manager of the atomic machine after a step of thread \<open>i\<close>.\<close>

lemma lm_simD:
  assumes "lm_sim s la" and "mutex_inv s" and "entries_inv s" and "i < length (mthreads s)"
  defines "tx \<equiv> mt_tx (mthreads s ! i)" and "p \<equiv> pc (mthreads s ! i)"
  shows "has_entry_mutex k p \<Longrightarrow> lock_table la k = lock_table (early tx p (lockman s)) k"
    and "entry_mutex s k = None \<Longrightarrow> lock_table la k = lock_table (lockman s) k"
    and "held_locks la tx = held_locks (early tx p (lockman s)) tx"
    and "has_entry la k = has_entry (lockman s) k"
proof -
  have mutex: "entry_mutex s k = Some j \<longleftrightarrow> j < length (mthreads s) \<and> has_entry_mutex k (pc (mthreads s ! j))" for j
    using mutex_invD(3) [OF assms(2), of k] unfolding guarded_def by blast
  show "lock_table la k = lock_table (early tx p (lockman s)) k" if "has_entry_mutex k p"
  proof -
    have "entry_mutex s k = Some i" using mutex [of i] that assms(4) by (simp add: p_def)
    with assms(1) show ?thesis by (simp add: lm_sim_def abs_entry_def tx_def p_def)
  qed
  show "lock_table la k = lock_table (lockman s) k" if "entry_mutex s k = None"
    using that assms(1) by (simp add: lm_sim_def abs_entry_def)
  show "held_locks la tx = held_locks (early tx p (lockman s)) tx"
    using assms(1,4) by (simp add: lm_sim_def tx_def p_def)
  have e: "lock_table (early u q lm) k = None \<longleftrightarrow> lock_table lm k = None" for u q lm
    by (cases q) (simp_all add: check_def set_owner_table split: option.split)
  have "lock_table la k = None \<longleftrightarrow> lock_table (lockman s) k = None"
    using assms(1) by (auto simp: lm_sim_def abs_entry_def e split: option.split)
  then show "has_entry la k = has_entry (lockman s) k" 
    by (cases "lock_table la k"; cases "lock_table (lockman s) k") (simp_all add: has_entry_def)
qed

lemma early_other: "\<not> has_entry_mutex k p \<Longrightarrow> lock_table (early tx p lm) k = lock_table lm k"
  by (cases p) (auto simp: check_other)

lemma has_mutex_needs: "has_entry_mutex k p \<Longrightarrow> needs_entry k p"
  by (cases p) auto

text \<open>A step of thread \<open>i\<close> leaves the sections of the others as they are.\<close>

lemma others_frame:
  assumes step: "mstep L X i s = Some s'" and inv: "mutex_inv s" "entries_inv s"
    and dist: "distinct (map mt_tx (mthreads s))" and j: "j < length (mthreads s)" "j \<noteq> i"
  defines "t \<equiv> mthreads s ! j"
  shows "mthreads s' ! j = t"
    and "abs_phase (lockman s') (mt_tx t) (pc t) = abs_phase (lockman s) (mt_tx t) (pc t)"
    and "has_entry_mutex k (pc t) \<Longrightarrow>
      lock_table (early (mt_tx t) (pc t) (lockman s')) k = lock_table (early (mt_tx t) (pc t) (lockman s)) k"
    and "held_locks (early (mt_tx t) (pc t) (lockman s')) (mt_tx t) = held_locks (early (mt_tx t) (pc t) (lockman s)) (mt_tx t)"
proof -
  note i = mstep_moves [OF step]
  have "lock_table (lockman s') k = lock_table (lockman s) k" if "has_entry_mutex k (pc t)" for k
  proof -
    have "has_entry (lockman s) k" using inv(2) j has_mutex_needs [OF that] by (simp add: entries_inv_def t_def)
    moreover have "\<not> has_entry_mutex k (pc (mthreads s ! i))"
      using guarded_unique [OF mutex_invD(3) [OF inv(1)] i(1) j(1), of k] that j(2) by (auto simp: t_def)
    ultimately show ?thesis using pc_step_data(1) [OF i(2)] by blast
  qed
  moreover have "mt_tx t \<noteq> mt_tx (mthreads s ! i)"
    using dist i(1) j by (simp add: t_def distinct_conv_nth)
  then have "held_locks (lockman s') (mt_tx t) = held_locks (lockman s) (mt_tx t)" using pc_step_data(2) [OF i(2)] by blast
  ultimately show "abs_phase (lockman s') (mt_tx t) (pc t) = abs_phase (lockman s) (mt_tx t) (pc t)"
    "has_entry_mutex k (pc t) \<Longrightarrow>
      lock_table (early (mt_tx t) (pc t) (lockman s')) k = lock_table (early (mt_tx t) (pc t) (lockman s)) k"
    "held_locks (early (mt_tx t) (pc t) (lockman s')) (mt_tx t) = held_locks (early (mt_tx t) (pc t) (lockman s)) (mt_tx t)"
    using early_frame [of "pc t" "lockman s'" "lockman s" "mt_tx t"] by blast+
  show "mthreads s' ! j = t" using pc_step_moves(1) [OF i(2,1)] j by (metis nth_list_update_neq t_def)
qed

lemma abs_entry_step:
  assumes sim: "lm_sim s la" and step: "mstep L X i s = Some s'" and inv: "mutex_inv s" "entries_inv s"
    and dist: "distinct (map mt_tx (mthreads s))"
  defines "tx \<equiv> mt_tx (mthreads s ! i)" and "p \<equiv> pc (mthreads s ! i)" and "p' \<equiv> pc (mthreads s' ! i)"
  assumes own: "has_entry_mutex k p \<or> has_entry_mutex k p' \<Longrightarrow> lock_table la' k = lock_table (early tx p' (lockman s')) k"
    and free: "\<not> has_entry_mutex k p \<Longrightarrow> \<not> has_entry_mutex k p' \<Longrightarrow>
      lock_table la' k = lock_table la k \<and> lock_table (lockman s') k = lock_table (lockman s) k \<or>
      \<not> has_entry (lockman s) k \<and> lock_table la' k = lock_table (lockman s') k"
  shows "lock_table la' k = abs_entry s' k"
proof -
  note i = mstep_moves [OF step]
  note mv = pc_step_moves [OF i(2,1)]
  consider (has) "has_entry_mutex k p'" | (drops) "has_entry_mutex k p" "\<not> has_entry_mutex k p'"
    | (not) "\<not> has_entry_mutex k p" "\<not> has_entry_mutex k p'" by blast
  then show ?thesis
  proof cases
    case has
    then have "entry_mutex s' k = Some i"
      using mutex_invD(3) [OF mstep_mutex_inv [OF inv(1) step], of k] i(1) mstep_length [OF step]
      unfolding guarded_def p'_def by metis
    with own has mstep_tx [OF step] show ?thesis by (simp add: abs_entry_def p'_def tx_def)
  next
    case drops
    with mv(4) [of k] have "entry_mutex s' k = None" by (auto simp: moves_def p_def p'_def)
    with own drops early_other [OF drops(2)] show ?thesis by (simp add: abs_entry_def)
  next
    case not
    with mv(4) [of k] have m: "entry_mutex s' k = entry_mutex s k" by (simp add: moves_def p_def p'_def)
    show ?thesis
    proof (cases "entry_mutex s k")
      case None
      with sim have "lock_table la k = lock_table (lockman s) k" by (simp add: lm_sim_def abs_entry_def)
      with free not None m show ?thesis by (auto simp: abs_entry_def)
    next
      case (Some j)
      then have j: "j < length (mthreads s)" "has_entry_mutex k (pc (mthreads s ! j))"
        using mutex_invD(3) [OF inv(1), of k] unfolding guarded_def by blast+
      with not have "j \<noteq> i" by (auto simp: p_def)
      have "has_entry (lockman s) k" using inv(2) j has_mutex_needs by (simp add: entries_inv_def)
      with free not have "lock_table la' k = lock_table la k" by blast
      with sim Some others_frame(1,3) [OF step inv dist j(1) \<open>j \<noteq> i\<close>] j(2) m
      show ?thesis by (simp add: lm_sim_def abs_entry_def)
    qed
  qed
qed

lemma lm_sim_step:
  assumes sim: "lm_sim s la" and step: "mstep L X i s = Some s'" and inv: "mutex_inv s" "entries_inv s"
    and dist: "distinct (map mt_tx (mthreads s))"
  defines "tx \<equiv> mt_tx (mthreads s ! i)" and "p \<equiv> pc (mthreads s ! i)" and "p' \<equiv> pc (mthreads s' ! i)"
  assumes own: "\<And>k. has_entry_mutex k p \<or> has_entry_mutex k p' \<Longrightarrow> lock_table la' k = lock_table (early tx p' (lockman s')) k"
    and free: "\<And>k. \<not> has_entry_mutex k p \<Longrightarrow> \<not> has_entry_mutex k p' \<Longrightarrow>
      lock_table la' k = lock_table la k \<and> lock_table (lockman s') k = lock_table (lockman s) k \<or>
      \<not> has_entry (lockman s) k \<and> lock_table la' k = lock_table (lockman s') k"
    and held: "held_locks la' tx = held_locks (early tx p' (lockman s')) tx"
    and rest: "\<And>u. u \<noteq> tx \<Longrightarrow> held_locks la' u = held_locks la u"
  shows "lm_sim s' la'"
proof -
  note i = mstep_moves [OF step]
  have "lock_table la' k = abs_entry s' k" for k
    using own [of k] free [of k] unfolding tx_def p_def p'_def by (rule abs_entry_step [OF sim step inv dist])
  moreover have "held_locks la' (mt_tx t) = held_locks (early (mt_tx t) (pc t) (lockman s')) (mt_tx t)"
    if t: "t \<in> set (mthreads s')" for t
  proof -
    obtain j where j: "t = mthreads s' ! j" "j < length (mthreads s)"
      using t mstep_length [OF step] by (metis in_set_conv_nth)
    show ?thesis
    proof (cases "j = i")
      case True
      with held mstep_tx [OF step] j show ?thesis by (simp add: p'_def tx_def)
    next
      case False
      have "mt_tx (mthreads s ! j) \<noteq> tx" using dist i(1) j(2) False by (simp add: tx_def distinct_conv_nth)
      with rest others_frame(1,4) [OF step inv dist j(2) False] j sim show ?thesis by (simp add: lm_sim_def)
    qed
  qed
  moreover have "held_locks la' u = held_locks (lockman s') u" if "u \<notin> mt_tx ` set (mthreads s')" for u
  proof -
    have "u \<notin> mt_tx ` set (mthreads s)" using that mstep_txs [OF step] by simp
    moreover have "u \<noteq> tx" using calculation i(1) by (auto simp: tx_def)
    ultimately show ?thesis using rest pc_step_data(2) [OF i(2)] sim by (simp add: lm_sim_def tx_def)
  qed
  ultimately show ?thesis by (simp add: lm_sim_def)
qed

lemma sim_distinct:
  assumes "std_ok L" "executor_ok L X" "reachable L X a" "sim s a" "length (mthreads s) \<le> 2 ^ 64"
  shows "distinct (map mt_tx (mthreads s))"
proof -
  have "locks_inv a" using reachable_sys_inv [OF assms(1-3)] assms(4,5) by (simp add: sim_def sys_inv_def)
  from locks_inv_names [OF this] assms(4,5) show ?thesis by (simp add: sim_def abs_thread_def comp_def)
qed

lemma sim_init: "sim init_msystem init_system"
  by (simp add: sim_def lm_sim_def abs_entry_def init_msystem_def init_system_def)

lemma sim_begin:
  assumes "sim s a" and "mutex_inv s" and "mcounter s \<notin> mt_tx ` set (mthreads s)"
  shows "sim (begin_mtxn ops ks s) (a\<lparr>counter := counter a + 1,
    threads := threads a @ [\<lparr>tx_of = counter a, prog = ops, phase = Locking ks\<rparr>]\<rparr>)"
proof -
  have "abs_entry (begin_mtxn ops ks s) k = abs_entry s k" for k
  proof (cases "entry_mutex s k")
    case (Some j)
    then have "j < length (mthreads s)" using mutex_invD(3) [OF assms(2), of k] unfolding guarded_def by blast
    with Some show ?thesis by (simp add: abs_entry_def begin_mtxn_def nth_append)
  qed (simp add: abs_entry_def begin_mtxn_def)
  with assms(1,3) show ?thesis by (simp add: sim_def lm_sim_def begin_mtxn_def abs_thread_def)
qed

text \<open>An invisible step is no step of the atomic machine, a visible one is the step of the thread.\<close>

lemma abs_threads_step:
  assumes step: "mstep L X i s = Some s'" and inv: "mutex_inv s" "entries_inv s"
    and dist: "distinct (map mt_tx (mthreads s))"
  shows "map (abs_thread (lockman s')) (mthreads s') =
      (map (abs_thread (lockman s)) (mthreads s))[i := abs_thread (lockman s') (mthreads s' ! i)]"
proof (rule nth_equalityI)
  fix j
  assume "j < length (map (abs_thread (lockman s')) (mthreads s'))"
  then have j: "j < length (mthreads s)" using mstep_length [OF step] by simp
  with mstep_length [OF step] others_frame(1,2) [OF step inv dist j]
  show "map (abs_thread (lockman s')) (mthreads s') ! j =
      (map (abs_thread (lockman s)) (mthreads s))[i := abs_thread (lockman s') (mthreads s' ! i)] ! j"
    by (cases "j = i") (simp_all add: abs_thread_def)
qed (simp add: mstep_length [OF step])

lemma sim_invisible:
  assumes sim: "sim s a" and step: "mstep L X i s = Some s'" and inv: "mutex_inv s" "entries_inv s"
    and dist: "distinct (map mt_tx (mthreads s))" and invis: "\<not> visible (lockman s) (pc (mthreads s ! i))"
  shows "sim s' a"
proof -
  note i = mstep_moves [OF step]
  have lm: "lm_sim s (fst (shared a))" using sim by (simp add: sim_def)
  note la = lm_simD [OF lm inv i(1)]
  have "\<And>k. needs_entry k (pc (mthreads s ! i)) \<Longrightarrow> has_entry (lockman s) k"
    using inv(2) i(1) by (simp add: entries_inv_def)
  note same = invisible_step [OF i(2,1) invis this]
  have "abs_thread (lockman s') (mthreads s' ! i) = abs_thread (lockman s) (mthreads s ! i)"
    by (subst (1) pc_step_moves(1) [OF i(2,1)]) (use i(1) same(1) in \<open>simp add: abs_thread_def\<close>)
  moreover have "lm_sim s' (fst (shared a))"
  proof (rule lm_sim_step [OF lm step inv dist])
    fix k
    assume k: "has_entry_mutex k (pc (mthreads s ! i)) \<or> has_entry_mutex k (pc (mthreads s' ! i))"
    have "entry_mutex s k = None" if "\<not> has_entry_mutex k (pc (mthreads s ! i))"
      using pc_step_moves(4) [OF i(2,1), of k] k that by (auto simp: moves_def)
    then show "lock_table (fst (shared a)) k =
        lock_table (early (mt_tx (mthreads s ! i)) (pc (mthreads s' ! i)) (lockman s')) k"
      using la(1,2) [of k] early_other [of k] same(2) by metis
  qed (use la(3) same(3,4) in simp_all)
  ultimately show ?thesis
    using sim abs_threads_step [OF step inv dist] same(5-) i(1)
    by (simp add: sim_def map_update [symmetric] del: map_update)
qed

lemma sim_visible:
  assumes sim: "sim s a" and step: "mstep L X i s = Some s'" and inv: "mutex_inv s" "entries_inv s"
    and dist: "distinct (map mt_tx (mthreads s))" and vis: "visible (lockman s) (pc (mthreads s ! i))"
  shows "\<exists>a'. sys_step L X a a' \<and> sim s' a'"
proof -
  note i = mstep_moves [OF step]
  define t where "t = mthreads s ! i"
  have lm: "lm_sim s (fst (shared a))" using sim by (simp add: sim_def)
  have "early (mt_tx t) (pc t) lm' = lm'" for lm' using vis by (cases "pc t") (simp_all add: t_def)
  then have ag: "agree (lockman s) (mt_tx t) (pc t) (fst (shared a))"
    using lm_simD [OF lm inv i(1)] by (simp add: agree_def t_def)
  note vs = visible_step [OF i(2) [folded t_def] i(1) t_def vis [folded t_def] ag]
  note vd = visible_data [OF i(2) [folded t_def] i(1) vis [folded t_def] ag]
  define a' where "a' = a\<lparr>shared := (effect (mt_tx t) (pc t) (fst (shared a)), kv s'),
    threads := (threads a)[i := abs_thread (lockman s') (mthreads s' ! i)],
    history := history a @ commit_entry i (threads a ! i)\<rparr>"
  have a: "shared a = (fst (shared a), kv s)" "threads a ! i = abs_thread (lockman s) t" "i < length (threads a)"
    using sim i(1) by (simp_all add: sim_def t_def prod_eq_iff)
  have "sys_step L X a a'" unfolding a'_def using vs a by (intro sys_step.run_thread) auto
  moreover have "lm_sim s' (effect (mt_tx t) (pc t) (fst (shared a)))"
    unfolding t_def by (rule lm_sim_step [OF lm step inv dist]) (use vd [unfolded t_def] in blast)+
  then have "sim s' a'" using sim abs_threads_step [OF step inv dist] vs a by (simp add: sim_def a'_def)
  ultimately show ?thesis by blast
qed

theorem mreachable_sim:
  assumes "std_ok L" "executor_ok L X"
  shows "mreachable L X s \<Longrightarrow> length (mthreads s) \<le> 2 ^ 64 \<Longrightarrow> \<exists>a. reachable L X a \<and> sim s a"
proof (induction rule: mreachable.induct)
  case start
  show ?case using sim_init reachable.start by blast
next
  case (begin_txn s ks ops)
  then obtain a where a: "reachable L X a" "sim s a" by (auto simp: begin_mtxn_def)
  let ?a = "a\<lparr>counter := counter a + 1, threads := threads a @ [\<lparr>tx_of = counter a, prog = ops, phase = Locking ks\<rparr>]\<rparr>"
  have r: "reachable L X ?a" using begin_txn.hyps a by (intro reachable.step [OF a(1)] sys_step.begin_txn)
  have "length (threads ?a) \<le> 2 ^ 64" using begin_txn.prems a(2) by (simp add: sim_def begin_mtxn_def)
  then have "distinct (map tx_of (threads ?a))"
    using reachable_sys_inv [OF assms r] by (intro locks_inv_names) (simp_all add: sys_inv_def)
  then have "mcounter s \<notin> mt_tx ` set (mthreads s)" using a(2) by (force simp: sim_def abs_thread_def image_image)
  then have "sim (begin_mtxn ops ks s) ?a" by (rule sim_begin [OF a(2) mreachable_mutex_inv [OF begin_txn.hyps(1)]])
  with r show ?case by blast
next
  case (run s i s')
  then have len: "length (mthreads s) \<le> 2 ^ 64" using mstep_length by metis
  with run.IH obtain a where a: "reachable L X a" "sim s a" by blast
  note at = a(2) run.hyps(2) mreachable_mutex_inv [OF run.hyps(1)] mreachable_entries_inv [OF run.hyps(1)]
    sim_distinct [OF assms a len]
  show ?case
    using sim_invisible [OF at] sim_visible [OF at] a(1) reachable.step by blast
qed

section \<open>Serializability\<close>

fun in_execution :: "pc \<Rightarrow> bool" where
  "in_execution (At p) = executing p"
| "in_execution (C5 k p) = executing p"
| "in_execution _ = False"

lemma abs_executing: "executing (abs_phase lm tx p) = in_execution p"
  by (cases p) (auto simp: check_def executing_def split: option.split)

text \<open>
  C5 (the sections are atomic to the outside). At the granularity of the mutexes the
  transactions on one node are still serializable: every interleaving of the steps of the
  lock manager's operations corresponds to one of the whole sections. The history is
  serial, a transaction that is over and committed is in it with its results,
  \<open>lock_table.at(key)\<close> never throws, and the store is the one of the serial run whenever
  nobody is executing.
\<close>

theorem mutex_level_serializable:
  assumes "std_ok L" "executor_ok L X" "mreachable L X s" "length (mthreads s) \<le> 2 ^ 64"
  shows "serial Map.empty (mhistory s) \<and> distinct (map fst (mhistory s)) \<and>
    (\<forall>i < length (mthreads s). \<forall>r. pc (mthreads s ! i) = At (Ended r) \<longrightarrow>
       r = Aborted \<or> (\<exists>rs. r = Committed rs \<and> (i, mt_prog (mthreads s ! i), rs) \<in> set (mhistory s))) \<and>
    ((\<forall>t \<in> set (mthreads s). \<not> in_execution (pc t)) \<longrightarrow> kv_get L (kv s) = serial_state Map.empty (mhistory s))"
proof -
  obtain a where a: "reachable L X a" "sim s a" using mreachable_sim [OF assms] by blast
  have eq: "threads a = map (abs_thread (lockman s)) (mthreads s)" "history a = mhistory s" "snd (shared a) = kv s"
    using a(2) by (simp_all add: sim_def)
  have inv: "sys_inv L a" using reachable_sys_inv [OF assms(1,2) a(1)] assms(4) by (simp add: eq)
  then have "serial Map.empty (mhistory s)" "distinct (map fst (mhistory s))" and hist: "history_inv (history a) (threads a)"
      and data: "data_inv (serial_state Map.empty (history a)) (kv_get L (snd (shared a))) (threads a)"
    by (simp_all add: sys_inv_def history_inv_def eq)
  moreover have "r = Aborted \<or> (\<exists>rs. r = Committed rs \<and> (i, mt_prog (mthreads s ! i), rs) \<in> set (mhistory s))"
    if "i < length (mthreads s)" "pc (mthreads s ! i) = At (Ended r)" for i r
  proof -
    have "result_of (threads a ! i) = Some r" "prog (threads a ! i) = mt_prog (mthreads s ! i)" "i < length (threads a)"
      using that by (simp_all add: eq abs_thread_def result_of_def)
    with hist show ?thesis by (cases r) (auto simp: history_inv_def eq)
  qed
  moreover have "kv_get L (kv s) = serial_state Map.empty (mhistory s)"
    if "\<forall>t \<in> set (mthreads s). \<not> in_execution (pc t)"
  proof
    fix k
    have "\<not> executing (phase t)" if "t \<in> set (threads a)" for t
      using \<open>\<forall>t \<in> set (mthreads s). \<not> in_execution (pc t)\<close> that by (auto simp: eq abs_thread_def abs_executing)
    then have "kv_get L (snd (shared a)) k = serial_state Map.empty (history a) k"
      by (intro data_inv_free [OF data] not_executing(1)) simp
    then show "kv_get L (kv s) k = serial_state Map.empty (mhistory s) k" by (simp add: eq)
  qed
  ultimately show ?thesis by blast
qed

section \<open>Examples\<close>

datatype mevent = MBegin "Operation list" "KeyType list" | MRun nat

fun run_mevent :: "stdlib \<Rightarrow> executor_api \<Rightarrow> mevent \<Rightarrow> msystem \<Rightarrow> msystem option" where
  "run_mevent L X (MBegin ops ks) s =
     (if set ks = op_keys ops \<and> distinct ks then Some (begin_mtxn ops ks s) else None)"
| "run_mevent L X (MRun i) s = mstep L X i s"

fun run_mevents :: "stdlib \<Rightarrow> executor_api \<Rightarrow> mevent list \<Rightarrow> msystem \<Rightarrow> msystem option" where
  "run_mevents L X [] s = Some s"
| "run_mevents L X (e # es) s = (case run_mevent L X e s of None \<Rightarrow> None | Some s' \<Rightarrow> run_mevents L X es s')"

lemma run_mevents_mreachable: "run_mevents L X es s = Some s' \<Longrightarrow> mreachable L X s \<Longrightarrow> mreachable L X s'"
proof (induction es arbitrary: s)
  case (Cons e es)
  then obtain s1 where s1: "run_mevent L X e s = Some s1" "run_mevents L X es s1 = Some s'"
    by (auto split: option.splits)
  have "mreachable L X s1"
    using s1(1) Cons.prems(2) by (cases e) (auto intro: mreachable.intros split: if_splits)
  with Cons.IH s1(2) show ?case by blast
qed simp

lemma run_mevents_the:
  "\<not> Option.is_none (run_mevents L X es s) \<Longrightarrow> mreachable L X s \<Longrightarrow> mreachable L X (the (run_mevents L X es s))"
  using run_mevents_mreachable run_the by blast

text \<open>
  One transaction has unlocked \<open>table_mutex\<close> and is about to look its entry up, when another
  one, which has locked the mutex, is about to insert an entry.
\<close>

definition racing :: msystem where
  "racing = the (run_mevents std_ref (executor_ref std_ref)
     [MBegin [AppendOp 5 1] [5], MBegin [ReadOp 6] [6], MRun 0, MRun 0, MRun 0, MRun 1] init_msystem)"

lemma racing_mreachable: "mreachable std_ref (executor_ref std_ref) racing"
  unfolding racing_def by (rule run_mevents_the [OF _ mreachable.start]) code_simp

lemma racing_facts:
  "length (mthreads racing) = 2" "pc (mthreads racing ! 0) = Find 5 []" "pc (mthreads racing ! 1) = E1 6 []"
  "has_entry (lockman racing) 6 = False"
  by code_simp+

lemma racing_race: "race racing 0 1 LockTable"
  using racing_facts by (auto simp: race_def)

text \<open>
  The first transaction has committed and, with \<open>table_mutex\<close> locked, waits for the entry of
  the key it releases, which the second one has locked to check the owner again.
\<close>

definition waiting :: msystem where
  "waiting = the (run_mevents std_ref (executor_ref std_ref)
     (MBegin [AppendOp 5 1] [5] # MBegin [ReadOp 5] [5] # replicate 13 (MRun 0) @ replicate 11 (MRun 1) @ replicate 5 (MRun 0))
     init_msystem)"

lemma waiting_mreachable: "mreachable std_ref (executor_ref std_ref) waiting"
  unfolding waiting_def by (rule run_mevents_the [OF _ mreachable.start]) code_simp

lemma waiting_facts:
  "length (mthreads waiting) = 2" "map pc (mthreads waiting) = [R2 5 [] (Committed []), Again 1 5 []]"
  "mhistory waiting = [(0, [AppendOp 5 1], [])]"
  by code_simp+

section \<open>Witnesses\<close>

theorem lock_manager_races_witness:
  "mreachable std_ref (executor_ref std_ref) racing \<and> race racing 0 1 LockTable \<and> at_find (pc (mthreads racing ! 0))"
  using lock_manager_races [OF racing_mreachable racing_race] racing_mreachable racing_race by (simp add: racing_facts)

theorem mutex_level_serializable_witness:
  "serial Map.empty (mhistory waiting) \<and> kv_get std_ref (kv waiting) 5 = Some [1]"
proof -
  have "map (in_execution \<circ> pc) (mthreads waiting) = [False, False]"
    using arg_cong [OF waiting_facts(2), of "map in_execution"] by simp
  then have "\<forall>t \<in> set (mthreads waiting). \<not> in_execution (pc t)"
    using arg_cong [of _ _ set] by fastforce
  with mutex_level_serializable [OF std_ref_ok executor_ref_ok waiting_mreachable] waiting_facts(1)
  show ?thesis by (simp add: waiting_facts(3) run_ops.simps)
qed

end
