(* ===== verification/Mutex_Progress.thy ===== *)
theory Mutex_Progress
  imports Mutexes Thread_Runs
begin

text \<open>
  The transactions of \<open>Mutexes\<close> come to an end: every step of a thread, at the granularity
  of single locks and unlocks of mutexes, brings its transaction closer to its end, and
  some thread can always take a step.
\<close>

text \<open>
  How many steps a thread can still take at most: 9 for every key to release, 3 for every
  one of the 1500 checks of a key, and those between.
\<close>

abbreviation release_steps :: "'a list \<Rightarrow> nat" where
  "release_steps ks \<equiv> 9 * length ks + 1"

abbreviation locking_steps :: "LockManager \<Rightarrow> TransactionId \<Rightarrow> Operation list \<Rightarrow> KeyType list \<Rightarrow> nat" where
  "locking_steps lm tx ops ks \<equiv> 9 * held_count lm tx + length ops + 6 + 4522 * length ks"

fun phase_steps :: "LockManager \<Rightarrow> TransactionId \<Rightarrow> Operation list \<Rightarrow> phase \<Rightarrow> nat" where
  "phase_steps lm tx ops (Locking ks) = locking_steps lm tx ops ks"
| "phase_steps lm tx ops (Entering k ks) = locking_steps lm tx ops ks + 4518"
| "phase_steps lm tx ops (Retrying n k ks) = locking_steps lm tx ops ks + 3 * (1501 - n) + 3"
| "phase_steps lm tx ops (Executing d todo rs) = 9 * held_count lm tx + length todo + 5"
| "phase_steps lm tx ops (Finishing r) = 9 * held_count lm tx + 4"
| "phase_steps lm tx ops (Releasing ks r) = release_steps ks"
| "phase_steps lm tx ops (Ended r) = 0"

fun msteps :: "LockManager \<Rightarrow> TransactionId \<Rightarrow> Operation list \<Rightarrow> pc \<Rightarrow> nat" where
  "msteps lm tx ops (At p) = phase_steps lm tx ops p"
| "msteps lm tx ops (E1 k ks) = locking_steps lm tx ops ks + 4521"
| "msteps lm tx ops (E2 k ks) = locking_steps lm tx ops ks + 4520"
| "msteps lm tx ops (Find k ks) = locking_steps lm tx ops ks + 4519"
| "msteps lm tx ops (C1 k ks) = locking_steps lm tx ops ks + 4517"
| "msteps lm tx ops (C2 k ks) = locking_steps lm tx ops ks + 4516"
| "msteps lm tx ops (C3 k ks) = locking_steps lm tx ops ks + 4506"
| "msteps lm tx ops (First k ks) = locking_steps lm tx ops ks + 4505"
| "msteps lm tx ops (Again n k ks) = locking_steps lm tx ops ks + 3 * (1501 - n) + 2"
| "msteps lm tx ops (C5 k p) = phase_steps lm tx ops p + 1"
| "msteps lm tx ops (F1 r) = 9 * held_count lm tx + 3"
| "msteps lm tx ops (F2 ks r) = release_steps ks + 1"
| "msteps lm tx ops (R1 k ks r) = release_steps ks + 8"
| "msteps lm tx ops (R2 k ks r) = release_steps ks + 7"
| "msteps lm tx ops (R3 k ks r) = release_steps ks + 6"
| "msteps lm tx ops (R4 k ks r) = release_steps ks + 5"
| "msteps lm tx ops (R5 k ks r) = release_steps ks + 4"
| "msteps lm tx ops (R6 k ks r) = release_steps ks + 3"
| "msteps lm tx ops (R7 k ks r) = release_steps ks + 2"
| "msteps lm tx ops (R8 k ks r) = release_steps ks + 1"

lemma msteps_check:
  "phase_steps lm' tx ops ((snd (check n k ks tx lm))) \<le>
     9 * held_count lm' tx + length ops + 6 + 4522 * length ks + (if n < 1500 then 3 * (1501 - n) else 0)"
  by (auto simp: check_def MAX_SPINS_def MAX_YIELDS_def split: option.split)

lemma held_count_check [simp]: "held_count (fst (check n k ks tx lm)) = held_count lm"
  by (simp add: held_count_def fun_eq_iff)

lemma msteps_other: "held_locks lm' tx = held_locks lm tx \<Longrightarrow> msteps lm' tx ops p = msteps lm tx ops p"
proof -
  assume "held_locks lm' tx = held_locks lm tx"
  then have h: "held_count lm' tx = held_count lm tx" by (simp add: held_count_def)
  have at: "phase_steps lm' tx ops q = phase_steps lm tx ops q" for q by (cases q) (simp_all add: h)
  show ?thesis by (cases p) (simp_all add: h at)
qed

lemma pc_step_msteps:
  assumes "std_ok L" and "pc_step L X i tx ops p s = Some s'" and "i < length (mthreads s)"
  shows "msteps (lockman s') tx ops (pc (mthreads s' ! i)) < msteps (lockman s) tx ops p"
proof -
  note c = msteps_check [where tx = tx and ops = ops] and t = held_count_track [of _ tx "lockman s"]
  show ?thesis
  proof (cases p)
    case (First k ks)
    with assms c [of "fst (check 0 k ks tx (lockman s))" 0 k ks "lockman s"] show ?thesis
      by (auto simp: mutex_ops case_prod_beta)
  next
    case (Again n k ks)
    with assms c [of "fst (check n k ks tx (lockman s))" n k ks "lockman s"] show ?thesis
      by (auto simp: mutex_ops case_prod_beta split: if_splits)
  next
    case (C2 k ks)
    with assms t [of k] show ?thesis by (auto simp: mutex_ops)
  qed (use assms in \<open>cases "(L, X, i, tx, ops, p, s)" rule: pc_step.cases;
      auto simp: mutex_ops held_count_def split: if_splits option.splits sum.splits prod.splits\<close>)+
qed

definition msteps_all :: "msystem \<Rightarrow> nat" where
  "msteps_all s = (\<Sum>t \<leftarrow> mthreads s. msteps (lockman s) (mt_tx t) (mt_prog t) (pc t))"

lemma mstep_msteps:
  assumes "std_ok L" and "mstep L X i s = Some s'" and "distinct (map mt_tx (mthreads s))"
  shows "msteps_all s' < msteps_all s"
proof -
  note i = mstep_moves [OF assms(2)]
  let ?m = "\<lambda>s t. msteps (lockman s) (mt_tx t) (mt_prog t) (pc t)"
  obtain p where t: "mthreads s' = (mthreads s)[i := (mthreads s ! i)\<lparr>pc := p\<rparr>]"
    using pc_step_moves(1) [OF i(2,1)] by blast
  have own: "?m s' (mthreads s' ! i) < ?m s (mthreads s ! i)"
    using pc_step_msteps [OF assms(1) i(2,1)] t i(1) by simp
  have others: "?m s' (mthreads s' ! j) = ?m s (mthreads s ! j)" if "j < length (mthreads s)" "j \<noteq> i" for j
  proof -
    have "mt_tx (mthreads s ! j) \<noteq> mt_tx (mthreads s ! i)" using assms(3) i(1) that by (simp add: distinct_conv_nth)
    then have "held_locks (lockman s') (mt_tx (mthreads s ! j)) = held_locks (lockman s) (mt_tx (mthreads s ! j))"
      using pc_step_data(2) [OF i(2)] by blast
    moreover have "mthreads s' ! j = mthreads s ! j" using t that by simp
    ultimately show ?thesis using msteps_other by metis
  qed
  show ?thesis
    unfolding msteps_all_def by (subst t, rule sum_list_update_less [OF i(1)]) (use own others t i(1) in auto)
qed

text \<open>The steps of a schedule, named by their threads.\<close>

fun run_threads :: "stdlib \<Rightarrow> executor_api \<Rightarrow> nat list \<Rightarrow> msystem \<Rightarrow> msystem option" where
  "run_threads L X [] s = Some s"
| "run_threads L X (i # is) s = (case mstep L X i s of None \<Rightarrow> None | Some s' \<Rightarrow> run_threads L X is s')"

lemma mreachable_distinct:
  assumes "std_ok L" "executor_ok L X" "mreachable L X s" "length (mthreads s) \<le> 2 ^ 64"
  shows "distinct (map mt_tx (mthreads s))"
  using mreachable_sim [OF assms] sim_distinct [OF assms(1,2) _ _ assms(4)] by blast

lemma run_threads_bound:
  assumes "std_ok L" "executor_ok L X"
  shows "run_threads L X is s = Some s' \<Longrightarrow> mreachable L X s \<Longrightarrow> length (mthreads s) \<le> 2 ^ 64 \<Longrightarrow>
    length is + msteps_all s' \<le> msteps_all s \<and> mreachable L X s' \<and> length (mthreads s') = length (mthreads s)"
proof (induction "is" arbitrary: s)
  case (Cons i "is")
  then obtain s1 where s1: "mstep L X i s = Some s1" "run_threads L X is s1 = Some s'" by (auto split: option.splits)
  have "msteps_all s1 < msteps_all s"
    by (rule mstep_msteps [OF assms(1) s1(1) mreachable_distinct [OF assms Cons.prems(2,3)]])
  with Cons.IH [OF s1(2) mreachable.run [OF Cons.prems(2) s1(1)]] Cons.prems(3) mstep_length [OF s1(1)] show ?case by simp
qed simp

text \<open>
  C12 (all transactions come to an end). Whatever the schedule, the threads that have begun
  take only a bounded number of steps, and when none of them can take another one, all
  their transactions are over: they neither deadlock on the mutexes of the lock manager
  nor wait for a lock for ever.
\<close>

theorem mutex_level_completes:
  assumes "std_ok L" "executor_ok L X" "mreachable L X s" "length (mthreads s) \<le> 2 ^ 64"
    and "run_threads L X is s = Some s'"
  shows "length is \<le> msteps_all s \<and>
    ((\<forall>j. mstep L X j s' = None) \<longrightarrow> (\<forall>t \<in> set (mthreads s'). \<exists>r. pc t = At (Ended r)))"
proof -
  note run = run_threads_bound [OF assms(1,2,5,3,4)]
  have "\<exists>r. pc t = At (Ended r)" if stuck: "\<forall>j. mstep L X j s' = None" and t: "t \<in> set (mthreads s')" for t
  proof -
    obtain i where "i < length (mthreads s')" "t = mthreads s' ! i" using t by (metis in_set_conv_nth)
    then have "at_end (pc t)" using some_thread_moves [of L X s' i] run stuck by auto
    then show ?thesis by (cases "pc t" rule: at_end.cases) auto
  qed
  with run show ?thesis by simp
qed

text \<open>Both transactions of \<open>waiting\<close> run to their ends.\<close>

definition waiting_rest :: "nat list" where
  "waiting_rest = [1, 1] @ replicate 8 0 @ replicate 19 1"

definition finished :: msystem where
  "finished = the (run_threads std_ref (executor_ref std_ref) waiting_rest waiting)"

lemma finished_run: "run_threads std_ref (executor_ref std_ref) waiting_rest waiting = Some finished"
  unfolding finished_def by (rule run_the) code_simp

lemma finished_facts:
  "length (mthreads finished) = 2" "mstep std_ref (executor_ref std_ref) 0 finished = None"
  "mstep std_ref (executor_ref std_ref) 1 finished = None"
  by code_simp+

theorem mutex_level_completes_witness:
  "29 \<le> msteps_all waiting \<and> list_all (\<lambda>t. at_end (pc t)) (mthreads finished)"
proof -
  have "mstep std_ref (executor_ref std_ref) j finished = None" for j
  proof (cases "j < 2")
    case True
    then have "j = 0 \<or> j = 1" by auto
    then show ?thesis using finished_facts(2,3) by auto
  next
    case False
    then show ?thesis using finished_facts(1) by (simp add: mstep_def)
  qed
  moreover have "length waiting_rest = 29" by (simp add: waiting_rest_def)
  ultimately show ?thesis
    using mutex_level_completes [OF std_ref_ok executor_ref_ok waiting_mreachable _ finished_run] waiting_facts(1)
    by (fastforce simp: list_all_iff)
qed

end
