(* ===== verification/Cluster.thy ===== *)
theory Cluster
  imports Distributed
begin

text \<open>
  Several nodes that exchange the messages of the lock and operation protocol. The
  network keeps the messages on their way; any of them may be delivered next, and it is
  handed to \<open>handle_peer_message\<close> of its receiver, whose own messages enter the network.
  The repository has no code between \<open>TransactionServer\<close> and that dispatcher, so the way
  of a message is a parameter \<open>W\<close>: what the receiver gets of the object that was sent.
  Messages may be lost.
\<close>

section \<open>Nodes and network\<close>

record cluster =
  nodes :: "NodeID \<Rightarrow> TwoPLScheduler"
  network :: "(NodeID \<times> NodeID \<times> jobject) list"

inductive deliver :: "(json \<Rightarrow> json) \<Rightarrow> boost_json \<Rightarrow> (NodeID \<Rightarrow> server_api) \<Rightarrow> executor_api \<Rightarrow>
    cluster \<Rightarrow> cluster \<Rightarrow> bool" for W J S X where
  deliver:
    "network c = xs @ (from, dst, msg) # ys \<Longrightarrow> W (JObject msg) = JObject msg' \<Longrightarrow>
     handle_peer_message J (S dst) X env from msg' (nodes c dst) = (r, s') \<Longrightarrow>
     sent s' = sent (nodes c dst) @ new \<Longrightarrow> mset arrived \<subseteq># mset new \<Longrightarrow>
     deliver W J S X c (c\<lparr>nodes := (nodes c)(dst := s'),
       network := xs @ ys @ map (\<lambda>(peer, m). (dst, peer, m)) arrived\<rparr>)"

inductive_cases deliverE [elim?]: "deliver W J S X c c'"

section \<open>What the handlers send\<close>

text \<open>The type a message is dispatched on, and the types that are answered.\<close>

definition msg_kind :: "jobject \<Rightarrow> string option" where
  "msg_kind msg = (case map_of msg ''type'' of Some (JString t) \<Rightarrow> Some (c_str t) | _ \<Rightarrow> None)"

definition is_request :: "jobject \<Rightarrow> bool" where
  "is_request msg \<longleftrightarrow> msg_kind msg \<in> {Some MT_LOCK_REQUEST, Some MT_OP_REQUEST, Some MT_TXN_PREPARE}"

definition one_answer :: "NodeID \<Rightarrow> TwoPLScheduler \<Rightarrow> TwoPLScheduler \<Rightarrow> bool" where
  "one_answer peer s s' \<longleftrightarrow> sent s' = sent s \<or>
     (\<exists>m ty. sent s' = sent s @ [(peer, m)] \<and> map_of m ''type'' = Some (JString ty) \<and>
        ty \<in> {MT_LOCK_GRANTED, MT_LOCK_DENIED, MT_OP_RESPONSE, MT_TXN_COMMIT})"

lemma one_answerI:
  "sent s' = sent s \<Longrightarrow> one_answer peer s s'"
  "sent s' = sent s @ [(peer, m)] \<Longrightarrow> map_of m ''type'' = Some (JString ty) \<Longrightarrow>
   ty \<in> {MT_LOCK_GRANTED, MT_LOCK_DENIED, MT_OP_RESPONSE, MT_TXN_COMMIT} \<Longrightarrow> one_answer peer s s'"
  by (auto simp: one_answer_def)

lemma sent_log_error [simp]: "sent (log_error e s) = sent s"
  by (simp add: log_error_def)

lemma lock_request_sent:
  assumes "boost_ok J"
  shows "one_answer peer s (handle_lock_request J S env peer msg s)"
  using assms
  by (auto simp: handle_lock_request_def Let_def send_catch one_answer_def split: sum.splits prod.splits)

lemma run_remote_op_sent: "sent (snd (run_remote_op X op s)) = sent s"
  by (simp add: run_remote_op_def split: prod.split sum.split)

lemma operation_request_sent:
  assumes "boost_ok J"
  shows "one_answer peer s (handle_operation_request J S X peer msg s)"
proof (cases "tx_op_key J msg")
  case (Inr p)
  obtain tx kind k where p: "p = (tx, kind, k)" by (cases p) auto
  have answer: "one_answer peer s (case send S peer (op_response J tx k v) s1 of (Inl e, s2) \<Rightarrow> log_error e s2 | (Inr _, s2) \<Rightarrow> s2)"
    if "sent s1 = sent s" for s1 v
    using that by (intro one_answerI(2) [OF _ op_response_members(1) [OF assms]]) (simp_all add: send_catch)
  show ?thesis
  proof (cases "request_op J msg kind k")
    case req: (Inr op)
    show ?thesis
    proof (cases op)
      case None
      with Inr p req answer show ?thesis by (simp add: handle_operation_request_def one_answerI(1))
    next
      case (Some op')
      obtain r s1 where r: "run_remote_op X op' s = (r, s1)" by force
      then have "sent s1 = sent s" using run_remote_op_sent [of X op' s] by simp
      with Some Inr p req r answer show ?thesis
        by (cases r) (simp_all add: handle_operation_request_def one_answerI(1))
    qed
  qed (use Inr p in \<open>simp add: handle_operation_request_def one_answerI(1)\<close>)
qed (simp add: handle_operation_request_def one_answerI(1))

lemma prepare_request_sent:
  assumes "boost_ok J"
  shows "one_answer peer s (snd (handle_prepare_request J S peer msg s))"
  using assms by (auto simp: handle_prepare_request_def Let_def send_state one_answer_def split: sum.split)

lemma others_sent:
  "sent (handle_lock_response J peer msg s) = sent s"
  "sent (handle_lock_release J peer msg s) = sent s"
  "sent (handle_operation_response J peer msg s) = sent s"
  by (auto simp: handle_lock_response_def same_address_def handle_lock_release_def handle_operation_response_def
      split: sum.split prod.split)

lemma peer_message_sent:
  assumes "boost_ok J"
  shows "one_answer peer s (snd (handle_peer_message J S X env peer msg s))"
    and "\<not> is_request msg \<Longrightarrow> sent (snd (handle_peer_message J S X env peer msg s)) = sent s"
proof -
  let ?h = "snd (handle_peer_message J S X env peer msg s)"
  note sent_lemmas = lock_request_sent [OF assms] operation_request_sent [OF assms] prepare_request_sent [OF assms]
  show "one_answer peer s ?h"
    using assms sent_lemmas
    by (auto simp: handle_peer_message_def Let_def others_sent handle_commit_request_def handle_abort_request_def
        intro: one_answerI(1) split: option.split json.split)
  show "sent ?h = sent s" if "\<not> is_request msg"
    using that assms
    by (auto simp: handle_peer_message_def Let_def others_sent handle_commit_request_def handle_abort_request_def
        is_request_def msg_kind_def split: option.splits json.splits if_splits)
qed


section \<open>The exchange of messages ends\<close>

text \<open>
  A transport hands over objects member by member and keeps strings; both a transport
  in memory and one over the wire do.
\<close>

definition transport_ok :: "(json \<Rightarrow> json) \<Rightarrow> bool" where
  "transport_ok W \<longleftrightarrow> (\<forall>s. W (JString s) = JString s) \<and>
     (\<forall>ob. \<exists>ob'. W (JObject ob) = JObject ob' \<and> (\<forall>k. map_of ob' k = map_option W (map_of ob k)))"

lemma transport_wire [simp]: "wire_ok W \<Longrightarrow> transport_ok W"
  unfolding wire_ok_def transport_ok_def by blast

lemma transport_memory [simp]: "transport_ok (\<lambda>v. v)"
proof -
  have "\<exists>ob'. JObject ob = JObject ob' \<and> (\<forall>k. map_of ob' k = map_option (\<lambda>v. v) (map_of ob k))" for ob
    by (rule exI [of _ ob]) (simp add: option.map_ident)
  then show ?thesis unfolding transport_ok_def by (intro conjI allI refl)
qed

lemma transport_object:
  assumes "transport_ok W" and "W (JObject ob) = JObject ob'"
  shows "map_of ob' k = map_option W (map_of ob k)"
  using assms unfolding transport_ok_def by (metis json.inject(7))

text \<open>Two deliveries for a request, one for any other message.\<close>

definition weight :: "(json \<Rightarrow> json) \<Rightarrow> NodeID \<times> NodeID \<times> jobject \<Rightarrow> nat" where
  "weight W = (\<lambda>(from, dst, msg). case W (JObject msg) of JObject msg' \<Rightarrow> if is_request msg' then 2 else 1 | _ \<Rightarrow> 1)"

definition load :: "(json \<Rightarrow> json) \<Rightarrow> cluster \<Rightarrow> nat" where
  "load W c = (\<Sum>m \<leftarrow> network c. weight W m)"

lemma weight_bounds: "1 \<le> weight W m" "weight W m \<le> 2"
  by (auto simp: weight_def split: json.split prod.split)

lemma load_bounds: "length (network c) \<le> load W c" "load W c \<le> 2 * length (network c)"
proof -
  have "length ms \<le> (\<Sum>m \<leftarrow> ms. weight W m) \<and> (\<Sum>m \<leftarrow> ms. weight W m) \<le> 2 * length ms" for ms
    using weight_bounds by (induction ms) (auto simp: add_mono intro: order_trans add_le_mono)
  then show "length (network c) \<le> load W c" "load W c \<le> 2 * length (network c)" by (simp_all add: load_def)
qed

lemma weight_answer:
  assumes "transport_ok W" and "map_of m ''type'' = Some (JString ty)"
    and "ty \<in> {MT_LOCK_GRANTED, MT_LOCK_DENIED, MT_OP_RESPONSE, MT_TXN_COMMIT}"
  shows "weight W (a, b, m) = 1"
proof -
  obtain m' where m': "W (JObject m) = JObject m'" using assms(1) unfolding transport_ok_def by blast
  have "map_of m' ''type'' = Some (JString ty)"
    using transport_object [OF assms(1) m', of "''type''"] assms(1,2) by (simp add: transport_ok_def)
  then have "\<not> is_request m'"
    using assms(3) by (auto simp: is_request_def msg_kind_def MT_defs c_str_def)
  with m' show ?thesis by (simp add: weight_def)
qed

lemma deliver_load:
  assumes "boost_ok J" and "transport_ok W" and "deliver W J S X c c'"
  shows "load W c' < load W c"
  using assms(3)
proof (cases rule: deliver.cases)
  case (deliver xs frm dst msg ys msg' env r s' new arrived)
  have s': "s' = snd (handle_peer_message J (S dst) X env frm msg' (nodes c dst))" using deliver by simp
  have one: "one_answer frm (nodes c dst) s'" unfolding s' by (rule peer_message_sent(1) [OF assms(1)])
  have "(\<Sum>m \<leftarrow> map (\<lambda>(peer, m). (dst, peer, m)) arrived. weight W m) < weight W (frm, dst, msg)"
  proof (cases "new = []")
    case True
    then have "arrived = []" using deliver(6) by simp
    then show ?thesis using weight_bounds(1) [of W "(frm, dst, msg)"] by simp
  next
    case False
    then obtain m ty where m: "new = [(frm, m)]" "map_of m ''type'' = Some (JString ty)"
        "ty \<in> {MT_LOCK_GRANTED, MT_LOCK_DENIED, MT_OP_RESPONSE, MT_TXN_COMMIT}"
      using one deliver(5) by (auto simp: one_answer_def)
    have "is_request msg'"
      using peer_message_sent(2) [OF assms(1), of msg' "S dst" X env frm "nodes c dst"] s' deliver(5) False by auto
    then have two: "weight W (frm, dst, msg) = 2" using deliver(3) by (simp add: weight_def)
    have "arrived = [] \<or> arrived = [(frm, m)]"
      using deliver(6) m(1) by (cases arrived) (auto simp: add_mset_subseteq_single_iff)
    then show ?thesis using two weight_answer [OF assms(2) m(2,3)] by auto
  qed
  with deliver(1,2) show ?thesis by (simp add: load_def)
qed


text \<open>
  C32 (the exchange of messages ends). In a cluster of any size, whatever objects are on
  the network, in whatever order they are delivered and whatever the nodes hold: after
  \<open>n\<close> deliveries at most twice the initial number of messages less \<open>n\<close> are left. A
  request is answered by at most one message, and no answer is answered again.
\<close>

theorem exchange_terminates:
  assumes "boost_ok J" and "transport_ok W" and "(deliver W J S X ^^ n) c c'"
  shows "n + length (network c') \<le> 2 * length (network c)"
proof -
  have "n + load W c' \<le> load W c"
    using assms(3)
  proof (induction n arbitrary: c')
    case (Suc n)
    then obtain c1 where c1: "(deliver W J S X ^^ n) c c1" "deliver W J S X c1 c'" by auto
    then show ?case using Suc.IH [OF c1(1)] deliver_load [OF assms(1,2) c1(2)] by simp
  qed simp
  then show ?thesis using load_bounds(1) [of c' W] load_bounds(2) [of W c] by simp
qed

definition demo_cluster :: cluster where
  "demo_cluster = \<lparr>nodes = (\<lambda>_. sched0), network = [(1, 2, lock_message boost_ref MT_LOCK_REQUEST 9 5)]\<rparr>"

lemma demo_delivery:
  "\<exists>c'. deliver (\<lambda>v. v) boost_ref (\<lambda>_. server_up) (executor_ref std_ref) demo_cluster c' \<and> network c' \<noteq> []"
proof -
  obtain r lm where a: "acquire quiet 5 9 (lock_manager sched0) = (r, lm)" by force
  let ?ty = "if r = ACQUIRED then MT_LOCK_GRANTED else MT_LOCK_DENIED"
  obtain es where e: "handle_lock_request boost_ref server_up quiet 1 (lock_message boost_ref MT_LOCK_REQUEST 9 5) sched0 =
      sched0\<lparr>lock_manager := lm, sent := sent sched0 @ [(1, lock_message boost_ref ?ty 9 5)], logged := logged sched0 @ es\<rparr>"
    using lock_request_effect [OF boost_ref_ok a] by blast
  let ?s = "sched0\<lparr>lock_manager := lm, sent := sent sched0 @ [(1, lock_message boost_ref ?ty 9 5)], logged := logged sched0 @ es\<rparr>"
  let ?c = "demo_cluster\<lparr>nodes := (nodes demo_cluster)(2 := ?s), network := [(2, 1, lock_message boost_ref ?ty 9 5)]\<rparr>"
  have "handle_peer_message boost_ref server_up (executor_ref std_ref) quiet 1
      (lock_message boost_ref MT_LOCK_REQUEST 9 5) sched0 = (Inr (), ?s)"
    using dispatch(1) [OF boost_ref_ok] e by simp
  then have "deliver (\<lambda>v. v) boost_ref (\<lambda>_. server_up) (executor_ref std_ref) demo_cluster ?c"
    using deliver.deliver [of demo_cluster "[]" 1 2 "lock_message boost_ref MT_LOCK_REQUEST 9 5" "[]" "\<lambda>v. v"
        "lock_message boost_ref MT_LOCK_REQUEST 9 5" boost_ref "\<lambda>_. server_up" "executor_ref std_ref" quiet "Inr ()" ?s
        "[(1, lock_message boost_ref ?ty 9 5)]" "[(1, lock_message boost_ref ?ty 9 5)]"]
    by (simp add: demo_cluster_def)
  then show ?thesis by (intro exI [of _ ?c]) simp
qed

theorem exchange_terminates_witness:
  "\<exists>c'. deliver (\<lambda>v. v) boost_ref (\<lambda>_. server_up) (executor_ref std_ref) demo_cluster c' \<and> length (network c') = 1"
proof -
  obtain c' where c': "deliver (\<lambda>v. v) boost_ref (\<lambda>_. server_up) (executor_ref std_ref) demo_cluster c'" "network c' \<noteq> []"
    using demo_delivery by blast
  then have "(deliver (\<lambda>v. v) boost_ref (\<lambda>_. server_up) (executor_ref std_ref) ^^ 1) demo_cluster c'"
    by (simp add: eq_OO)
  from exchange_terminates [OF boost_ref_ok transport_memory this] have "length (network c') \<le> 1"
    by (simp add: demo_cluster_def)
  with c' show ?thesis by (intro exI [of _ c']) (cases "network c'", auto)
qed

section \<open>Over the wire\<close>

text \<open>The lock and operation messages the scheduler makes, with ids below 2^63.\<close>

definition made :: "boost_json \<Rightarrow> jobject \<Rightarrow> bool" where
  "made J msg \<longleftrightarrow> (\<exists>tx. unat tx < 2 ^ 63 \<and>
     ((\<exists>ty k. ty \<in> {MT_LOCK_REQUEST, MT_LOCK_RELEASE, MT_LOCK_GRANTED, MT_LOCK_DENIED} \<and> msg = lock_message J ty tx k) \<or>
      (\<exists>op. msg = op_request J tx op) \<or> (\<exists>k r. msg = op_response J tx k r)))"


lemma received_made:
  assumes "boost_ok J" and "wire_ok W" and "made J msg" and "W (JObject msg) = JObject msg'"
  shows "handle_peer_message J S X env peer msg' s = (Inr (), log_error (SystemError ''not_kind'') s)"
proof -
  have m: "map_of msg' k = map_option W (map_of msg k)" for k
    using transport_object [OF transport_wire [OF assms(2)] assms(4)] .
  obtain tx where tx: "unat tx < 2 ^ 63"
      "(\<exists>ty k. ty \<in> {MT_LOCK_REQUEST, MT_LOCK_RELEASE, MT_LOCK_GRANTED, MT_LOCK_DENIED} \<and> msg = lock_message J ty tx k) \<or>
       (\<exists>op. msg = op_request J tx op) \<or> (\<exists>k r. msg = op_response J tx k r)"
    using assms(3) unfolding made_def by blast
  from tx(2) show ?thesis
  proof (elim disjE exE conjE)
    fix ty k assume ty: "ty \<in> {MT_LOCK_REQUEST, MT_LOCK_RELEASE, MT_LOCK_GRANTED, MT_LOCK_DENIED}" and msg: "msg = lock_message J ty tx k"
    have mem: "map_of msg' ''type'' = Some (JString ty)" "map_of msg' ''tx_id'' = Some (JInt tx)"
        "map_of msg' ''key'' = Some (JInt k)"
      using m assms(1,2) tx(1) msg by simp_all
    with ty show ?thesis
      using assms(1) dispatch(1,2) [OF assms(1)] dispatch_response [OF assms(1) _ mem(1)]
      by (auto simp: handle_lock_request_def handle_lock_release_def handle_lock_response_def tx_and_key_def)
  next
    fix op assume msg: "msg = op_request J tx op"
    have "map_of msg' ''type'' = Some (JString MT_OP_REQUEST)" "map_of msg' ''tx_id'' = Some (JInt tx)"
        "map_of msg' ''key'' = Some (JInt (op_key op))" "\<exists>t. map_of msg' ''op_type'' = Some t"
      using m assms(1,2) tx(1) msg by (simp_all add: op_request_members)
    then show ?thesis
      using assms(1) dispatch(3) [OF assms(1)] by (auto simp: handle_operation_request_def tx_op_key_def)
  next
    fix k r assume msg: "msg = op_response J tx k r"
    have "map_of msg' ''type'' = Some (JString MT_OP_RESPONSE)" "map_of msg' ''tx_id'' = Some (JInt tx)"
        "map_of msg' ''key'' = Some (JInt k)"
      using m assms(1,2) tx(1) msg by (simp_all add: op_response_members)
    then show ?thesis
      using assms(1) dispatch(4) [OF assms(1)] by (auto simp: handle_operation_response_def tx_and_key_def)
  qed
qed

lemma deliver_made:
  assumes "boost_ok J" and "wire_ok W" and "\<forall>(a, b, msg) \<in> set (network c). made J msg" and "deliver W J S X c c'"
  shows "set (network c') \<subseteq> set (network c) \<and> length (network c) = Suc (length (network c')) \<and>
    (\<exists>dst. nodes c' = (nodes c)(dst := log_error (SystemError ''not_kind'') (nodes c dst)))"
  using assms(4)
proof (cases rule: deliver.cases)
  case (deliver xs frm dst msg ys msg' env r s' new arrived)
  have "made J msg" using assms(3) deliver(2) by auto
  with received_made [OF assms(1,2) _ deliver(3)] deliver(4)
  have s': "s' = log_error (SystemError ''not_kind'') (nodes c dst)" by (metis prod.inject)
  then have "new = []" using deliver(5) by simp
  then have "arrived = []" using deliver(6) by simp
  with deliver(1,2) s' show ?thesis by auto
qed

text \<open>
  C33 (nothing gets through the wire). In a cluster whose messages are serialized and
  parsed on their way, every lock request, release and answer and every operation request
  and answer of a scheduler with an id below 2^63 is dropped with a logged exception: any number of
  deliveries leaves all nodes as they were except for their logs, no answer is ever
  sent, and every delivery makes the network shorter by one.
\<close>

theorem wire_inert:
  assumes "boost_ok J" and "wire_ok W" and "\<forall>(a, b, msg) \<in> set (network c). made J msg"
    and "(deliver W J S X ^^ n) c c'"
  shows "n + length (network c') = length (network c) \<and> set (network c') \<subseteq> set (network c) \<and>
    (\<forall>i. nodes c' i = (nodes c i)\<lparr>logged := logged (nodes c' i)\<rparr>)"
  using assms(4)
proof (induction n arbitrary: c')
  case 0
  then show ?case by simp
next
  case (Suc n)
  then obtain c1 where c1: "(deliver W J S X ^^ n) c c1" "deliver W J S X c1 c'" by auto
  note IH = Suc.IH [OF c1(1)]
  then have "\<forall>(a, b, msg) \<in> set (network c1). made J msg" using assms(3) by blast
  note step = deliver_made [OF assms(1,2) this c1(2)]
  obtain dst where "nodes c' = (nodes c1)(dst := log_error (SystemError ''not_kind'') (nodes c1 dst))"
    using step by blast
  then have "nodes c' i = (nodes c1 i)\<lparr>logged := logged (nodes c' i)\<rparr>" for i by (simp add: log_error_def)
  then have "nodes c' i = (nodes c i)\<lparr>logged := logged (nodes c' i)\<rparr>" for i
    using IH by (metis TwoPLScheduler.surjective TwoPLScheduler.update_convs(16))
  with IH step show ?case by auto
qed

theorem wire_inert_witness:
  "\<exists>c'. deliver wire_ref boost_ref (\<lambda>_. server_up) (executor_ref std_ref) demo_cluster c' \<and> network c' = [] \<and>
     lock_manager (nodes c' 2) = init_lock_manager"
proof -
  let ?msg = "lock_message boost_ref MT_LOCK_REQUEST 9 5"
  have made: "made boost_ref ?msg" unfolding made_def by (intro exI [of _ 9]) auto
  obtain msg' where w: "wire_ref (JObject ?msg) = JObject msg'" using wire_object [OF wire_ref_ok] by blast
  let ?c = "demo_cluster\<lparr>nodes := (nodes demo_cluster)(2 := log_error (SystemError ''not_kind'') sched0), network := []\<rparr>"
  have d: "deliver wire_ref boost_ref (\<lambda>_. server_up) (executor_ref std_ref) demo_cluster ?c"
    using deliver.deliver [of demo_cluster "[]" 1 2 ?msg "[]" wire_ref msg' boost_ref "\<lambda>_. server_up"
        "executor_ref std_ref" quiet "Inr ()" "log_error (SystemError ''not_kind'') sched0" "[]" "[]"]
      received_made [OF boost_ref_ok wire_ref_ok made w] w by (simp add: demo_cluster_def)
  then have "(deliver wire_ref boost_ref (\<lambda>_. server_up) (executor_ref std_ref) ^^ 1) demo_cluster ?c" by (simp add: eq_OO)
  moreover have "\<forall>(a, b, msg) \<in> set (network demo_cluster). made boost_ref msg" using made by (simp add: demo_cluster_def)
  ultimately have "nodes ?c 2 = (nodes demo_cluster 2)\<lparr>logged := logged (nodes ?c 2)\<rparr>"
    using wire_inert [OF boost_ref_ok wire_ref_ok] by blast
  then have "lock_manager (nodes ?c 2) = lock_manager ((nodes demo_cluster 2)\<lparr>logged := logged (nodes ?c 2)\<rparr>)"
    by (rule arg_cong)
  also have "\<dots> = init_lock_manager" by (simp add: demo_cluster_def)
  finally show ?thesis using d by (intro exI [of _ ?c]) simp
qed

end
