(* ===== verification/Distributed_Runs.thy ===== *)
theory Distributed_Runs
  imports Cluster
begin

text \<open>
  Distributed transactions from end to end. The node \<open>here\<close> executes a transaction whose
  keys are spread over several nodes; every message is serialized and parsed on its way
  (\<open>received\<close>). For ids and values that survive this, and with peers that handle the
  messages in the order they are sent and whose answers arrive while it waits, the theory
  states what the transaction returns, and what the stores and the lock tables of all the
  nodes hold afterwards. Without answers, and over the wire with the ids that the code
  really generates, the transaction never executes an operation.
\<close>

section \<open>Messages that survive the wire\<close>

text \<open>What the receiver gets of a message, after it was serialized and parsed.\<close>

definition received :: "(json \<Rightarrow> json) \<Rightarrow> jobject \<Rightarrow> jobject" where
  "received W msg = (case W (JObject msg) of JObject msg' \<Rightarrow> msg' | _ \<Rightarrow> [])"

text \<open>
  Null and the elements of an array come back as they are. With this, all members of the
  messages of a transaction come back unchanged if its id is at least 2^63, so that the
  parser does not change the kind of the id.
\<close>

definition wire_values :: "(json \<Rightarrow> json) \<Rightarrow> bool" where
  "wire_values W \<longleftrightarrow> W JNull = JNull \<and> (\<forall>xs. W (JArray xs) = JArray (map W xs))"

definition survives :: "(json \<Rightarrow> json) \<Rightarrow> TransactionId \<Rightarrow> bool" where
  "survives W tx \<longleftrightarrow> wire_ok W \<and> wire_values W \<and> 2 ^ 63 \<le> unat tx"

lemma wire_values_ref: "wire_values wire_ref"
  by (simp add: wire_values_def)

lemma survives_uint: "survives W tx \<Longrightarrow> W (JUint tx) = JUint tx"
  by (simp add: survives_def)

lemma received_members: "wire_ok W \<Longrightarrow> map_of (received W msg) k = map_option W (map_of msg k)"
  by (rule wire_object [of W msg]) (simp_all add: received_def)

text \<open>The handlers see no more of a message than the values of its members.\<close>

lemma handle_peer_message_cong:
  assumes "boost_ok J" and "map_of m1 = map_of m2"
  shows "handle_peer_message J S X env peer m1 s = handle_peer_message J S X env peer m2 s"
proof -
  have same: "obj_contains J m1 = obj_contains J m2" "obj_at J m1 = obj_at J m2"
    using assms by (simp_all add: fun_eq_iff)
  show ?thesis
    unfolding handle_peer_message_def handle_lock_request_def handle_lock_response_def handle_lock_release_def
      handle_operation_request_def handle_operation_response_def handle_prepare_request_def handle_commit_request_def
      handle_abort_request_def tx_and_key_def tx_op_key_def request_op_def response_value_def member_as_def same
    by (rule refl)
qed

lemma survives_all:
  assumes "boost_ok J" and "survives W tx"
  shows "map_of (received W (lock_message J ty tx k)) = map_of (lock_message J ty tx k)"
    and "map_of (received W (op_request J tx op)) = map_of (op_request J tx op)"
    and "map_of (received W (op_response J tx k r)) = map_of (op_response J tx k r)"
proof -
  have W: "wire_ok W" "W JNull = JNull" "\<And>xs. W (JArray xs) = JArray (map W xs)"
    using assms(2) by (auto simp: survives_def wire_values_def)
  note mem = received_members [OF W(1)] survives_uint [OF assms(2)]
  show "map_of (received W (lock_message J ty tx k)) = map_of (lock_message J ty tx k)"
    using assms(1) W(1) by (auto simp: mem fun_eq_iff)
  show "map_of (received W (op_request J tx op)) = map_of (op_request J tx op)"
    using assms(1) W(1) by (cases op) (auto simp: mem fun_eq_iff op_request_def Let_def)
  show "map_of (received W (op_response J tx k r)) = map_of (op_response J tx k r)"
    using assms(1) W by (auto simp: mem fun_eq_iff op_response_def comp_def split: option.split)
qed

lemma survives_handled [simp]:
  assumes "boost_ok J" and "survives W tx"
  shows "handle_peer_message J S X env peer (received W (lock_message J ty tx k)) s =
      handle_peer_message J S X env peer (lock_message J ty tx k) s"
    and "handle_peer_message J S X env peer (received W (op_request J tx op)) s =
      handle_peer_message J S X env peer (op_request J tx op) s"
    and "handle_peer_message J S X env peer (received W (op_response J tx k r)) s =
      handle_peer_message J S X env peer (op_response J tx k r) s"
  by (rule handle_peer_message_cong [OF assms(1) survives_all(1) [OF assms]]
      handle_peer_message_cong [OF assms(1) survives_all(2) [OF assms]]
      handle_peer_message_cong [OF assms(1) survives_all(3) [OF assms]])+

section \<open>Responsive peers\<close>

type_synonym peers = "NodeID \<Rightarrow> TwoPLScheduler"

text \<open>A peer handles a message from \<open>here\<close> that came over \<open>W\<close>, and its answer.\<close>

definition serve :: "(json \<Rightarrow> json) \<Rightarrow> boost_json \<Rightarrow> executor_api \<Rightarrow> NodeID \<Rightarrow> NodeID \<times> jobject \<Rightarrow> peers \<Rightarrow> peers" where
  "serve W J X here = (\<lambda>(n, msg) P. P(n := snd (handle_peer_message J server_up X quiet here (received W msg) (P n))))"

fun replies :: "(json \<Rightarrow> json) \<Rightarrow> boost_json \<Rightarrow> executor_api \<Rightarrow> NodeID \<Rightarrow> (NodeID \<times> jobject) list \<Rightarrow> peers \<Rightarrow> (NodeID \<times> jobject) list" where
  "replies W J X here [] P = []"
| "replies W J X here ((n, msg) # ms) P =
     (n, snd (last (sent (serve W J X here (n, msg) P n)))) # replies W J X here ms (serve W J X here (n, msg) P)"

definition serve_all :: "(json \<Rightarrow> json) \<Rightarrow> boost_json \<Rightarrow> executor_api \<Rightarrow> NodeID \<Rightarrow> (NodeID \<times> jobject) list \<Rightarrow> peers \<Rightarrow> peers" where
  "serve_all W J X here = fold (serve W J X here)"

definition take_answer :: "(json \<Rightarrow> json) \<Rightarrow> boost_json \<Rightarrow> executor_api \<Rightarrow> NodeID \<times> jobject \<Rightarrow> TwoPLScheduler \<Rightarrow> TwoPLScheduler" where
  "take_answer W J X = (\<lambda>(n, msg) s. snd (handle_peer_message J server_up X quiet n (received W msg) s))"

text \<open>
  What happens while the transaction waits: the answers to its lock requests arrive
  together, the answer to each operation arrives by itself.
\<close>

definition responsive :: "(json \<Rightarrow> json) \<Rightarrow> boost_json \<Rightarrow> executor_api \<Rightarrow> NodeID \<Rightarrow> (NodeID \<times> jobject) list \<Rightarrow> (NodeID \<times> jobject) list \<Rightarrow>
    peers \<Rightarrow> wait_event list" where
  "responsive W J X here requests operations P =
     (if requests = [] then [] else [Wake (fold (take_answer W J X) (replies W J X here requests P))]) @
     map (\<lambda>r. Wake (take_answer W J X r)) (replies W J X here operations (serve_all W J X here requests P))"

lemma serve_all_simps [simp]:
  "serve_all W J X here [] P = P" "serve_all W J X here (m # ms) P = serve_all W J X here ms (serve W J X here m P)"
  "serve_all W J X here (ms @ ns) P = serve_all W J X here ns (serve_all W J X here ms P)"
  by (simp_all add: serve_all_def)

section \<open>Reference\<close>

definition place :: "(KeyType \<rightharpoonup> NodeID) \<Rightarrow> KeyType \<Rightarrow> NodeID" where
  "place m k = (case m k of None \<Rightarrow> 0 | Some n \<Rightarrow> n)"

definition at_node :: "TwoPLScheduler \<Rightarrow> peers \<Rightarrow> NodeID \<Rightarrow> TwoPLScheduler" where
  "at_node s P n = (if n = local_node_id s then s else P n)"

text \<open>The map all nodes together hold: every key is looked up where it is placed.\<close>

definition view :: "stdlib \<Rightarrow> (KeyType \<rightharpoonup> NodeID) \<Rightarrow> TwoPLScheduler \<Rightarrow> peers \<Rightarrow> kv_map" where
  "view L m s P k = kv_get L (store (at_node s P (place m k))) k"

text \<open>
  What the transaction returns: as the reference for operations on local keys; for a
  remote key a value that does not exist is an empty list, and so is the result of an
  append, which the reference does not report.
\<close>

fun dist_read :: "kv_map \<Rightarrow> Operation \<Rightarrow> Results" where
  "dist_read M (ReadOp k) = [(k, Some (case M k of None \<Rightarrow> [] | Some vs \<Rightarrow> vs))]"
| "dist_read M (AppendOp k v) = [(k, Some [])]"

fun dist_reads :: "NodeID \<Rightarrow> (KeyType \<rightharpoonup> NodeID) \<Rightarrow> kv_map \<Rightarrow> Operation list \<Rightarrow> Results" where
  "dist_reads here m M [] = []"
| "dist_reads here m M (op # ops) =
     (if place m (op_key op) = here then op_read M op else dist_read M op) @ dist_reads here m (op_write M op) ops"

section \<open>Growing phase\<close>

text \<open>A peer owns the key for the transaction unless another transaction does.\<close>

definition takes :: "TransactionId \<Rightarrow> TransactionId option \<Rightarrow> TransactionId option" where
  "takes tx holder = (if holder = None then Some tx else holder)"

lemma takes_takes [simp]: "takes tx (takes tx x) = takes tx x"
  by (simp add: takes_def)

lemma serve_request:
  fixes X here tx
  assumes "boost_ok J" "survives W tx"
  defines "P' \<equiv> \<lambda>n k P. serve W J X here (n, lock_message J MT_LOCK_REQUEST tx k) P"
  shows "owner_of (lock_manager (P' n k P p)) j =
      (if (p, j) = (n, k) then takes tx (owner_of (lock_manager (P p)) j) else owner_of (lock_manager (P p)) j)"
    and "store (P' n k P p) = store (P p)"
    and "\<exists>ty. snd (last (sent (P' n k P n))) = lock_message J ty tx k \<and> (ty = MT_LOCK_GRANTED \<or> ty = MT_LOCK_DENIED)"
proof -
  obtain r lm where a: "acquire quiet k tx (lock_manager (P n)) = (r, lm)" by force
  have own: "owner_of lm j = (if j = k then takes tx (owner_of (lock_manager (P n)) j) else owner_of (lock_manager (P n)) j)" for j
  proof -
    consider "owner_of (lock_manager (P n)) k = None" | "owner_of (lock_manager (P n)) k = Some tx"
      | u where "owner_of (lock_manager (P n)) k = Some u" "u \<noteq> tx" by (cases "owner_of (lock_manager (P n)) k") auto
    then show ?thesis
      using a by cases (auto simp: acquire_free acquire_reentrant acquire_busy takes_def)
  qed
  obtain es where "handle_lock_request J server_up quiet here (lock_message J MT_LOCK_REQUEST tx k) (P n) =
      (P n)\<lparr>lock_manager := lm, sent := sent (P n) @ [(here, lock_message J
        (if r = ACQUIRED then MT_LOCK_GRANTED else MT_LOCK_DENIED) tx k)], logged := logged (P n) @ es\<rparr>"
    using lock_request_effect [OF assms(1) a] by blast
  then have "P' n k P = P(n := (P n)\<lparr>lock_manager := lm, sent := sent (P n) @ [(here, lock_message J
        (if r = ACQUIRED then MT_LOCK_GRANTED else MT_LOCK_DENIED) tx k)], logged := logged (P n) @ es\<rparr>)"
    using dispatch(1) [OF assms(1)] assms(1,2) by (simp add: P'_def serve_def)
  with own show "owner_of (lock_manager (P' n k P p)) j =
      (if (p, j) = (n, k) then takes tx (owner_of (lock_manager (P p)) j) else owner_of (lock_manager (P p)) j)"
    "store (P' n k P p) = store (P p)"
    "\<exists>ty. snd (last (sent (P' n k P n))) = lock_message J ty tx k \<and> (ty = MT_LOCK_GRANTED \<or> ty = MT_LOCK_DENIED)"
    by auto
qed

lemma serve_requests:
  fixes X here tx
  assumes "boost_ok J" "survives W tx"
  defines "P' \<equiv> \<lambda>ps P. serve_all W J X here (map (request_message J tx) ps) P"
  shows "owner_of (lock_manager (P' ps P n)) k =
      (if (n, k) \<in> set ps then takes tx (owner_of (lock_manager (P n)) k) else owner_of (lock_manager (P n)) k)"
    and "store (P' ps P n) = store (P n)"
  unfolding P'_def
  by (induction ps arbitrary: P) (auto simp: serve_request [OF assms(1,2)] split: if_splits)

text \<open>Whatever the answers say, they end the wait.\<close>

definition answered :: "TransactionId \<Rightarrow> TwoPLScheduler \<Rightarrow> TwoPLScheduler" where
  "answered tx s = s\<lparr>pending_remote_locks := (pending_remote_locks s)(tx := None)\<rparr>"

lemma answered_twice [simp]: "answered tx (answered tx s) = answered tx s"
  by (simp add: answered_def)

lemma receive_responses:
  assumes "boost_ok J" "survives W tx" and "ps \<noteq> []"
  shows "fold (take_answer W J X) (replies W J X here (map (request_message J tx) ps) P) s = answered tx s"
  using assms(3)
proof (induction ps arbitrary: P s)
  case (Cons p ps)
  obtain n k where p: "p = (n, k)" by force
  obtain ty where ty: "snd (last (sent (serve W J X here (n, lock_message J MT_LOCK_REQUEST tx k) P n))) = lock_message J ty tx k"
      "ty = MT_LOCK_GRANTED \<or> ty = MT_LOCK_DENIED"
    using serve_request(3) [OF assms(1,2)] by blast
  have "take_answer W J X (n, lock_message J ty tx k) s = answered tx s"
    using assms(1,2) dispatch_response [OF assms(1) ty(2)]
    by (simp add: take_answer_def handle_lock_response_def same_address_def answered_def)
  with Cons.IH ty(1) show ?case by (cases "ps = []") (simp_all add: p)
qed simp

lemma wait_remote_locks_answered:
  assumes "pending_remote_locks s tx = Some pm" and "pm \<noteq> []" and "f s = answered tx s"
  shows "wait_remote_locks L J S tx (Wake f # tape) s = (Returns True, tape, touch_pending tx (answered tx s))"
proof -
  have "touch_pending tx s = s" using assms(1) by (simp add: touch_pending_def pending_of_def map_upd_triv)
  moreover have "pending_of (touch_pending tx (answered tx s)) tx = []"
    by (simp add: touch_pending_def pending_of_def answered_def)
  ultimately show ?thesis
    using assms by (simp add: wait_remote_locks.simps [of _ _ _ _ "Wake f # tape"] wait_remote_locks.simps [of _ _ _ _ tape]
        Let_def) (simp add: pending_of_def)
qed

lemma local_keys_set:
  assumes "std_ok L"
  shows "set (local_keys L here m) = {k. (here, k) \<in> pairs_of m}"
proof -
  have "set (foldl (\<lambda>ls (n, ks). if n = here then foldl (\<lambda>l k. List.insert k l) ls (key_order L ks) else ls) ls nks) =
      set ls \<union> {k. (here, k) \<in> pairs_of nks}" for ls nks
  proof (induction nks arbitrary: ls)
    case (Cons nk nks)
    have "pairs_of (nk # nks) = {fst nk} \<times> set (snd nk) \<union> pairs_of nks" by (cases nk) (auto simp: pairs_of_def)
    with Cons.IH show ?case by (cases nk) (auto simp: assms)
  qed simp
  then show ?thesis by (simp add: local_keys_def pairs_of_def assms)
qed

lemma growing_phase_local:
  assumes "std_ok L" and "tx_inv tx (lock_manager s)"
    and "\<And>k. (local_node_id s, k) \<in> pairs_of m \<Longrightarrow> owner_of (lock_manager s) k = None"
  obtains lm where "acquire_each (\<lambda>k. acquire quiet k tx) (key_order L (local_keys L (local_node_id s) m)) (lock_manager s) = (True, lm)"
    and "\<And>k. (local_node_id s, k) \<in> pairs_of m \<Longrightarrow> owner_of lm k = Some tx"
    and "\<And>k. owner_of (release_all L tx lm) k = (if owner_of (lock_manager s) k = Some tx then None else owner_of (lock_manager s) k)"
proof -
  let ?ks = "key_order L (local_keys L (local_node_id s) m)"
  have ks: "set ?ks = {k. (local_node_id s, k) \<in> pairs_of m}" using assms(1) by (simp add: local_keys_set)
  obtain b lm where a: "acquire_each (\<lambda>k. acquire quiet k tx) ?ks (lock_manager s) = (b, lm)" by force
  have "b" using acquire_each_quiet [of tx ?ks "lock_manager s"] a ks assms(3) by auto
  with a show ?thesis
    using quiet_family.growing_phase(2) [OF assms(2) a] ks quiet_growing_shrinking(2) [OF assms(2,1) a]
    by (intro that [of lm]) simp_all
qed

lemma remote_phase:
  fixes X here P
  assumes "boost_ok J" "survives W tx" and "pending_of s tx = []" and "key_pairs L rk = ps"
  defines "f \<equiv> fold (take_answer W J X) (replies W J X here (map (request_message J tx) ps) P)"
  shows "\<exists>pend. acquire_remote_locks_with_retry L J server_up ((if ps = [] then [] else [Wake f]) @ tape) rk tx s =
    (Returns True, tape, s\<lparr>pending_remote_locks := pend, sent := sent s @ map (request_message J tx) ps\<rparr>)"
proof (cases ps)
  case Nil
  have "acquire_remote_locks_with_retry L J server_up tape rk tx s = (Returns True, tape, touch_pending tx s)"
    using Nil assms(3,4)
    by (simp add: Let_def acquire_remote_locks_with_retry_def wait_remote_locks.simps touch_pending_def pending_of_def)
  with Nil show ?thesis by (intro exI [of _ "pending_remote_locks (touch_pending tx s)"]) (simp add: touch_pending_def)
next
  case (Cons p qs)
  obtain pm where pm: "foldl (\<lambda>s nk. add_pending tx nk s) s ps = s\<lparr>pending_remote_locks := (pending_remote_locks s)(tx \<mapsto> pm)\<rparr>"
      "pairs_of pm = set ps"
    using add_pending_all [of tx s p qs] assms(3) unfolding Cons by (auto simp: pending_of_def)
  define s2 where "s2 = s\<lparr>pending_remote_locks := (pending_remote_locks s)(tx \<mapsto> pm), sent := sent s @ map (request_message J tx) ps\<rparr>"
  have "pm \<noteq> []" using pm(2) Cons by auto
  moreover have "f s2 = answered tx s2"
    unfolding f_def using receive_responses [OF assms(1,2), of ps] Cons by simp
  ultimately have "wait_remote_locks L J server_up tx (Wake f # tape) s2 = (Returns True, tape, touch_pending tx (answered tx s2))"
    by (intro wait_remote_locks_answered) (simp_all add: s2_def)
  moreover have "touch_pending tx (answered tx s2) =
      s\<lparr>pending_remote_locks := (pending_remote_locks s)(tx \<mapsto> []), sent := sent s @ map (request_message J tx) ps\<rparr>"
    by (simp add: touch_pending_def answered_def pending_of_def s2_def)
  moreover have "acquire_remote_locks_with_retry L J server_up (Wake f # tape) rk tx s =
      wait_remote_locks L J server_up tx (Wake f # tape) s2"
    using pm(1) assms(4) by (simp add: acquire_remote_locks_with_retry_def Let_def send_each_up s2_def)
  ultimately show ?thesis using Cons by (intro exI [of _ "(pending_remote_locks s)(tx \<mapsto> [])"]) simp
qed

abbreviation lock_requests :: "stdlib \<Rightarrow> boost_json \<Rightarrow> TransactionId \<Rightarrow> NodeID \<Rightarrow> (NodeID \<times> KeyType list) list \<Rightarrow> (NodeID \<times> jobject) list" where
  "lock_requests L J tx here nk \<equiv> map (request_message J tx) (key_pairs L (remote_keys L here nk))"

lemma growing_phase_dist:
  assumes "boost_ok J" "survives W tx" and "std_ok L" and "tx_inv tx (lock_manager s)" and "pending_of s tx = []"
    and "\<forall>k. (local_node_id s, k) \<in> pairs_of m \<longrightarrow> owner_of (lock_manager s) k = None"
  shows "\<exists>lm pend. acquire_all_locks L J server_up (\<lambda>_. quiet)
      (responsive W J X here (lock_requests L J tx (local_node_id s) m) ops P) m tx s =
      (Returns True, map (\<lambda>r. Wake (take_answer W J X r)) (replies W J X here ops (serve_all W J X here (lock_requests L J tx (local_node_id s) m) P)),
       s\<lparr>lock_manager := lm, pending_remote_locks := pend, sent := sent s @ lock_requests L J tx (local_node_id s) m\<rparr>) \<and>
    (\<forall>k. (local_node_id s, k) \<in> pairs_of m \<longrightarrow> owner_of lm k = Some tx) \<and>
    (\<forall>k. owner_of (release_all L tx lm) k = (if owner_of (lock_manager s) k = Some tx then None else owner_of (lock_manager s) k))"
proof -
  let ?rk = "remote_keys L (local_node_id s) m"
  let ?tape = "map (\<lambda>r. Wake (take_answer W J X r)) (replies W J X here ops (serve_all W J X here (lock_requests L J tx (local_node_id s) m) P))"
  obtain lm where lm: "acquire_each (\<lambda>k. acquire quiet k tx) (key_order L (local_keys L (local_node_id s) m)) (lock_manager s) = (True, lm)"
    "\<And>k. (local_node_id s, k) \<in> pairs_of m \<Longrightarrow> owner_of lm k = Some tx"
    "\<And>k. owner_of (release_all L tx lm) k = (if owner_of (lock_manager s) k = Some tx then None else owner_of (lock_manager s) k)"
    using growing_phase_local [OF assms(3,4), of m] assms(6) by blast
  let ?s1 = "s\<lparr>lock_manager := lm\<rparr>"
  have "pending_of ?s1 tx = []" using assms(5) by (simp add: pending_of_def)
  from remote_phase [OF assms(1,2) this refl, of L ?rk X here P ?tape]
  obtain pend where rp: "acquire_remote_locks_with_retry L J server_up
      (responsive W J X here (lock_requests L J tx (local_node_id s) m) ops P) ?rk tx ?s1 =
      (Returns True, ?tape, ?s1\<lparr>pending_remote_locks := pend, sent := sent s @ lock_requests L J tx (local_node_id s) m\<rparr>)"
    by (auto simp: responsive_def)
  have "\<exists>pend. acquire_all_locks L J server_up (\<lambda>_. quiet)
      (responsive W J X here (lock_requests L J tx (local_node_id s) m) ops P) m tx s =
      (Returns True, ?tape, ?s1\<lparr>pending_remote_locks := pend, sent := sent s @ lock_requests L J tx (local_node_id s) m\<rparr>)"
  proof (cases "?rk = []")
    case True
    then have "key_pairs L ?rk = []" using assms(3) by (simp add: key_pairs_def)
    with True lm(1) show ?thesis
      by (intro exI [of _ "pending_remote_locks s"]) (simp add: acquire_all_locks_def Let_def responsive_def)
  next
    case False
    with rp lm(1) show ?thesis by (intro exI [of _ pend]) (simp add: acquire_all_locks_def Let_def)
  qed
  with lm(2,3) show ?thesis by auto
qed

section \<open>Execution phase\<close>

lemma serve_operation:
  assumes "boost_ok J" "survives W tx" "executor_ok L X" "kv_wf L (store (P n))"
  obtains st es where "serve W J X here (n, op_request J tx op) P = P(n := (P n)\<lparr>store := st,
      sent := sent (P n) @ [(here, op_response J tx (op_key op)
        (case op of ReadOp k \<Rightarrow> kv_get L (store (P n)) k | AppendOp _ _ \<Rightarrow> None))], logged := logged (P n) @ es\<rparr>)"
    and "kv_wf L st" and "kv_get L st = op_write (kv_get L (store (P n))) op"
proof -
  obtain st es where "handle_peer_message J server_up X quiet here (op_request J tx op) (P n) = (Inr (), (P n)\<lparr>store := st,
      sent := sent (P n) @ [(here, op_response J tx (op_key op)
        (case op of ReadOp k \<Rightarrow> kv_get L (store (P n)) k | AppendOp _ _ \<Rightarrow> None))], logged := logged (P n) @ es\<rparr>)"
      "kv_wf L st" "kv_get L st = op_write (kv_get L (store (P n))) op"
    by (rule operation_request_effect [OF assms(1,3,4)])
  then show ?thesis using that assms(1,2) by (simp add: serve_def)
qed

lemma view_write:
  assumes "\<And>n. n \<noteq> place m (op_key op) \<Longrightarrow> store (at_node s' P' n) = store (at_node s P n)"
    and "kv_get L (store (at_node s' P' (place m (op_key op)))) = op_write (kv_get L (store (at_node s P (place m (op_key op))))) op"
  shows "view L m s' P' = op_write (view L m s P) op"
proof
  fix k
  show "view L m s' P' k = op_write (view L m s P) op k"
  proof (cases "k = op_key op")
    case True
    then show ?thesis using assms(2) by (simp add: view_def) (rule op_write_cong, simp add: view_def)
  next
    case False
    with assms show ?thesis
      by (cases "place m k = place m (op_key op)") (simp_all add: view_def op_write_other)
  qed
qed

lemma execute_response:
  assumes "boost_ok J" "survives W tx"
  shows "\<exists>s1. execute_remote_operation J server_up n tx op (Wake (take_answer W J X (n, op_response J tx (op_key op) r)) # tape) s =
      (Returns (Some (case r of None \<Rightarrow> [] | Some vs \<Rightarrow> vs)), tape, s1) \<and>
    sent s1 = sent s @ [(n, op_request J tx op)] \<and> lock_manager s1 = lock_manager s \<and> store s1 = store s \<and>
    local_node_id s1 = local_node_id s"
proof -
  have "take_answer W J X (n, op_response J tx (op_key op) r) =
      (\<lambda>s. snd (handle_peer_message J server_up X quiet n (op_response J tx (op_key op) r) s))"
    using assms by (simp add: take_answer_def)
  then show ?thesis using remote_operation_result [OF assms(1), of n tx op X quiet r tape s] by auto
qed

lemma exec_local:
  "place m (op_key op) = local_node_id s \<Longrightarrow> visit X op (make_executor X (store s)) = (Inr rs, v) \<Longrightarrow>
   exec_ops J S X m tx (op # ops) results tape s = exec_ops J S X m tx ops (results @ rs) tape (s\<lparr>store := exec_store v\<rparr>)"
  by (simp add: place_def)

lemma exec_local_view:
  assumes "executor_ok L X" "kv_wf L (store s)" "place m (op_key op) = local_node_id s"
  obtains st where "exec_ops J S X m tx (op # ops) results tape s =
      exec_ops J S X m tx ops (results @ op_read (view L m s P) op) tape (s\<lparr>store := st\<rparr>)"
    and "kv_wf L st" and "view L m (s\<lparr>store := st\<rparr>) P = op_write (view L m s P) op"
proof -
  have e: "exec_store (make_executor X (store s)) = store s" using assms(1) by simp
  obtain v where v: "visit X op (make_executor X (store s)) = (Inr (op_read (kv_get L (store s)) op), v)"
      "kv_wf L (exec_store v)" "kv_get L (exec_store v) = op_write (kv_get L (store s)) op"
    using visit_refines [OF assms(1), of "make_executor X (store s)" op] assms(2) unfolding e by blast
  have "view L m (s\<lparr>store := exec_store v\<rparr>) P = op_write (view L m s P) op"
    using v(3) assms(3) by (intro view_write) (simp_all add: at_node_def)
  moreover have "op_read (kv_get L (store s)) op = op_read (view L m s P) op"
    using assms(3) by (intro op_read_cong) (simp add: view_def at_node_def)
  ultimately show ?thesis using that [of "exec_store v"] v exec_local [OF assms(3) v(1)] by simp
qed

lemma exec_remote_view:
  fixes J L X tx op P n s
  assumes "boost_ok J" "survives W tx" "executor_ok L X" "\<And>n. kv_wf L (store (P n))" "place m (op_key op) = n" "n \<noteq> local_node_id s"
  defines "P1 \<equiv> serve W J X (local_node_id s) (n, op_request J tx op) P"
  obtains r s1 where "snd (last (sent (P1 n))) = r"
    and "exec_ops J server_up X m tx (op # ops) results (Wake (take_answer W J X (n, r)) # tape) s =
      exec_ops J server_up X m tx ops (results @ dist_read (view L m s P) op) tape s1"
    and "sent s1 = sent s @ [(n, op_request J tx op)]" "lock_manager s1 = lock_manager s" "store s1 = store s"
    and "local_node_id s1 = local_node_id s" "view L m s1 P1 = op_write (view L m s P) op"
    and "\<forall>j. kv_wf L (store (P1 j)) \<and> lock_manager (P1 j) = lock_manager (P j)"
proof -
  let ?r = "case op of ReadOp k \<Rightarrow> kv_get L (store (P n)) k | AppendOp _ _ \<Rightarrow> None"
  let ?resp = "op_response J tx (op_key op) ?r"
  obtain st es where st: "P1 = P(n := (P n)\<lparr>store := st, sent := sent (P n) @ [(local_node_id s, ?resp)], logged := logged (P n) @ es\<rparr>)"
      "kv_wf L st" "kv_get L st = op_write (kv_get L (store (P n))) op"
    using assms(4) serve_operation [OF assms(1,2,3)] unfolding P1_def by metis
  have "[(op_key op, Some (case ?r of None \<Rightarrow> [] | Some vs \<Rightarrow> vs))] = dist_read (view L m s P) op"
    using assms(5,6) by (cases op) (simp_all add: view_def at_node_def)
  with execute_response [OF assms(1,2), of n op X ?r tape s]
  obtain s1 where s1: "exec_ops J server_up X m tx (op # ops) results (Wake (take_answer W J X (n, ?resp)) # tape) s =
        exec_ops J server_up X m tx ops (results @ dist_read (view L m s P) op) tape s1"
      "sent s1 = sent s @ [(n, op_request J tx op)]" "lock_manager s1 = lock_manager s" "store s1 = store s"
      "local_node_id s1 = local_node_id s"
    using assms(5,6) by (auto simp: place_def)
  have "view L m s1 P1 = op_write (view L m s P) op"
    using st s1(4,5) assms(5,6) by (intro view_write) (simp_all add: at_node_def)
  then show ?thesis using st assms(4) by (intro that [of ?resp s1]) (simp_all add: s1 del: exec_ops.simps)
qed

lemma exec_ops_dist:
  fixes J L X m tx ops P
  assumes "boost_ok J" "survives W tx" "executor_ok L X" "kv_wf L (store s)" "\<And>n. kv_wf L (store (P n))"
  defines "ms \<equiv> op_messages J tx (local_node_id s) m ops"
  shows "\<exists>s'. exec_ops J server_up X m tx ops results
      (map (\<lambda>r. Wake (take_answer W J X r)) (replies W J X (local_node_id s) ms P) @ tape) s =
      (Returns (results @ dist_reads (local_node_id s) m (view L m s P) ops), tape, s') \<and>
    sent s' = sent s @ ms \<and> lock_manager s' = lock_manager s \<and> local_node_id s' = local_node_id s \<and>
    view L m s' (serve_all W J X (local_node_id s) ms P) = snd (run_ops (view L m s P) ops) \<and>
    (\<forall>n. lock_manager (serve_all W J X (local_node_id s) ms P n) = lock_manager (P n))"
  unfolding ms_def using assms(4,5)
proof (induction ops arbitrary: s P results)
  case Nil
  then show ?case by (simp add: op_messages_def)
next
  case (Cons op ops)
  let ?here = "local_node_id s" and ?n = "place m (op_key op)"
  show ?case
  proof (cases "?n = ?here")
    case True
    let ?tape = "map (\<lambda>r. Wake (take_answer W J X r)) (replies W J X ?here (op_messages J tx ?here m ops) P) @ tape"
    obtain st where st: "exec_ops J server_up X m tx (op # ops) results ?tape s =
        exec_ops J server_up X m tx ops (results @ op_read (view L m s P) op) ?tape (s\<lparr>store := st\<rparr>)"
        "kv_wf L st" "view L m (s\<lparr>store := st\<rparr>) P = op_write (view L m s P) op"
      by (rule exec_local_view [OF assms(3) Cons.prems(1) True])
    have "op_messages J tx ?here m (op # ops) = op_messages J tx ?here m ops"
      using True by (simp add: op_messages_def place_def)
    with Cons.IH [of "s\<lparr>store := st\<rparr>" P "results @ op_read (view L m s P) op"] st Cons.prems True show ?thesis
      by (simp del: exec_ops.simps)
  next
    case False
    let ?P = "serve W J X ?here (?n, op_request J tx op) P"
    let ?tape = "map (\<lambda>r. Wake (take_answer W J X r)) (replies W J X ?here (op_messages J tx ?here m ops) ?P) @ tape"
    obtain r s1 where r: "snd (last (sent (?P ?n))) = r"
      "exec_ops J server_up X m tx (op # ops) results (Wake (take_answer W J X (?n, r)) # ?tape) s =
        exec_ops J server_up X m tx ops (results @ dist_read (view L m s P) op) ?tape s1"
      and s1: "sent s1 = sent s @ [(?n, op_request J tx op)]" "lock_manager s1 = lock_manager s" "store s1 = store s"
        "local_node_id s1 = ?here" "view L m s1 ?P = op_write (view L m s P) op"
      and P: "\<forall>j. kv_wf L (store (?P j)) \<and> lock_manager (?P j) = lock_manager (P j)"
      by (rule exec_remote_view [OF assms(1,2,3) Cons.prems(2) refl False])
    have "op_messages J tx ?here m (op # ops) = (?n, op_request J tx op) # op_messages J tx ?here m ops"
      using False by (simp add: op_messages_def place_def)
    with Cons.IH [of s1 ?P "results @ dist_read (view L m s P) op"] Cons.prems(1) r s1 P False show ?thesis
      by (simp del: exec_ops.simps)
  qed
qed

section \<open>Shrinking phase\<close>

lemma serve_releases:
  fixes J X here tx
  assumes "boost_ok J" "survives W tx"
  defines "P' \<equiv> \<lambda>ps P. serve_all W J X here (map (release_message J tx) ps) P"
  shows "owner_of (lock_manager (P' ps P n)) k =
      (if (n, k) \<in> set ps \<and> owner_of (lock_manager (P n)) k = Some tx then None else owner_of (lock_manager (P n)) k)"
    and "store (P' ps P n) = store (P n)"
proof -
  have 1: "serve W J X here (n, lock_message J MT_LOCK_RELEASE tx k) P =
      P(n := (P n)\<lparr>lock_manager := release k tx (lock_manager (P n))\<rparr>)" for n k P
    using assms(1,2) dispatch(2) [OF assms(1)] by (simp add: serve_def handle_lock_release_def)
  show "owner_of (lock_manager (P' ps P n)) k =
      (if (n, k) \<in> set ps \<and> owner_of (lock_manager (P n)) k = Some tx then None else owner_of (lock_manager (P n)) k)"
    "store (P' ps P n) = store (P n)"
    unfolding P'_def by (induction ps arbitrary: P) (auto simp: 1 split: if_splits)
qed

section \<open>Routing\<close>

lemma primary_of_next [simp]: "primary_of L (s\<lparr>next_tx_id := x\<rparr>) k = primary_of L s k"
  by (cases "coordinator s") (simp_all add: primary_of_def is_local_key_def split: sum.split bool.split)

lemma categorize_next [simp]: "categorize L (s\<lparr>next_tx_id := x\<rparr>) ops acc = categorize L s ops acc"
  by (induction ops arbitrary: acc) (auto split: sum.split)

lemma categorize_pairs:
  assumes "categorize L s ops (m0, nk0) = Inr (m, nk)" and "pairs_of nk0 = {(n, k). m0 k = Some n}"
    and "\<And>k n. m0 k = Some n \<Longrightarrow> primary_of L s k = Inr n"
  shows "pairs_of nk = {(n, k). m k = Some n} \<and> dom m = dom m0 \<union> op_keys ops"
  using assms
proof (induction ops arbitrary: m0 nk0)
  case (Cons op ops)
  then obtain n where n: "primary_of L s (op_key op) = Inr n"
      "categorize L s ops (m0(op_key op \<mapsto> n), nk_insert n (op_key op) nk0) = Inr (m, nk)"
    by (auto split: sum.splits)
  have "pairs_of (nk_insert n (op_key op) nk0) = {(p, k). (m0(op_key op \<mapsto> n)) k = Some p}"
    using Cons.prems(2,3) n(1) by (auto simp: pairs_of_insert)
  moreover have "\<And>k p. (m0(op_key op \<mapsto> n)) k = Some p \<Longrightarrow> primary_of L s k = Inr p"
    using Cons.prems(3) n(1) by (auto split: if_splits)
  ultimately show ?case using Cons.IH [OF n(2)] by auto
qed simp

lemma categorize_places:
  assumes "categorize L s ops (Map.empty, []) = Inr (m, nk)"
  shows "pairs_of nk = {(place m k, k) |k. k \<in> op_keys ops}"
  using categorize_pairs [OF assms] by (force simp: place_def)

section \<open>Transactions\<close>

lemma distributed_run:
  fixes s :: TwoPLScheduler and P :: peers
  assumes "boost_ok J" "survives W tx" "std_ok L" "executor_ok L X" "kv_wf L (store s)" "\<And>n. kv_wf L (store (P n))"
    and cat: "categorize L s ops (Map.empty, []) = Inr (m, nk)"
    and "tx_inv tx (lock_manager s)" and "pending_of s tx = []"
    and "\<And>k. k \<in> op_keys ops \<Longrightarrow> place m k = local_node_id s \<Longrightarrow> owner_of (lock_manager s) k = None"
    and "\<And>k. owner_of (lock_manager s) k \<noteq> Some tx" and "\<And>n k. owner_of (lock_manager (P n)) k \<noteq> Some tx"
  defines "here \<equiv> local_node_id s"
  shows "\<exists>s' P'. execute_with_distributed_support L J server_up X (\<lambda>_. quiet)
      (responsive W J X here (lock_requests L J tx here nk) (op_messages J tx here m ops) P) ops tx s =
      (Returns (dist_reads here m (view L m s P) ops), [], s') \<and>
    P' = serve_all W J X here (drop (length (sent s)) (sent s')) P \<and>
    view L m s' P' = snd (run_ops (view L m s P) ops) \<and>
    (\<forall>k. owner_of (lock_manager s') k = owner_of (lock_manager s) k) \<and>
    (\<forall>n k. owner_of (lock_manager (P' n)) k = owner_of (lock_manager (P n)) k)"
proof -
  let ?ps = "key_pairs L (remote_keys L here nk)" and ?ms = "op_messages J tx here m ops"
  let ?P1 = "serve_all W J X here (map (request_message J tx) ?ps) P"
  let ?tape = "map (\<lambda>r. Wake (take_answer W J X r)) (replies W J X here ?ms ?P1)"
  have "\<forall>k. (local_node_id s, k) \<in> pairs_of nk \<longrightarrow> owner_of (lock_manager s) k = None"
    using assms(10) unfolding categorize_places [OF cat] by auto
  from growing_phase_dist [OF assms(1,2,3,8,9) this, of X here ?ms P]
  obtain lm pend where s1: "acquire_all_locks L J server_up (\<lambda>_. quiet) (responsive W J X here (lock_requests L J tx here nk) ?ms P) nk tx s =
      (Returns True, ?tape, s\<lparr>lock_manager := lm, pending_remote_locks := pend, sent := sent s @ map (request_message J tx) ?ps\<rparr>)"
      and lm: "\<And>k. owner_of (release_all L tx lm) k = owner_of (lock_manager s) k"
    using assms(11) by (auto simp: here_def)
  define s1 where "s1 = s\<lparr>lock_manager := lm, pending_remote_locks := pend, sent := sent s @ map (request_message J tx) ?ps\<rparr>"
  have st: "store (?P1 n) = store (P n)" for n by (rule serve_requests(2) [OF assms(1,2)])
  then have v1: "view L m s1 ?P1 = view L m s P" by (auto simp: view_def at_node_def s1_def fun_eq_iff)
  obtain s2 where s2: "exec_ops J server_up X m tx ops [] ?tape s1 = (Returns (dist_reads here m (view L m s P) ops), [], s2)"
      "sent s2 = sent s1 @ ?ms" "lock_manager s2 = lm" "local_node_id s2 = here"
      "view L m s2 (serve_all W J X here ?ms ?P1) = snd (run_ops (view L m s P) ops)"
      "\<And>n. lock_manager (serve_all W J X here ?ms ?P1 n) = lock_manager (?P1 n)"
    using exec_ops_dist [OF assms(1,2,4), of s1 ?P1 m ops "[]" "[]"] assms(5,6) st v1 by (auto simp: s1_def here_def)
  let ?rel = "filter (\<lambda>(n, k). n \<noteq> here) (key_pairs L nk)"
  let ?s3 = "s2\<lparr>lock_manager := release_all L tx lm, sent := sent s2 @ map (release_message J tx) ?rel\<rparr>"
  let ?P3 = "serve_all W J X here (map (release_message J tx) ?rel) (serve_all W J X here ?ms ?P1)"
  have "release_all_locks L J server_up nk tx s2 = (Inr (), ?s3)"
    using s2(3,4) by (simp add: release_all_locks_def Let_def send_each_up)
  then have "execute_with_distributed_support L J server_up X (\<lambda>_. quiet)
      (responsive W J X here (lock_requests L J tx here nk) ?ms P) ops tx s = (Returns (dist_reads here m (view L m s P) ops), [], ?s3)"
    using cat s1 s2(1) by (simp add: execute_with_distributed_support_def s1_def)
  moreover have "?P3 = serve_all W J X here (drop (length (sent s)) (sent ?s3)) P" using s2(2) by (simp add: s1_def)
  moreover have "view L m ?s3 ?P3 = view L m s2 (serve_all W J X here ?ms ?P1)"
    by (auto simp: view_def at_node_def fun_eq_iff serve_releases(2) [OF assms(1,2)])
  moreover have "owner_of (lock_manager (?P3 n)) k = owner_of (lock_manager (P n)) k" for n k
    using remote_keys_pairs [OF assms(3), of here nk] assms(12) [of n k]
    by (auto simp: serve_releases(1) [OF assms(1,2)] s2(6) serve_requests(1) [OF assms(1,2)] takes_def)
  ultimately show ?thesis using s2(5) lm by auto
qed


section \<open>Witnesses\<close>

text \<open>Node 0 runs a transaction on its own key 4 and on key 5 of node 1.\<close>

abbreviation route_ops :: "Operation list" where
  "route_ops \<equiv> [AppendOp 5 3, ReadOp 5, ReadOp 4]"

lemma demo_route:
  obtains m nk where "categorize std_ref sched_cluster route_ops (Map.empty, []) = Inr (m, nk)" "place m 4 = 0" "place m 5 = 1"
proof -
  have "primary_of std_ref sched_cluster 4 = Inr 0" "primary_of std_ref sched_cluster 5 = Inr 1" by code_simp+
  then show ?thesis by (intro that) (auto simp: place_def)
qed


section \<open>Without answers\<close>

text \<open>
  Threads that run while a transaction waits, that neither handle an answer to its lock
  requests nor write to the store.
\<close>

definition unanswered :: "TransactionId \<Rightarrow> wait_event list \<Rightarrow> bool" where
  "unanswered tx tape \<longleftrightarrow> (\<forall>f. Wake f \<in> set tape \<or> Timeout f \<in> set tape \<longrightarrow>
     (\<forall>s. pending_remote_locks (f s) tx = pending_remote_locks s tx \<and> store (f s) = store s))"

lemma unanswered_Cons:
  "unanswered tx (Wake f # tape) \<longleftrightarrow>
     (\<forall>s. pending_remote_locks (f s) tx = pending_remote_locks s tx \<and> store (f s) = store s) \<and> unanswered tx tape"
  "unanswered tx (Timeout f # tape) \<longleftrightarrow>
     (\<forall>s. pending_remote_locks (f s) tx = pending_remote_locks s tx \<and> store (f s) = store s) \<and> unanswered tx tape"
  by (auto simp: unanswered_def)

lemma send_each_frame:
  "send_each S ms s = (r, s') \<Longrightarrow> store s' = store s \<and> pending_remote_locks s' = pending_remote_locks s \<and> lock_manager s' = lock_manager s"
  by (induction ms arbitrary: s) (auto simp: send_def split: prod.splits sum.splits option.splits)

lemma wait_unanswered:
  "wait_remote_locks L J S tx tape s = (out, tape', s') \<Longrightarrow> pending_of s tx \<noteq> [] \<Longrightarrow> unanswered tx tape \<Longrightarrow>
   out \<noteq> Returns True \<and> store s' = store s"
proof (induction tape arbitrary: s)
  case Nil
  then show ?case by (subst (asm) wait_remote_locks.simps) (auto simp: Let_def touch_pending_def pending_of_def)
next
  case (Cons ev tape)
  have p: "pending_of (touch_pending tx s) tx = pending_of s tx" "store (touch_pending tx s) = store s"
    by (simp_all add: touch_pending_def pending_of_def)
  show ?case
  proof (cases ev)
    case (Wake f)
    then have w: "wait_remote_locks L J S tx tape (f (touch_pending tx s)) = (out, tape', s')"
      using Cons.prems(1,2) p by (subst (asm) wait_remote_locks.simps) (simp add: Let_def)
    have f: "pending_remote_locks (f (touch_pending tx s)) tx = pending_remote_locks (touch_pending tx s) tx"
        "store (f (touch_pending tx s)) = store s" "unanswered tx tape"
      using Cons.prems(3) Wake p(2) by (auto simp: unanswered_Cons)
    then have "pending_of (f (touch_pending tx s)) tx \<noteq> []" using Cons.prems(2) p(1) by (simp add: pending_of_def)
    from Cons.IH [OF w this f(3)] f(2) show ?thesis by simp
  next
    case (Timeout f)
    then show ?thesis
      using Cons.prems p
      by (subst (asm) wait_remote_locks.simps)
         (auto simp: Let_def unanswered_Cons touch_pending_def split: prod.splits sum.splits dest!: send_each_frame)
  qed
qed

lemma acquire_unanswered:
  assumes "std_ok L" and "unanswered tx tape" and "remote_pairs (local_node_id s) nk \<noteq> {}"
    and "acquire_all_locks L J S envs tape nk tx s = (out, tape', s')"
  shows "out \<noteq> Returns True \<and> store s' = store s"
proof -
  let ?rk = "remote_keys L (local_node_id s) nk"
  have ps: "set (key_pairs L ?rk) \<noteq> {}" using assms(3) remote_keys_pairs(1) [OF assms(1)] by simp
  then obtain q qs where q: "key_pairs L ?rk = q # qs" by (cases "key_pairs L ?rk") auto
  have rk: "?rk \<noteq> []" using ps key_pairs_set [OF assms(1), of ?rk] by (metis pairs_of_empty)
  have remote: "out \<noteq> Returns True \<and> store s' = store s1"
    if r: "acquire_remote_locks_with_retry L J S tape ?rk tx s1 = (out, tape', s')" for s1 out tape' s'
  proof -
    obtain pm where pm: "foldl (\<lambda>s nk. add_pending tx nk s) s1 (q # qs) =
        s1\<lparr>pending_remote_locks := (pending_remote_locks s1)(tx \<mapsto> pm)\<rparr>" "pairs_of pm = pairs_of (pending_of s1 tx) \<union> set (q # qs)"
      using add_pending_all by blast
    define s2 where "s2 = s1\<lparr>pending_remote_locks := (pending_remote_locks s1)(tx \<mapsto> pm)\<rparr>"
    obtain x s3 where s3: "send_each S (map (request_message J tx) (q # qs)) s2 = (x, s3)" by force
    have "pm \<noteq> []" using pm(2) by auto
    then have "pending_of s3 tx \<noteq> []" "store s3 = store s1" using send_each_frame [OF s3] by (simp_all add: pending_of_def s2_def)
    with r pm(1) s3 show ?thesis
      unfolding acquire_remote_locks_with_retry_def q Let_def s2_def
      by (auto simp del: send_each.simps list.map foldl_Cons split: sum.splits dest!: wait_unanswered [OF _ _ assms(2)])
  qed
  show ?thesis
    using assms(4) rk
    by (auto simp: acquire_all_locks_def Let_def split: prod.splits bool.splits outcome.splits dest!: remote)
qed

text \<open>
  C18 (without answers no operation is executed). A transaction that has a key on another
  node and whose lock requests are not answered never gets to its execution phase: it
  returns the empty result, throws, or waits, and the store is as before.
\<close>

theorem unanswered_not_executed:
  assumes "std_ok L" and "unanswered (next_tx_id s) tape" and "categorize L s ops (Map.empty, []) = Inr (m, nk)"
    and "k \<in> op_keys ops" and "place m k \<noteq> local_node_id s"
    and "execute_transaction L J S X envs tape ops s = (out, tape', s')"
  shows "(out = Returns [] \<or> (\<exists>e. out = Throws e) \<or> out = Blocked) \<and> store s' = store s"
proof -
  let ?tx = "next_tx_id s" and ?s = "s\<lparr>next_tx_id := next_tx_id s + 1\<rparr>"
  have "(place m k, k) \<in> remote_pairs (local_node_id ?s) nk"
    unfolding remote_pairs_def categorize_places [OF assms(3)] using assms(4,5) by auto
  then have ne: "remote_pairs (local_node_id ?s) nk \<noteq> {}" by blast
  obtain o1 tape1 s1 where a: "acquire_all_locks L J S envs tape nk ?tx ?s = (o1, tape1, s1)" by (metis prod.exhaust)
  have "o1 \<noteq> Returns True" "store s1 = store s" using acquire_unanswered [OF assms(1,2) ne a] by simp_all
  with a assms(3,6) show ?thesis
    by (auto simp: execute_transaction_def execute_with_distributed_support_def split: outcome.splits bool.splits)
qed

theorem unanswered_not_executed_witness:
  "\<exists>out tape' s'. execute_transaction std_ref boost_ref server_up (executor_ref std_ref) (\<lambda>_. quiet) [Timeout (\<lambda>s. s)]
      route_ops sched_cluster = (out, tape', s') \<and> (out = Returns [] \<or> (\<exists>e. out = Throws e) \<or> out = Blocked) \<and>
    store s' = empty_store"
proof -
  obtain m nk where m: "categorize std_ref sched_cluster route_ops (Map.empty, []) = Inr (m, nk)" "place m 4 = 0" "place m 5 = 1"
    by (rule demo_route)
  obtain out tape' s' where r: "execute_transaction std_ref boost_ref server_up (executor_ref std_ref) (\<lambda>_. quiet)
      [Timeout (\<lambda>s. s)] route_ops sched_cluster = (out, tape', s')"
    by (metis prod.exhaust)
  have "store sched_cluster = empty_store" by (simp add: sched_cluster_def)
  moreover have "unanswered (next_tx_id sched_cluster) [Timeout (\<lambda>s. s)]" by (simp add: unanswered_def)
  ultimately show ?thesis
    using unanswered_not_executed [OF std_ref_ok _ m(1) _ _ r, of 5] m(3) r by auto
qed

section \<open>Over the wire\<close>

text \<open>
  What happens on a node while its transactions wait, when the messages of the schedulers,
  requests and answers alike, are serialized and parsed on their way and have ids below
  2^63: any number of them are handled, from any peers.
\<close>

inductive wired :: "(json \<Rightarrow> json) \<Rightarrow> boost_json \<Rightarrow> (TwoPLScheduler \<Rightarrow> TwoPLScheduler) \<Rightarrow> bool" for W J where
  wired_none: "wired W J (\<lambda>s. s)"
| wired_message: "wired W J f \<Longrightarrow> made J msg \<Longrightarrow>
    wired W J (\<lambda>s. snd (handle_peer_message J S X env peer (received W msg) (f s)))"

lemma wired_logs:
  assumes "boost_ok J" "wire_ok W" "wired W J f"
  shows "\<exists>es. f s = s\<lparr>logged := logged s @ es\<rparr>"
  using assms(3)
proof induction
  case wired_none
  show ?case by (rule exI [of _ "[]"]) simp
next
  case (wired_message f msg S X env peer)
  obtain ob where ob: "W (JObject msg) = JObject ob" using wire_object [OF assms(2)] by blast
  have "handle_peer_message J S X env peer (received W msg) (f s) = (Inr (), log_error (SystemError ''not_kind'') (f s))"
    using received_made [OF assms(1,2) wired_message.hyps(2) ob] ob by (simp add: received_def)
  with wired_message.IH show ?case by (auto simp: log_error_def)
qed

lemma wired_unanswered:
  assumes "boost_ok J" "wire_ok W" "list_all (wired W J) gs"
  shows "unanswered tx (map Wake gs @ [Timeout g]) \<longleftrightarrow> unanswered tx [Timeout g]" "wired W J g \<Longrightarrow> unanswered tx [Timeout g]"
proof -
  have keeps: "pending_remote_locks (f s) tx = pending_remote_locks s tx \<and> store (f s) = store s" if "wired W J f" for f s
    using wired_logs [OF assms(1,2) that, of s] by auto
  show "unanswered tx (map Wake gs @ [Timeout g]) \<longleftrightarrow> unanswered tx [Timeout g]"
    using assms(3) by (induction gs) (simp_all add: unanswered_Cons keeps)
  show "wired W J g \<Longrightarrow> unanswered tx [Timeout g]" by (auto simp: unanswered_def keeps)
qed

text \<open>A wait with a deadline ends.\<close>

lemma wait_ends: "fst (wait_remote_locks L J S tx (map Wake gs @ Timeout g # tape) s) \<noteq> Blocked"
proof (induction gs arbitrary: s)
  case Nil
  show ?case by (subst list.map, subst append_Nil, subst wait_remote_locks.simps) (simp add: Let_def split: prod.split sum.split)
next
  case (Cons f gs)
  then show ?case by (subst list.map, subst append_Cons, subst wait_remote_locks.simps) (simp add: Let_def)
qed

lemma acquire_ends: "fst (acquire_all_locks L J S envs (map Wake gs @ Timeout g # tape) m tx s) \<noteq> Blocked"
  using wait_ends [of L J S tx gs g tape]
  by (auto simp: acquire_all_locks_def acquire_remote_locks_with_retry_def Let_def
      split: prod.split sum.split bool.split outcome.split) (metis fst_conv)+

text \<open>
  C11 (over the wire no distributed transaction is executed). While a transaction that has
  a key on another node waits for its locks, let any number of messages of other
  schedulers be handled, requests and answers alike, all of them with ids below 2^63 and
  serialized and parsed on their way; then the deadline passes. Whatever the server and
  the peers do, the transaction returns the empty result of an aborted one or throws, and
  the store is as before: the parser has changed the kind of every id.
\<close>

theorem wire_transaction_fails:
  assumes "std_ok L" "boost_ok J" "wire_ok W" "list_all (wired W J) (g # gs)"
    and "categorize L s ops (Map.empty, []) = Inr (m, nk)" and "k \<in> op_keys ops" and "place m k \<noteq> local_node_id s"
    and "execute_transaction L J S X envs (map Wake gs @ [Timeout g]) ops s = (out, tape', s')"
  shows "(out = Returns [] \<or> (\<exists>e. out = Throws e)) \<and> store s' = store s"
proof -
  let ?tx = "next_tx_id s" and ?s = "s\<lparr>next_tx_id := next_tx_id s + 1\<rparr>" and ?tape = "map Wake gs @ [Timeout g]"
  have un: "unanswered ?tx ?tape" using wired_unanswered [OF assms(2,3), where gs = gs and tx = ?tx and g = g] assms(4) by simp
  have "(place m k, k) \<in> remote_pairs (local_node_id ?s) nk"
    unfolding remote_pairs_def categorize_places [OF assms(5)] using assms(6,7) by auto
  then have ne: "remote_pairs (local_node_id ?s) nk \<noteq> {}" by blast
  obtain o1 tape1 s1 where a: "acquire_all_locks L J S envs ?tape nk ?tx ?s = (o1, tape1, s1)" by (metis prod.exhaust)
  have "o1 \<noteq> Returns True" "store s1 = store s" using acquire_unanswered [OF assms(1) un ne a] by simp_all
  moreover have "o1 \<noteq> Blocked" using acquire_ends [of L J S envs gs g "[]" nk ?tx ?s] a by simp
  ultimately show ?thesis
    using a assms(5,8)
    by (auto simp: execute_transaction_def execute_with_distributed_support_def split: outcome.splits bool.splits)
qed

text \<open>A grant of the lock, sent by node 1 over the wire.\<close>

theorem wire_transaction_fails_witness:
  "\<exists>out tape' s'. execute_transaction std_ref boost_ref server_up (executor_ref std_ref) (\<lambda>_. quiet)
      [Wake (\<lambda>s. snd (handle_peer_message boost_ref server_up (executor_ref std_ref) quiet 1
         (received wire_ref (lock_message boost_ref MT_LOCK_GRANTED (next_tx_id sched_cluster) 5)) s)), Timeout (\<lambda>s. s)]
      route_ops sched_cluster = (out, tape', s') \<and> (out = Returns [] \<or> (\<exists>e. out = Throws e)) \<and> store s' = empty_store"
proof -
  obtain m nk where m: "categorize std_ref sched_cluster route_ops (Map.empty, []) = Inr (m, nk)" "place m 4 = 0" "place m 5 = 1"
    by (rule demo_route)
  let ?msg = "lock_message boost_ref MT_LOCK_GRANTED (next_tx_id sched_cluster) 5"
  let ?f = "\<lambda>s. snd (handle_peer_message boost_ref server_up (executor_ref std_ref) quiet 1 (received wire_ref ?msg) s)"
  have "unat (next_tx_id sched_cluster) < 2 ^ 63" by (simp add: sched_cluster_def)
  then have "made boost_ref ?msg" unfolding made_def by blast
  then have f: "list_all (wired wire_ref boost_ref) [\<lambda>s. s, ?f]"
    using wired.intros(2) [OF wired.intros(1)] by (simp add: wired.intros(1))
  obtain out tape' s' where r: "execute_transaction std_ref boost_ref server_up (executor_ref std_ref) (\<lambda>_. quiet)
      [Wake ?f, Timeout (\<lambda>s. s)] route_ops sched_cluster = (out, tape', s')"
    by (metis prod.exhaust)
  have "store sched_cluster = empty_store" by (simp add: sched_cluster_def)
  with wire_transaction_fails [OF std_ref_ok boost_ref_ok wire_ref_ok f m(1), of 5] m(3) r show ?thesis by auto
qed

end
