(* ===== verification/Store_Mutexes.thy ===== *)
theory Store_Mutexes
  imports KVStore Mutual_Exclusion
begin

text \<open>
  The stripe mutexes of \<open>ThreadSafeKVStore\<close>. In \<open>KVStore\<close> a call of \<open>get\<close> or \<open>append\<close> is
  one function on the whole store; here any number of threads call them at the same time,
  and locking the mutex of the stripe, \<open>partition.contains(key)\<close>, every access that
  follows and unlocking are steps of their own. The theory shows that every behaviour of
  the threads is one of the functions of \<open>KVStore\<close>, called one after the other
  (linearizability), that no two threads are at the same partition, and that all calls
  return.
\<close>

section \<open>Threads\<close>

datatype store_call = GetCall KeyType | AppendCall KeyType ValueType

fun call_key :: "store_call \<Rightarrow> KeyType" where
  "call_key (GetCall k) = k"
| "call_key (AppendCall k v) = k"

text \<open>
  What a thread does next in its current call: lock the mutex, ask whether the key is
  there, use what it has found or create the element, append to the container that
  \<open>partition[key]\<close> has returned a reference to, unlock and return. \<open>get\<close> and \<open>append\<close> are
  \<open>noexcept\<close>: an exception would be the end of the process, \<open>Terminated\<close>.
\<close>

datatype store_pc =
    Calling
  | Asking
  | Present
  | Missing
  | PushBack
  | Unlocking "ValueContainer option"
  | Terminated

text \<open>
  The current call of a thread is the first of \<open>st_calls\<close>; \<open>st_returned\<close> are the calls that
  have returned, with their results (\<open>None\<close> for an \<open>append\<close>).
\<close>

record store_thread =
  st_calls :: "store_call list"
  st_pc :: store_pc
  st_returned :: "(store_call \<times> ValueContainer option) list"

text \<open>\<open>store_history\<close> are the calls that have taken effect, in that order, with their threads.\<close>

record store_system =
  stripe_mutex :: "nat \<Rightarrow> nat option"
  store_shared :: ThreadSafeKVStore
  store_threads :: "store_thread list"
  store_history :: "(nat \<times> store_call \<times> ValueContainer option) list"

definition init_store_system :: "store_call list list \<Rightarrow> store_system" where
  "init_store_system progs =
     \<lparr>stripe_mutex = (\<lambda>_. None), store_shared = empty_store,
      store_threads = map (\<lambda>cs. \<lparr>st_calls = cs, st_pc = Calling, st_returned = []\<rparr>) progs, store_history = []\<rparr>"

section \<open>Steps\<close>

definition set_partition :: "stdlib \<Rightarrow> KeyType \<Rightarrow> (KeyType \<rightharpoonup> ValueContainer) \<Rightarrow> ThreadSafeKVStore \<Rightarrow> ThreadSafeKVStore" where
  "set_partition L key p st =
     (let n = get_stripe_index L key in st\<lparr>stripes := (stripes st)[n := (stripes st ! n)\<lparr>stripe_partition := p\<rparr>]\<rparr>)"

text \<open>
  The accesses to the partition, with the mutex locked. \<open>at\<close> throws if the key is not
  there.
\<close>

fun get_access :: "stdlib \<Rightarrow> KeyType \<Rightarrow> store_pc \<Rightarrow> ThreadSafeKVStore \<Rightarrow> store_pc \<times> ThreadSafeKVStore" where
  "get_access L key Asking st =
     (if key \<in> dom (stripe_partition (get_stripe L st key)) then Present else Missing, st)"
| "get_access L key Present st =
     (case stripe_partition (get_stripe L st key) key of
        None \<Rightarrow> (Terminated, st)
      | Some vs \<Rightarrow> (Unlocking (Some vs), st))"
| "get_access L key Missing st = (Unlocking None, st)"
| "get_access L key p st = (p, st)"

text \<open>
  \<open>partition[key]\<close> creates an empty container if there is none, \<open>push_back\<close> appends to the
  container of the reference, \<open>emplace\<close> does nothing if the key is there already.
\<close>

fun append_access :: "stdlib \<Rightarrow> KeyType \<Rightarrow> ValueType \<Rightarrow> store_pc \<Rightarrow> ThreadSafeKVStore \<Rightarrow> store_pc \<times> ThreadSafeKVStore" where
  "append_access L key v Asking st =
     (if key \<in> dom (stripe_partition (get_stripe L st key)) then Present else Missing, st)"
| "append_access L key v Present st =
     (let p = stripe_partition (get_stripe L st key)
      in (PushBack, set_partition L key (if key \<in> dom p then p else p(key \<mapsto> [])) st))"
| "append_access L key v PushBack st =
     (let p = stripe_partition (get_stripe L st key)
      in case p key of
           None \<Rightarrow> (Terminated, st)
         | Some vs \<Rightarrow> (Unlocking None, set_partition L key (p(key \<mapsto> vs @ [v])) st))"
| "append_access L key v Missing st =
     (let p = stripe_partition (get_stripe L st key)
      in (Unlocking None, set_partition L key (if key \<in> dom p then p else p(key \<mapsto> [v])) st))"
| "append_access L key v p st = (p, st)"

fun store_access :: "stdlib \<Rightarrow> store_call \<Rightarrow> store_pc \<Rightarrow> ThreadSafeKVStore \<Rightarrow> store_pc \<times> ThreadSafeKVStore" where
  "store_access L (GetCall k) = get_access L k"
| "store_access L (AppendCall k v) = append_access L k v"

text \<open>A call takes effect with the access after which it has its result.\<close>

fun takes_effect :: "nat \<Rightarrow> store_call \<Rightarrow> store_pc \<Rightarrow> (nat \<times> store_call \<times> ValueContainer option) list" where
  "takes_effect i c (Unlocking r) = [(i, c, r)]"
| "takes_effect i c _ = []"

text \<open>
  The step of thread \<open>i\<close> in call \<open>c\<close>. \<open>None\<close>: the mutex of the stripe is locked, or the
  process has ended.
\<close>

fun call_step :: "stdlib \<Rightarrow> nat \<Rightarrow> store_thread \<Rightarrow> store_call \<Rightarrow> store_pc \<Rightarrow> store_system \<Rightarrow> store_system option" where
  "call_step L i t c Calling s =
     (let n = get_stripe_index L (call_key c)
      in if stripe_mutex s n = None
         then Some (s\<lparr>stripe_mutex := (stripe_mutex s)(n := Some i), store_threads := (store_threads s)[i := t\<lparr>st_pc := Asking\<rparr>]\<rparr>)
         else None)"
| "call_step L i t c (Unlocking r) s =
     Some (s\<lparr>stripe_mutex := (stripe_mutex s)(get_stripe_index L (call_key c) := None),
             store_threads := (store_threads s)[i := t\<lparr>st_calls := tl (st_calls t), st_pc := Calling,
               st_returned := st_returned t @ [(c, r)]\<rparr>]\<rparr>)"
| "call_step L i t c Terminated s = None"
| "call_step L i t c p s =
     (case store_access L c p (store_shared s) of
        (p', st) \<Rightarrow> Some (s\<lparr>store_shared := st, store_threads := (store_threads s)[i := t\<lparr>st_pc := p'\<rparr>],
          store_history := store_history s @ takes_effect i c p'\<rparr>))"

definition store_step :: "stdlib \<Rightarrow> nat \<Rightarrow> store_system \<Rightarrow> store_system option" where
  "store_step L i s =
     (if i < length (store_threads s)
      then (case st_calls (store_threads s ! i) of
              [] \<Rightarrow> None
            | c # cs \<Rightarrow> call_step L i (store_threads s ! i) c (st_pc (store_threads s ! i)) s)
      else None)"

fun run_store :: "stdlib \<Rightarrow> nat list \<Rightarrow> store_system \<Rightarrow> store_system option" where
  "run_store L [] s = Some s"
| "run_store L (i # is) s = (case store_step L i s of None \<Rightarrow> None | Some s' \<Rightarrow> run_store L is s')"

section \<open>The specification\<close>

text \<open>A whole call at once, and the replay of a history, which fails at a result that is not the one of the call.\<close>

fun whole_call :: "stdlib \<Rightarrow> store_call \<Rightarrow> ThreadSafeKVStore \<Rightarrow> ValueContainer option \<times> ThreadSafeKVStore" where
  "whole_call L (GetCall k) st = (kv_get L st k, st)"
| "whole_call L (AppendCall k v) st = (None, kv_append L st k v)"

fun replay :: "stdlib \<Rightarrow> (nat \<times> store_call \<times> ValueContainer option) list \<Rightarrow> ThreadSafeKVStore \<Rightarrow> ThreadSafeKVStore option" where
  "replay L [] st = Some st"
| "replay L ((i, c, r) # h) st = (case whole_call L c st of (r', st') \<Rightarrow> if r = r' then replay L h st' else None)"

lemma replay_append: "replay L (h @ h') st = (case replay L h st of None \<Rightarrow> None | Some st' \<Rightarrow> replay L h' st')"
  by (induction h arbitrary: st) (auto split: prod.split)

section \<open>The invariant\<close>

lemma set_partition_id: "set_partition L k (stripe_partition (get_stripe L st k)) st = st"
  by (simp add: set_partition_def get_stripe_def Let_def)

lemma kv_append_set_partition:
  "kv_append L st k v = set_partition L k ((stripe_partition (get_stripe L st k))
     (k \<mapsto> (case kv_get L st k of None \<Rightarrow> [] | Some vs \<Rightarrow> vs) @ [v])) st"
  by (auto simp: kv_append_def set_partition_def get_stripe_def kv_get_eq Let_def split: option.split)

text \<open>What a thread knows of the store at its place in the current call.\<close>

fun knows_at :: "stdlib \<Rightarrow> ThreadSafeKVStore \<Rightarrow> store_call \<Rightarrow> store_pc \<Rightarrow> bool" where
  "knows_at L st c Present \<longleftrightarrow> kv_get L st (call_key c) \<noteq> None"
| "knows_at L st c Missing \<longleftrightarrow> kv_get L st (call_key c) = None"
| "knows_at L st c PushBack \<longleftrightarrow> kv_get L st (call_key c) \<noteq> None \<and> c \<noteq> GetCall (call_key c)"
| "knows_at L st c Terminated \<longleftrightarrow> False"
| "knows_at L st c _ \<longleftrightarrow> True"

fun accessing :: "store_pc \<Rightarrow> bool" where
  "accessing Asking = True"
| "accessing Present = True"
| "accessing Missing = True"
| "accessing PushBack = True"
| "accessing _ = False"

text \<open>
  An access with the knowledge of the place keeps the store as it is, or does what the whole
  call does, with its result.
\<close>

lemma store_access_whole:
  assumes "store_access L c p st = (p', st')" and "knows_at L st c p" and "accessing p" and "kv_wf L st"
  shows "(accessing p' \<and> st' = st \<or> (\<exists>r. p' = Unlocking r \<and> whole_call L c st = (r, st'))) \<and> knows_at L st' c p'"
proof (cases c)
  case (GetCall k)
  with assms show ?thesis
    by (cases p) (auto simp: kv_get_eq get_stripe_def dom_def split: option.splits if_splits)
next
  case (AppendCall k v)
  with assms show ?thesis
    by (cases p) (auto simp: kv_get_eq get_stripe_def dom_def Let_def kv_append_set_partition
      set_partition_id [unfolded get_stripe_def] split: option.splits if_splits)
qed

lemma whole_call_other:
  "kv_wf L st \<Longrightarrow> j \<noteq> call_key c \<Longrightarrow> kv_get L (snd (whole_call L c st)) j = kv_get L st j"
  by (cases c) (simp_all add: kv_get_append_other)

lemma whole_call_wf: "kv_wf L st \<Longrightarrow> kv_wf L (snd (whole_call L c st))"
  by (cases c) simp_all

fun knows :: "stdlib \<Rightarrow> ThreadSafeKVStore \<Rightarrow> store_call list \<Rightarrow> store_pc \<Rightarrow> bool" where
  "knows L st [] p \<longleftrightarrow> p = Calling"
| "knows L st (c # cs) p \<longleftrightarrow> knows_at L st c p"

text \<open>The thread has locked the mutex of stripe \<open>n\<close>.\<close>

definition in_stripe :: "stdlib \<Rightarrow> nat \<Rightarrow> store_thread \<Rightarrow> bool" where
  "in_stripe L n t \<longleftrightarrow> st_calls t \<noteq> [] \<and> st_pc t \<noteq> Calling \<and> get_stripe_index L (call_key (hd (st_calls t))) = n"

lemma store_access_inside: "accessing p \<Longrightarrow> fst (store_access L c p st) \<noteq> Calling"
  by (cases c; cases p) (auto simp: Let_def split: option.split)

text \<open>A step locks, accesses the partition, or unlocks and returns.\<close>

lemma store_step_cases [consumes 1, case_names lock access unlock]:
  assumes "store_step L i s = Some s'"
  obtains t c cs n where "i < length (store_threads s)" "store_threads s ! i = t" "st_calls t = c # cs"
      "n = get_stripe_index L (call_key c)" "st_pc t = Calling" "stripe_mutex s n = None"
      "s' = s\<lparr>stripe_mutex := (stripe_mutex s)(n := Some i), store_threads := (store_threads s)[i := t\<lparr>st_pc := Asking\<rparr>]\<rparr>"
  | t c cs p st where "i < length (store_threads s)" "store_threads s ! i = t" "st_calls t = c # cs"
      "accessing (st_pc t)" "store_access L c (st_pc t) (store_shared s) = (p, st)"
      "s' = s\<lparr>store_shared := st, store_threads := (store_threads s)[i := t\<lparr>st_pc := p\<rparr>],
         store_history := store_history s @ takes_effect i c p\<rparr>"
  | t c cs r where "i < length (store_threads s)" "store_threads s ! i = t" "st_calls t = c # cs" "st_pc t = Unlocking r"
      "s' = s\<lparr>stripe_mutex := (stripe_mutex s)(get_stripe_index L (call_key c) := None),
         store_threads := (store_threads s)[i := t\<lparr>st_calls := cs, st_pc := Calling, st_returned := st_returned t @ [(c, r)]\<rparr>]\<rparr>"
proof -
  obtain t c cs where i: "i < length (store_threads s)" "store_threads s ! i = t" "st_calls t = c # cs"
    and st: "call_step L i t c (st_pc t) s = Some s'"
    using assms by (auto simp: store_step_def split: if_splits list.splits)
  show thesis
  proof (cases "accessing (st_pc t)")
    case True
    moreover obtain p st' where acc: "store_access L c (st_pc t) (store_shared s) = (p, st')" by fastforce
    ultimately show thesis using that(2) [OF i _ acc] st by (cases "st_pc t") auto
  next
    case False
    then show thesis using that(1,3) [OF i] st i(3) by (cases "st_pc t") (auto simp: Let_def split: if_splits)
  qed
qed

lemma store_step_threads:
  "store_step L i s = Some s' \<Longrightarrow>
     i < length (store_threads s) \<and> store_threads s' = (store_threads s)[i := store_threads s' ! i]"
  by (cases rule: store_step_cases) auto

lemma store_step_moves:
  assumes "store_step L i s = Some s'"
  shows "moves i (in_stripe L n (store_threads s ! i)) (in_stripe L n (store_threads s' ! i)) (stripe_mutex s n) (stripe_mutex s' n)"
  using assms
proof (cases rule: store_step_cases)
  case (access t c cs p st)
  moreover have "p \<noteq> Calling" "st_pc t \<noteq> Calling"
    using store_access_inside [OF access(4), of L c "store_shared s"] access(4,5) by auto
  ultimately show ?thesis by (auto simp: moves_def in_stripe_def)
qed (auto simp: moves_def in_stripe_def)

interpretation stripe: mutex_user "store_step L" store_threads "\<lambda>s. stripe_mutex s n" "in_stripe L n" for L n
  by unfold_locales (metis store_step_threads store_step_moves length_list_update nth_list_update_neq)

definition stripes_inv :: "stdlib \<Rightarrow> store_system \<Rightarrow> bool" where
  "stripes_inv L s \<longleftrightarrow> (\<forall>n. guarded (stripe_mutex s n) (in_stripe L n) (store_threads s)) \<and> kv_wf L (store_shared s) \<and>
     replay L (store_history s) empty_store = Some (store_shared s) \<and>
     (\<forall>t \<in> set (store_threads s). knows L (store_shared s) (st_calls t) (st_pc t))"

lemma knows_Calling [simp]: "knows L st cs Calling"
  by (cases cs) simp_all

lemma stripes_inv_init: "stripes_inv L (init_store_system progs)"
  by (auto simp: stripes_inv_def init_store_system_def in_stripe_def intro!: guarded_none)

text \<open>The knowledge of a thread does not depend on stripes other than the one it has locked.\<close>

lemma knows_other:
  assumes "knows L st (st_calls t) (st_pc t)"
    and "\<And>k. in_stripe L (get_stripe_index L k) t \<Longrightarrow> kv_get L st' k = kv_get L st k"
  shows "knows L st' (st_calls t) (st_pc t)"
proof (cases "st_calls t")
  case (Cons c cs)
  with assms show ?thesis by (cases "st_pc t") (auto simp: in_stripe_def)
qed (use assms in simp)

lemma stripes_inv_step:
  assumes inv: "stripes_inv L s" and step: "store_step L i s = Some s'"
  shows "stripes_inv L s'"
proof -
  have g: "\<forall>n. guarded (stripe_mutex s' n) (in_stripe L n) (store_threads s')"
    using stripe.exclusive [OF _ step] inv by (simp add: stripes_inv_def)
  have g0: "guarded (stripe_mutex s n) (in_stripe L n) (store_threads s)" for n
    using inv by (simp add: stripes_inv_def)
  have kn: "knows L (store_shared s) (st_calls t) (st_pc t)" if "t \<in> set (store_threads s)" for t
    using inv that by (simp add: stripes_inv_def)
  show ?thesis
    using step
  proof (cases rule: store_step_cases)
    case (access t c cs p st)
    have t: "t \<in> set (store_threads s)" using access(1,2) by auto
    have whole: "(accessing p \<and> st = store_shared s \<or>
        (\<exists>r. p = Unlocking r \<and> whole_call L c (store_shared s) = (r, st))) \<and> knows_at L st c p"
      using store_access_whole [OF access(5)] kn [OF t] access(3,4) inv by (simp add: stripes_inv_def)
    have wf: "kv_wf L st" using whole whole_call_wf [of L "store_shared s" c] inv by (auto simp: stripes_inv_def)
    have hist: "replay L (store_history s @ takes_effect i c p) empty_store = Some st"
      using whole inv by (cases p) (auto simp: stripes_inv_def replay_append)
    have same: "kv_get L st k = kv_get L (store_shared s) k" if "k \<noteq> call_key c" for k
      using whole whole_call_other [of L "store_shared s" k c] that inv by (auto simp: stripes_inv_def)
    have "knows L st (st_calls u) (st_pc u)" if u: "u \<in> set (store_threads s')" for u
    proof (cases "u = t\<lparr>st_pc := p\<rparr>")
      case True
      then show ?thesis using whole access(3) by simp
    next
      case False
      then obtain j where j: "j < length (store_threads s)" "u = store_threads s ! j" "j \<noteq> i"
        using u access(1,6) by (auto simp: in_set_conv_nth nth_list_update split: if_splits)
      have "in_stripe L (get_stripe_index L (call_key c)) t"
        using access(3,4) by (auto simp: in_stripe_def)
      then have "\<not> in_stripe L (get_stripe_index L (call_key c)) u"
        using guarded_unique [OF g0 access(1) j(1)] j access(2) by auto
      then have "kv_get L st k = kv_get L (store_shared s) k" if "in_stripe L (get_stripe_index L k) u" for k
        using same [of k] that by blast
      moreover have "knows L (store_shared s) (st_calls u) (st_pc u)" using kn j(1,2) by simp
      ultimately show ?thesis by (rule knows_other [rotated])
    qed
    then show ?thesis using g wf hist access(6) by (simp add: stripes_inv_def)
  next
    case (lock t c cs n)
    then have "knows L (store_shared s) (st_calls u) (st_pc u)" if "u \<in> set (store_threads s')" for u
      using kn that set_update_subset_insert [of "store_threads s" i] by fastforce
    then show ?thesis using g inv lock(7) by (simp add: stripes_inv_def)
  next
    case (unlock t c cs r)
    have "knows L (store_shared s) (st_calls u) (st_pc u)" if "u \<in> set (store_threads s')" for u
      using kn that set_update_subset_insert [of "store_threads s" i] unlock(5) by (cases cs) fastforce+
    then show ?thesis using g inv unlock(5) by (simp add: stripes_inv_def)
  qed
qed

text \<open>What the history says of a thread: its calls in the order of its program, with the results it has got.\<close>

fun returning :: "store_call list \<Rightarrow> store_pc \<Rightarrow> (store_call \<times> ValueContainer option) list" where
  "returning (c # cs) (Unlocking r) = [(c, r)]"
| "returning _ _ = []"

definition calls_of :: "nat \<Rightarrow> (nat \<times> store_call \<times> ValueContainer option) list \<Rightarrow> (store_call \<times> ValueContainer option) list" where
  "calls_of i h = map snd (filter (\<lambda>e. fst e = i) h)"

definition program_order :: "store_call list list \<Rightarrow> store_system \<Rightarrow> bool" where
  "program_order progs s \<longleftrightarrow> length (store_threads s) = length progs \<and>
     (\<forall>i < length progs. let t = store_threads s ! i
        in calls_of i (store_history s) = st_returned t @ returning (st_calls t) (st_pc t) \<and>
           map fst (st_returned t) @ st_calls t = progs ! i)"

lemma program_order_init: "program_order progs (init_store_system progs)"
  by (auto simp: program_order_def init_store_system_def calls_of_def Let_def elim: returning.elims)

lemma returning_accessing [simp]: "accessing p \<Longrightarrow> returning cs p = []" "returning cs Calling = []"
  by (cases cs; cases p; simp)+

lemma program_order_step:
  assumes "program_order progs s" and "store_step L i s = Some s'"
  shows "program_order progs s'"
  using assms(2)
proof (cases rule: store_step_cases)
  case (access t c cs p st)
  have "calls_of j (takes_effect i c p) = (if j = i then returning (c # cs) p else [])" for j
    by (cases p) (auto simp: calls_of_def)
  with assms(1) access show ?thesis
    by (auto simp: program_order_def Let_def calls_of_def nth_list_update)
qed (use assms(1) in \<open>auto simp: program_order_def Let_def nth_list_update\<close>)

lemma store_step_history: "store_step L i s = Some s' \<Longrightarrow> \<exists>h. store_history s' = store_history s @ h"
  by (cases rule: store_step_cases) auto

lemma run_store_append:
  "run_store L (is @ is') s = (case run_store L is s of None \<Rightarrow> None | Some s' \<Rightarrow> run_store L is' s')"
  by (induction "is" arbitrary: s) (auto split: option.split)

lemma run_store_inv:
  "run_store L is s = Some s' \<Longrightarrow> stripes_inv L s \<Longrightarrow> program_order progs s \<Longrightarrow>
     stripes_inv L s' \<and> program_order progs s' \<and> (\<exists>h. store_history s' = store_history s @ h)"
proof (induction "is" arbitrary: s)
  case (Cons i "is")
  then obtain s1 where s1: "store_step L i s = Some s1" "run_store L is s1 = Some s'" by (auto split: option.splits)
  obtain h where "store_history s1 = store_history s @ h" using store_step_history [OF s1(1)] by blast
  with Cons.IH [OF s1(2) stripes_inv_step [OF Cons.prems(2) s1(1)] program_order_step [OF Cons.prems(3) s1(1)]]
  show ?case by auto
qed simp

lemmas run_store_reach = run_store_inv [OF _ stripes_inv_init program_order_init]

section \<open>Progress\<close>

fun pc_left :: "store_pc \<Rightarrow> nat" where
  "pc_left Calling = 5"
| "pc_left Asking = 4"
| "pc_left Present = 3"
| "pc_left Missing = 2"
| "pc_left PushBack = 2"
| "pc_left (Unlocking r) = 1"
| "pc_left Terminated = 0"

text \<open>How many steps are left of a thread: a call has at most five.\<close>

definition calls_left :: "store_thread \<Rightarrow> nat" where
  "calls_left t = (case st_calls t of [] \<Rightarrow> 0 | c # cs \<Rightarrow> 5 * length cs + pc_left (st_pc t))"

lemma store_access_left:
  assumes "store_access L c p st = (p', st')" and "accessing p" and "knows_at L st c p"
  shows "pc_left p' < pc_left p"
  using assms by (cases c; cases p) (auto simp: Let_def split: option.splits if_splits)

lemma store_step_left:
  assumes "stripes_inv L s" and "store_step L i s = Some s'"
  shows "(\<Sum>t \<leftarrow> store_threads s'. calls_left t) < (\<Sum>t \<leftarrow> store_threads s. calls_left t)"
proof -
  note u = store_step_threads [OF assms(2)]
  have "calls_left (store_threads s' ! i) < calls_left (store_threads s ! i)"
    using assms(2)
  proof (cases rule: store_step_cases)
    case (access t c cs p st)
    have "t \<in> set (store_threads s)" using access(1,2) by auto
    then have "knows_at L (store_shared s) c (st_pc t)" using assms(1) access(3) by (fastforce simp: stripes_inv_def)
    with access store_access_left [OF access(5,4)] show ?thesis by (simp add: calls_left_def)
  qed (auto simp: calls_left_def split: list.split)
  then show ?thesis
    using conjunct1 [OF u] by (subst conjunct2 [OF u]) (rule sum_list_update_less, simp_all)
qed

lemma run_store_bound:
  "run_store L is s = Some s' \<Longrightarrow> stripes_inv L s \<Longrightarrow>
     length is + (\<Sum>t \<leftarrow> store_threads s'. calls_left t) \<le> (\<Sum>t \<leftarrow> store_threads s. calls_left t)"
proof (induction "is" arbitrary: s)
  case (Cons i "is")
  then obtain s1 where s1: "store_step L i s = Some s1" "run_store L is s1 = Some s'" by (auto split: option.splits)
  show ?case
    using Cons.IH [OF s1(2) stripes_inv_step [OF Cons.prems(2) s1(1)]] store_step_left [OF Cons.prems(2) s1(1)] by simp
qed simp

text \<open>A thread that cannot take a step waits for one that has locked the same stripe and can.\<close>

lemma blocked_by_same_stripe:
  assumes "stripes_inv L s" and "i < length (store_threads s)" and "st_calls (store_threads s ! i) = c # cs"
    and "store_step L i s = None"
  obtains j where "j \<noteq> i" "j < length (store_threads s)" "in_stripe L (get_stripe_index L (call_key c)) (store_threads s ! j)"
    "store_step L j s \<noteq> None"
proof -
  let ?n = "get_stripe_index L (call_key c)" and ?p = "\<lambda>i. st_pc (store_threads s ! i)"
  have inside_moves: "store_step L j s \<noteq> None"
    if "j < length (store_threads s)" "st_calls (store_threads s ! j) \<noteq> []" "?p j \<noteq> Calling" for j
  proof -
    have "store_threads s ! j \<in> set (store_threads s)" using that(1) by simp
    then have "knows L (store_shared s) (st_calls (store_threads s ! j)) (?p j)" using assms(1) by (simp add: stripes_inv_def)
    with that show ?thesis
      by (cases "?p j"; cases "st_calls (store_threads s ! j)") (auto simp: store_step_def split: prod.split)
  qed
  with assms(2-) have "?p i = Calling" by fastforce
  with assms(2-) have "stripe_mutex s ?n \<noteq> None" by (auto simp: store_step_def Let_def split: if_splits)
  then obtain j where j: "j < length (store_threads s)" "in_stripe L ?n (store_threads s ! j)"
    using guardedE [of "stripe_mutex s ?n"] assms(1) unfolding stripes_inv_def by metis
  show thesis
  proof (rule that)
    show "j \<noteq> i" using j(2) \<open>?p i = Calling\<close> by (auto simp: in_stripe_def)
    show "store_step L j s \<noteq> None" using inside_moves [OF j(1)] j(2) by (simp add: in_stripe_def)
  qed (use j in simp_all)
qed

section \<open>Properties\<close>

text \<open>
  C6 (the store is linearizable). Threads call \<open>get\<close> and \<open>append\<close> at the same time, in any
  interleaving of their single steps. The store holds at every moment what the calls
  that have taken effect leave when they are executed whole, one after the other, in the
  order of \<open>store_history\<close>, and each has the result it has there. The history has the
  calls of every thread in the order of its program, with the results that the thread has
  got; it only grows at its end, so that a call that has returned comes before every call
  that begins later.
\<close>

theorem store_linearizable:
  assumes "run_store L is (init_store_system progs) = Some s" and "run_store L is' s = Some s'"
  shows "replay L (store_history s') empty_store = Some (store_shared s') \<and>
    program_order progs s \<and> program_order progs s' \<and> (\<exists>h. store_history s' = store_history s @ h)"
proof -
  note r = run_store_reach [OF assms(1)]
  with run_store_inv [OF assms(2)] show ?thesis by (auto simp: stripes_inv_def)
qed

text \<open>
  A partition belongs to one thread at a time. Two threads are never in calls
  on the same stripe at the same time, between the lock and the unlock of its mutex, and no access of the two \<open>noexcept\<close> functions throws: a
  key that \<open>contains\<close> has found is still there when \<open>at\<close> or \<open>push_back\<close> uses it.
\<close>

theorem partition_exclusive:
  assumes "run_store L is (init_store_system progs) = Some s"
    and "i < length (store_threads s)" and "in_stripe L n (store_threads s ! i)"
  shows "stripe_mutex s n = Some i \<and> st_pc (store_threads s ! i) \<noteq> Terminated \<and>
    (\<forall>j < length (store_threads s). in_stripe L n (store_threads s ! j) \<longrightarrow> j = i)"
proof -
  have inv: "stripes_inv L s" using run_store_reach [OF assms(1)] by blast
  then have g: "guarded (stripe_mutex s n) (in_stripe L n) (store_threads s)"
    and k: "knows L (store_shared s) (st_calls (store_threads s ! i)) (st_pc (store_threads s ! i))"
    using assms(2) by (simp_all add: stripes_inv_def)
  have "st_pc (store_threads s ! i) \<noteq> Terminated" using k by (cases "st_calls (store_threads s ! i)") auto
  then show ?thesis
    using guarded_locked [OF g assms(2,3)] guarded_unique [OF g _ assms(2) _ assms(3)] by blast
qed

text \<open>
  C16 (all calls return). Whatever the schedule, the threads take at most five steps for
  every call, and when none of them can take another one, every call of every thread has
  returned: the mutexes of the stripes lead to no deadlock.
\<close>

theorem store_calls_return:
  assumes "run_store L is (init_store_system progs) = Some s"
  shows "length is \<le> 5 * length (concat progs) \<and>
    ((\<forall>i. store_step L i s = None) \<longrightarrow> map (\<lambda>t. map fst (st_returned t)) (store_threads s) = progs)"
proof (intro conjI impI)
  have "calls_left \<lparr>st_calls = cs, st_pc = Calling, st_returned = []\<rparr> = 5 * length cs" for cs
    by (simp add: calls_left_def split: list.split)
  then show "length is \<le> 5 * length (concat progs)"
    using run_store_bound [OF assms stripes_inv_init]
    by (simp add: init_store_system_def o_def length_concat sum_list_const_mult)
  note r = run_store_reach [OF assms]
  assume stuck: "\<forall>i. store_step L i s = None"
  have "st_calls (store_threads s ! i) = []" if "i < length (store_threads s)" for i
  proof (rule ccontr)
    assume "st_calls (store_threads s ! i) \<noteq> []"
    then obtain c cs where c: "st_calls (store_threads s ! i) = c # cs" by (auto simp: neq_Nil_conv)
    show False by (rule blocked_by_same_stripe [OF conjunct1 [OF r] that c]) (use stuck in auto)
  qed
  with r show "map (\<lambda>t. map fst (st_returned t)) (store_threads s) = progs"
    by (intro nth_equalityI) (auto simp: program_order_def Let_def)
qed

section \<open>Witnesses\<close>

text \<open>
  Keys 1 and 257 are in one stripe. In \<open>busy\<close> thread 0 has asked for key 1 and is about to create it,
  in \<open>idle\<close> all calls have returned.
\<close>

definition two_callers :: "store_call list list" where
  "two_callers = [[AppendCall 1 10, AppendCall 257 11, GetCall 257], [AppendCall 257 20]]"

definition busy :: store_system where
  "busy = the (run_store std_ref [0, 0] (init_store_system two_callers))"

definition idle_rest :: "nat list" where
  "idle_rest = [0, 0, 1, 1, 1, 1, 0, 0, 0, 0, 0, 0, 0, 0, 0]"

definition idle :: store_system where
  "idle = the (run_store std_ref idle_rest busy)"

lemma busy_run: "run_store std_ref [0, 0] (init_store_system two_callers) = Some busy"
  unfolding busy_def by (rule run_the) code_simp

lemma idle_run: "run_store std_ref idle_rest busy = Some idle"
  unfolding idle_def by (rule run_the) code_simp

lemma idle_run_all: "run_store std_ref ([0, 0] @ idle_rest) (init_store_system two_callers) = Some idle"
  unfolding run_store_append busy_run by (simp add: idle_run)

lemma busy_facts:
  "length (store_threads busy) = 2" "st_pc (store_threads busy ! 0) = Missing" "in_stripe std_ref 1 (store_threads busy ! 0)"
  "store_step std_ref 1 busy = None"
  by code_simp+

lemma idle_facts:
  "length (store_threads idle) = 2" "store_step std_ref 0 idle = None" "store_step std_ref 1 idle = None"
  "store_history idle = [(0, AppendCall 1 10, None), (1, AppendCall 257 20, None), (0, AppendCall 257 11, None),
     (0, GetCall 257, Some [20, 11])]"
  by code_simp+

theorem store_linearizable_witness:
  "replay std_ref (store_history idle) empty_store = Some (store_shared idle) \<and> program_order two_callers idle \<and>
   store_history idle = [(0, AppendCall 1 10, None), (1, AppendCall 257 20, None), (0, AppendCall 257 11, None),
     (0, GetCall 257, Some [20, 11])]"
  using store_linearizable [OF busy_run idle_run] idle_facts(4) by simp

theorem partition_exclusive_witness:
  "stripe_mutex busy 1 = Some 0 \<and> st_pc (store_threads busy ! 0) = Missing \<and> \<not> in_stripe std_ref 1 (store_threads busy ! 1)"
  using partition_exclusive [OF busy_run _ busy_facts(3)] busy_facts(1,2) by (auto simp: numeral_2_eq_2 All_less_Suc)

theorem store_calls_return_witness:
  "17 \<le> 5 * length (concat two_callers) \<and> map (\<lambda>t. map fst (st_returned t)) (store_threads idle) = two_callers"
proof -
  have "store_step std_ref i idle = None" for i
  proof (cases "i < 2")
    case True
    then have "i = 0 \<or> i = 1" by auto
    then show ?thesis using idle_facts(2,3) by auto
  next
    case False
    then show ?thesis using idle_facts(1) by (simp add: store_step_def)
  qed
  moreover have "length ([0, 0] @ idle_rest) = 17" by (simp add: idle_rest_def)
  ultimately show ?thesis using store_calls_return [OF idle_run_all] by simp
qed

end
