(* ===== verification/Remote_Waits.thy ===== *)
theory Remote_Waits
  imports Distributed Mutual_Exclusion
begin

text \<open>
  \<open>distributed_mutex\<close> and the condition variables \<open>remote_lock_cv\<close> and \<open>remote_op_cv\<close> of
  \<open>TwoPLScheduler\<close>. In \<open>Scheduler\<close> a wait consumes an event of a tape that says what the
  other threads did; here these threads are there: they wait for remote locks, execute
  remote operations, and handle the answers of peers, and every lock and unlock of the
  mutex, every section, sleep, notification and timeout is a step of its own. The theory
  shows that the mutex protects what the scheduler knows of pending answers and that no wake-up
  is lost, but for those that an operation left pending by a failed send keeps from being sent.
\<close>

section \<open>Threads\<close>

datatype dcall =
    AcquireLocks TransactionId "(NodeID \<times> KeyType list) list"
  | RemoteOp TransactionId NodeID Operation
  | LockResponse NodeID jobject
  | OpResponse NodeID jobject

datatype dresult = LocksTaken bool | LocksThrew exn | OpResult "ValueContainer option" | Handled

text \<open>
  What a thread does next in its current call. \<open>WBegin\<close>: lock the mutex. With the mutex
  locked: \<open>WBody\<close> registers the pending answers, or is the body of a handler; \<open>WSending\<close>
  sends the lock requests; \<open>WChecking\<close> is the condition of the loop, \<open>WTimedOut\<close> what follows
  a timeout; \<open>WRead\<close> reads the result; \<open>WLeave\<close> unlocks and returns. Without it: \<open>WAsleep\<close> in
  \<open>wait_until\<close>, with a flag for whether the thread has been notified. \<open>WRegistered\<close>, \<open>WSend\<close>,
  \<open>WRelock\<close>, \<open>WAnswered\<close> and \<open>WRelock2\<close> are the three sections of \<open>execute_remote_operation\<close>.
\<close>

datatype dpc =
    WBegin
  | WBody
  | WSending
  | WChecking
  | WAsleep bool
  | WTimedOut
  | WRegistered
  | WSend
  | WRelock
  | WAnswered
  | WRelock2
  | WRead
  | WLeave dresult

record wthread =
  wt_calls :: "dcall list"
  wt_pc :: dpc
  wt_results :: "dresult list"

record wsystem =
  distributed_mutex :: "nat option"
  sched :: TwoPLScheduler
  wthreads :: "wthread list"

definition init_wsystem :: "TwoPLScheduler \<Rightarrow> dcall list list \<Rightarrow> wsystem" where
  "init_wsystem s progs = \<lparr>distributed_mutex = None, sched = s,
     wthreads = map (\<lambda>cs. \<lparr>wt_calls = cs, wt_pc = WBegin, wt_results = []\<rparr>) progs\<rparr>"

section \<open>Steps\<close>

definition wgoto :: "nat \<Rightarrow> dpc \<Rightarrow> wsystem \<Rightarrow> wsystem" where
  "wgoto i p s = s\<lparr>wthreads := (wthreads s)[i := (wthreads s ! i)\<lparr>wt_pc := p\<rparr>]\<rparr>"

definition wlock :: "nat \<Rightarrow> dpc \<Rightarrow> wsystem \<Rightarrow> wsystem option" where
  "wlock i p s = (if distributed_mutex s = None then Some (wgoto i p (s\<lparr>distributed_mutex := Some i\<rparr>)) else None)"

definition wunlock :: "nat \<Rightarrow> dpc \<Rightarrow> wsystem \<Rightarrow> wsystem" where
  "wunlock i p s = wgoto i p (s\<lparr>distributed_mutex := None\<rparr>)"

definition wreturn :: "nat \<Rightarrow> dresult \<Rightarrow> wsystem \<Rightarrow> wsystem" where
  "wreturn i r s = s\<lparr>wthreads := (wthreads s)[i := (wthreads s ! i)\<lparr>wt_calls := tl (wt_calls (wthreads s ! i)),
     wt_pc := WBegin, wt_results := wt_results (wthreads s ! i) @ [r]\<rparr>]\<rparr>"

text \<open>\<open>notify_all\<close>: the condition variable is the one that the call of a sleeping thread waits on.\<close>

fun waits_locks :: "dcall \<Rightarrow> bool" where
  "waits_locks (AcquireLocks tx m) = True"
| "waits_locks _ = False"

fun waits_op :: "dcall \<Rightarrow> bool" where
  "waits_op (RemoteOp tx n op) = True"
| "waits_op _ = False"

definition notified :: "(dcall \<Rightarrow> bool) \<Rightarrow> wthread \<Rightarrow> wthread" where
  "notified cv t = (if wt_pc t = WAsleep False \<and> wt_calls t \<noteq> [] \<and> cv (hd (wt_calls t)) then t\<lparr>wt_pc := WAsleep True\<rparr> else t)"

definition notify_all :: "(dcall \<Rightarrow> bool) \<Rightarrow> wsystem \<Rightarrow> wsystem" where
  "notify_all cv s = s\<lparr>wthreads := map (notified cv) (wthreads s)\<rparr>"

text \<open>\<open>acquire_remote_locks_with_retry\<close> for transaction \<open>tx\<close>.\<close>

fun acquire_step :: "stdlib \<Rightarrow> boost_json \<Rightarrow> server_api \<Rightarrow> nat \<Rightarrow> TransactionId \<Rightarrow> (NodeID \<times> KeyType list) list \<Rightarrow>
    dpc \<Rightarrow> wsystem \<Rightarrow> wsystem option" where
  "acquire_step L J S i tx m WBegin s = wlock i WBody s"
| "acquire_step L J S i tx m WBody s =
     Some (wgoto i WSending (s\<lparr>sched := foldl (\<lambda>s nk. add_pending tx nk s) (sched s) (key_pairs L m)\<rparr>))"
| "acquire_step L J S i tx m WSending s =
     (case send_each S (map (\<lambda>(n, k). (n, lock_message J MT_LOCK_REQUEST tx k)) (key_pairs L m)) (sched s) of
        (Inl e, s1) \<Rightarrow> Some (wgoto i (WLeave (LocksThrew e)) (s\<lparr>sched := s1\<rparr>))
      | (Inr _, s1) \<Rightarrow> Some (wgoto i WChecking (s\<lparr>sched := s1\<rparr>)))"
| "acquire_step L J S i tx m WChecking s =
     (let s1 = touch_pending tx (sched s)
      in if pending_of s1 tx = [] then Some (wgoto i (WLeave (LocksTaken True)) (s\<lparr>sched := s1\<rparr>))
         else Some (wunlock i (WAsleep False) (s\<lparr>sched := s1\<rparr>)))"
| "acquire_step L J S i tx m (WAsleep b) s = wlock i WChecking s"
| "acquire_step L J S i tx m WTimedOut s =
     (let s1 = touch_pending tx (sched s)
      in case send_each S (map (\<lambda>(n, k). (n, lock_message J MT_LOCK_RELEASE tx k)) (key_pairs L (pending_of s1 tx))) s1 of
           (Inl e, s2) \<Rightarrow> Some (wgoto i (WLeave (LocksThrew e)) (s\<lparr>sched := s2\<rparr>))
         | (Inr _, s2) \<Rightarrow> Some (wgoto i (WLeave (LocksTaken False))
             (s\<lparr>sched := s2\<lparr>pending_remote_locks := (pending_remote_locks s2)(tx := None)\<rparr>\<rparr>)))"
| "acquire_step L J S i tx m (WLeave r) s = Some (wreturn i r (s\<lparr>distributed_mutex := None\<rparr>))"
| "acquire_step L J S i tx m _ s = None"

text \<open>\<open>execute_remote_operation\<close>: the request is sent with the mutex unlocked.\<close>

fun remote_op_step :: "boost_json \<Rightarrow> server_api \<Rightarrow> nat \<Rightarrow> TransactionId \<Rightarrow> NodeID \<Rightarrow> Operation \<Rightarrow>
    dpc \<Rightarrow> wsystem \<Rightarrow> wsystem option" where
  "remote_op_step J S i tx n op WBegin s = wlock i WBody s"
| "remote_op_step J S i tx n op WBody s =
     Some (wgoto i WRegistered (s\<lparr>sched := (sched s)\<lparr>pending_remote_ops :=
       (pending_remote_ops (sched s))(tx \<mapsto> List.insert (n, op_key op) (ops_pending (sched s) tx))\<rparr>\<rparr>))"
| "remote_op_step J S i tx n op WRegistered s = Some (wunlock i WSend s)"
| "remote_op_step J S i tx n op WSend s =
     (case send S n (op_request J tx op) (sched s) of
        (Inl e, s1) \<Rightarrow> Some (wreturn i (OpResult None) (s\<lparr>sched := s1\<rparr>))
      | (Inr _, s1) \<Rightarrow> Some (wgoto i WRelock (s\<lparr>sched := s1\<rparr>)))"
| "remote_op_step J S i tx n op WRelock s = wlock i WChecking s"
| "remote_op_step J S i tx n op WChecking s =
     (if (n, op_key op) \<in> set (ops_pending (sched s) tx) then Some (wunlock i (WAsleep False) s)
      else Some (wgoto i WAnswered s))"
| "remote_op_step J S i tx n op (WAsleep b) s = wlock i WChecking s"
| "remote_op_step J S i tx n op WTimedOut s =
     Some (wgoto i (WLeave (OpResult None)) (s\<lparr>sched := (sched s)\<lparr>pending_remote_ops :=
       (pending_remote_ops (sched s))(tx \<mapsto> removeAll (n, op_key op) (ops_pending (sched s) tx))\<rparr>\<rparr>))"
| "remote_op_step J S i tx n op WAnswered s = Some (wunlock i WRelock2 s)"
| "remote_op_step J S i tx n op WRelock2 s = wlock i WRead s"
| "remote_op_step J S i tx n op WRead s =
     Some (wgoto i (WLeave (OpResult (case remote_results (sched s) tx of None \<Rightarrow> None | Some m \<Rightarrow> m (op_key op)))) s)"
| "remote_op_step J S i tx n op (WLeave r) s = Some (wreturn i r (s\<lparr>distributed_mutex := None\<rparr>))"
| "remote_op_step J S i tx n op _ s = None"

text \<open>The members a handler reads before it locks the mutex; without them it does not lock it.\<close>

definition lock_response_read :: "boost_json \<Rightarrow> jobject \<Rightarrow> (TransactionId \<times> KeyType \<times> string) option" where
  "lock_response_read J msg =
     (if \<not> obj_contains J msg ''tx_id'' \<or> \<not> obj_contains J msg ''key'' then None
      else (case tx_and_key J msg of
          Inl e \<Rightarrow> None
        | Inr (tx, key) \<Rightarrow> (case member_as J (as_string J) msg ''type'' of Inl e \<Rightarrow> None | Inr type \<Rightarrow> Some (tx, key, type))))"

definition op_response_read :: "boost_json \<Rightarrow> jobject \<Rightarrow> (TransactionId \<times> KeyType) option" where
  "op_response_read J msg =
     (if \<not> obj_contains J msg ''tx_id'' \<or> \<not> obj_contains J msg ''key'' then None
      else (case tx_and_key J msg of Inl e \<Rightarrow> None | Inr tk \<Rightarrow> Some tk))"

text \<open>Whether \<open>handle_lock_response\<close> calls \<open>remote_lock_cv.notify_all()\<close>.\<close>

definition notifies_lock :: "boost_json \<Rightarrow> NodeID \<Rightarrow> jobject \<Rightarrow> TwoPLScheduler \<Rightarrow> bool" where
  "notifies_lock J peer msg s =
     (case lock_response_read J msg of
        None \<Rightarrow> False
      | Some (tx, key, type) \<Rightarrow>
          if same_address type MT_LOCK_GRANTED
          then (case map_of (pending_of s tx) peer of
                  None \<Rightarrow> False
                | Some ks \<Rightarrow> key \<in> set ks \<and> erase_pending peer key (pending_of s tx) = [])
          else True)"

fun lock_response_step :: "boost_json \<Rightarrow> nat \<Rightarrow> NodeID \<Rightarrow> jobject \<Rightarrow> dpc \<Rightarrow> wsystem \<Rightarrow> wsystem option" where
  "lock_response_step J i peer msg WBegin s =
     (if lock_response_read J msg = None then Some (wreturn i Handled (s\<lparr>sched := handle_lock_response J peer msg (sched s)\<rparr>))
      else wlock i WBody s)"
| "lock_response_step J i peer msg WBody s =
     (let s1 = wgoto i (WLeave Handled) (s\<lparr>sched := handle_lock_response J peer msg (sched s)\<rparr>)
      in Some (if notifies_lock J peer msg (sched s) then notify_all waits_locks s1 else s1))"
| "lock_response_step J i peer msg (WLeave r) s = Some (wreturn i r (s\<lparr>distributed_mutex := None\<rparr>))"
| "lock_response_step J i peer msg _ s = None"

fun op_response_step :: "boost_json \<Rightarrow> nat \<Rightarrow> NodeID \<Rightarrow> jobject \<Rightarrow> dpc \<Rightarrow> wsystem \<Rightarrow> wsystem option" where
  "op_response_step J i peer msg WBegin s =
     (if op_response_read J msg = None then Some (wreturn i Handled (s\<lparr>sched := handle_operation_response J peer msg (sched s)\<rparr>))
      else wlock i WBody s)"
| "op_response_step J i peer msg WBody s =
     (let s1 = wgoto i (WLeave Handled) (s\<lparr>sched := handle_operation_response J peer msg (sched s)\<rparr>)
      in Some (if notifies_op J peer msg (sched s) then notify_all waits_op s1 else s1))"
| "op_response_step J i peer msg (WLeave r) s = Some (wreturn i r (s\<lparr>distributed_mutex := None\<rparr>))"
| "op_response_step J i peer msg _ s = None"

fun dcall_step :: "stdlib \<Rightarrow> boost_json \<Rightarrow> server_api \<Rightarrow> nat \<Rightarrow> dcall \<Rightarrow> dpc \<Rightarrow> wsystem \<Rightarrow> wsystem option" where
  "dcall_step L J S i (AcquireLocks tx m) = acquire_step L J S i tx m"
| "dcall_step L J S i (RemoteOp tx n op) = remote_op_step J S i tx n op"
| "dcall_step L J S i (LockResponse peer msg) = lock_response_step J i peer msg"
| "dcall_step L J S i (OpResponse peer msg) = op_response_step J i peer msg"

text \<open>
  A thread takes its next step, in which a sleeping thread wakes up if it has been
  notified; or it wakes up without a reason, or at its deadline.
\<close>

datatype wkind = Next | Spurious | Deadline

definition wstep :: "stdlib \<Rightarrow> boost_json \<Rightarrow> server_api \<Rightarrow> wkind \<Rightarrow> nat \<Rightarrow> wsystem \<Rightarrow> wsystem option" where
  "wstep L J S kind i s =
     (if i < length (wthreads s) \<and> wt_calls (wthreads s ! i) \<noteq> []
      then (let c = hd (wt_calls (wthreads s ! i)); p = wt_pc (wthreads s ! i)
            in case kind of
                 Next \<Rightarrow> if p = WAsleep False then None else dcall_step L J S i c p s
               | Spurious \<Rightarrow> if p = WAsleep False then dcall_step L J S i c p s else None
               | Deadline \<Rightarrow> (case p of WAsleep b \<Rightarrow> wlock i WTimedOut s | _ \<Rightarrow> None))
      else None)"

fun run_waits :: "stdlib \<Rightarrow> boost_json \<Rightarrow> server_api \<Rightarrow> (wkind \<times> nat) list \<Rightarrow> wsystem \<Rightarrow> wsystem option" where
  "run_waits L J S [] s = Some s"
| "run_waits L J S ((kind, i) # es) s = (case wstep L J S kind i s of None \<Rightarrow> None | Some s' \<Rightarrow> run_waits L J S es s')"

section \<open>Mutual exclusion\<close>

fun has_distributed :: "dpc \<Rightarrow> bool" where
  "has_distributed WBegin = False"
| "has_distributed (WAsleep b) = False"
| "has_distributed WSend = False"
| "has_distributed WRelock = False"
| "has_distributed WRelock2 = False"
| "has_distributed _ = True"

lemma notified_simps [simp]:
  "wt_calls (notified cv t) = wt_calls t" "has_distributed (wt_pc (notified cv t)) = has_distributed (wt_pc t)"
  "wt_results (notified cv t) = wt_results t"
  by (simp_all add: notified_def)

lemmas wops = wgoto_def wlock_def wunlock_def wreturn_def notify_all_def

text \<open>The forms a step can have, as far as the mutex and the places of the threads are concerned.\<close>

inductive wmove :: "nat \<Rightarrow> dpc \<Rightarrow> wsystem \<Rightarrow> wsystem \<Rightarrow> bool" for i p s where
  lock: "wlock i p' s = Some s' \<Longrightarrow> \<not> has_distributed p \<Longrightarrow> has_distributed p' \<Longrightarrow> wmove i p s s'"
| stay: "has_distributed p' = has_distributed p \<Longrightarrow> wmove i p s (wgoto i p' (s\<lparr>sched := x\<rparr>))"
| unlock: "has_distributed p \<Longrightarrow> \<not> has_distributed p' \<Longrightarrow> wmove i p s (wunlock i p' (s\<lparr>sched := x\<rparr>))"
| unlock_return: "has_distributed p \<Longrightarrow> wmove i p s (wreturn i r (s\<lparr>distributed_mutex := None\<rparr>))"
| return: "\<not> has_distributed p \<Longrightarrow> wmove i p s (wreturn i r (s\<lparr>sched := x\<rparr>))"
| notify: "has_distributed p \<Longrightarrow> wmove i p s (notify_all cv (wgoto i (WLeave r) (s\<lparr>sched := x\<rparr>)))"

lemmas stay_same = wmove.stay [where x = "sched s" and s = s for s, simplified]
  and unlock_same = wmove.unlock [where x = "sched s" and s = s for s, simplified]

lemmas wmove_intros = wmove.intros stay_same unlock_same

lemma acquire_step_wmove: "acquire_step L J S i tx m p s = Some s' \<Longrightarrow> wmove i p s s'"
  by (cases p; auto simp: Let_def split: if_splits sum.splits prod.splits intro: wmove_intros)

lemma remote_op_step_wmove: "remote_op_step J S i tx n op p s = Some s' \<Longrightarrow> wmove i p s s'"
  by (cases p; auto simp: Let_def split: if_splits sum.splits prod.splits intro: wmove_intros)

lemma lock_response_step_wmove: "lock_response_step J i peer msg p s = Some s' \<Longrightarrow> wmove i p s s'"
  by (cases p; auto simp: Let_def split: if_splits intro: wmove_intros)

lemma op_response_step_wmove: "op_response_step J i peer msg p s = Some s' \<Longrightarrow> wmove i p s s'"
  by (cases p; auto simp: Let_def split: if_splits intro: wmove_intros)

lemma dcall_step_wmove: "dcall_step L J S i c p s = Some s' \<Longrightarrow> wmove i p s s'"
  by (cases c) (auto dest: acquire_step_wmove remote_op_step_wmove lock_response_step_wmove op_response_step_wmove)

lemma wmove_threads:
  assumes "wmove i p s s'" and "i < length (wthreads s)"
  shows "length (wthreads s') = length (wthreads s)"
    and "j < length (wthreads s) \<Longrightarrow> j \<noteq> i \<Longrightarrow>
      wthreads s' ! j = wthreads s ! j \<or> (\<exists>cv. wthreads s' ! j = notified cv (wthreads s ! j))"
    and "moves i (has_distributed p) (has_distributed (wt_pc (wthreads s' ! i))) (distributed_mutex s) (distributed_mutex s')"
  using assms by (induction rule: wmove.induct; auto simp: wops moves_def split: if_splits)+

lemma wstepE:
  assumes "wstep L J S kind i s = Some s'"
  obtains c cs p where "i < length (wthreads s)" "wt_calls (wthreads s ! i) = c # cs" "wt_pc (wthreads s ! i) = p"
    "dcall_step L J S i c p s = Some s' \<or> (\<exists>b. p = WAsleep b \<and> wlock i WTimedOut s = Some s')"
  using assms by (auto simp: wstep_def Let_def neq_Nil_conv split: if_splits wkind.splits dpc.splits)

lemma wstep_wmove:
  assumes "wstep L J S kind i s = Some s'"
  shows "i < length (wthreads s) \<and> wmove i (wt_pc (wthreads s ! i)) s s'"
  using assms by (cases rule: wstepE) (auto dest: dcall_step_wmove intro: wmove.lock)

interpretation distributed: mutex_user "\<lambda>i s. wstep L J S kind i s" wthreads distributed_mutex "\<lambda>t. has_distributed (wt_pc t)"
  for L J S kind
proof
  fix i s s'
  assume "wstep L J S kind i s = Some s'"
  note w = wstep_wmove [OF this]
  show "i < length (wthreads s) \<and> length (wthreads s') = length (wthreads s) \<and>
      (\<forall>j < length (wthreads s). j \<noteq> i \<longrightarrow> has_distributed (wt_pc (wthreads s' ! j)) = has_distributed (wt_pc (wthreads s ! j))) \<and>
      moves i (has_distributed (wt_pc (wthreads s ! i))) (has_distributed (wt_pc (wthreads s' ! i)))
        (distributed_mutex s) (distributed_mutex s')"
    using w wmove_threads [OF conjunct2 [OF w] conjunct1 [OF w]] by (metis notified_simps(2))
qed

section \<open>What the steps do to the pending answers\<close>

text \<open>Nothing changes in the pending answers: the nodes whose locks a transaction waits for, and its remote operations.\<close>

definition same_awaited :: "TwoPLScheduler \<Rightarrow> TwoPLScheduler \<Rightarrow> bool" where
  "same_awaited s s' \<longleftrightarrow> pending_of s' = pending_of s \<and> ops_pending s' = ops_pending s"

lemma same_awaited_refl [simp]: "same_awaited s s"
  by (simp add: same_awaited_def)

lemma same_awaited_send: "send S n msg s = (r, s') \<Longrightarrow> same_awaited s s'"
  using send_state [of S n msg s] by (auto simp: same_awaited_def fun_eq_iff pending_of_def ops_pending_def)

lemma same_awaited_send_each: "send_each S ms s = (r, s') \<Longrightarrow> same_awaited s s'"
proof (induction ms arbitrary: s)
  case (Cons nm ms)
  obtain n msg where nm: "nm = (n, msg)" by (cases nm)
  obtain r1 s1 where s1: "send S n msg s = (r1, s1)" by fastforce
  have "same_awaited s1 s'" using Cons nm s1 by (auto split: sum.splits)
  with same_awaited_send [OF s1] show ?case by (simp add: same_awaited_def)
qed simp

lemma same_awaited_touch [simp]: "same_awaited s (touch_pending tx s)"
  by (auto simp: same_awaited_def fun_eq_iff touch_pending_def pending_of_def ops_pending_def)

lemma add_pending_awaited:
  "tx' \<noteq> tx \<Longrightarrow> pending_of (foldl (\<lambda>s nk. add_pending tx nk s) s ps) tx' = pending_of s tx'"
  "ops_pending (foldl (\<lambda>s nk. add_pending tx nk s) s ps) = ops_pending s"
  by (induction ps arbitrary: s) (simp_all add: add_pending_def pending_of_def ops_pending_def fun_eq_iff)

fun dcall_tx :: "dcall \<Rightarrow> TransactionId option" where
  "dcall_tx (AcquireLocks tx m) = Some tx"
| "dcall_tx (RemoteOp tx n op) = Some tx"
| "dcall_tx _ = None"

lemma wlock_sched: "wlock i p s = Some s' \<Longrightarrow> sched s' = sched s"
  by (auto simp: wlock_def wgoto_def split: if_splits)

lemma sched_simps [simp]:
  "sched (wgoto i p s) = sched s" "sched (wunlock i p s) = sched s" "sched (wreturn i r s) = sched s"
  "sched (notify_all cv s) = sched s"
  by (simp_all add: wops)

text \<open>A call changes only what its own transaction waits for.\<close>

lemma acquire_step_frame:
  assumes "acquire_step L J S i tx m p s = Some s'"
  shows "ops_pending (sched s') = ops_pending (sched s) \<and> (tx' \<noteq> tx \<longrightarrow> pending_of (sched s') tx' = pending_of (sched s) tx')"
proof (cases p)
  case WSending
  then have "same_awaited (sched s) (sched s')"
    using assms by (auto split: prod.splits sum.splits dest: same_awaited_send_each)
  then show ?thesis by (simp add: same_awaited_def)
next
  case WTimedOut
  let ?s1 = "touch_pending tx (sched s)"
  obtain r s2 where s2: "send_each S (map (\<lambda>(n, k). (n, lock_message J MT_LOCK_RELEASE tx k)) (key_pairs L (pending_of ?s1 tx))) ?s1 = (r, s2)"
    and s': "sched s' = s2 \<or> sched s' = s2\<lparr>pending_remote_locks := (pending_remote_locks s2)(tx := None)\<rparr>"
    using WTimedOut assms by (auto simp: Let_def split: prod.splits sum.splits)
  have "same_awaited (sched s) s2"
    using same_awaited_send_each [OF s2] same_awaited_touch [of "sched s" tx] by (simp add: same_awaited_def)
  moreover have "pending_of (sched s') tx' = pending_of s2 tx' \<or> tx' = tx" "ops_pending (sched s') = ops_pending s2"
    using s' by (auto simp: pending_of_def ops_pending_def fun_eq_iff)
  ultimately show ?thesis by (auto simp: same_awaited_def)
next
  case WChecking
  have "same_awaited (sched s) (sched s')" using WChecking assms by (auto simp: Let_def split: if_splits)
  then show ?thesis by (simp add: same_awaited_def)
qed (use assms in \<open>auto simp: add_pending_awaited dest: wlock_sched\<close>)

lemma remote_op_step_frame:
  assumes "remote_op_step J S i tx n op p s = Some s'"
  shows "pending_of (sched s') = pending_of (sched s) \<and> (tx' \<noteq> tx \<longrightarrow> ops_pending (sched s') tx' = ops_pending (sched s) tx')"
proof (cases p)
  case WSend
  then have "same_awaited (sched s) (sched s')" using assms by (auto split: prod.splits sum.splits dest: same_awaited_send)
  then show ?thesis by (simp add: same_awaited_def)
qed (use assms in \<open>auto simp: pending_of_def ops_pending_def fun_eq_iff dest: wlock_sched split: if_splits\<close>)

text \<open>A lock response empties the pending locks of a transaction only if it notifies.\<close>

lemma handle_lock_response_awaited:
  "ops_pending (handle_lock_response J peer msg s) = ops_pending s"
  "pending_of (handle_lock_response J peer msg s) tx = [] \<Longrightarrow> pending_of s tx \<noteq> [] \<Longrightarrow> notifies_lock J peer msg s"
  unfolding atomize_conj
  by (auto simp: handle_lock_response_def notifies_lock_def lock_response_read_def pending_of_def ops_pending_def
      log_error_def fun_eq_iff split: sum.splits option.splits prod.splits if_splits)

text \<open>An operation response empties the pending operations of a transaction only if it notifies.\<close>

lemma handle_operation_response_awaited:
  "pending_of (handle_operation_response J peer msg s) = pending_of s"
  "set (ops_pending (handle_operation_response J peer msg s) tx) \<subseteq> set (ops_pending s tx)"
  "ops_pending (handle_operation_response J peer msg s) tx = [] \<Longrightarrow> ops_pending s tx \<noteq> [] \<Longrightarrow> notifies_op J peer msg s"
  by (auto simp: handle_operation_response_def notifies_op_def pending_of_def ops_pending_def log_error_def
      fun_eq_iff split: sum.splits option.splits prod.splits if_splits)

section \<open>The invariant\<close>

text \<open>The places of a call.\<close>

fun legal :: "dcall \<Rightarrow> dpc \<Rightarrow> bool" where
  "legal (AcquireLocks tx m) p \<longleftrightarrow> p \<notin> {WRegistered, WSend, WRelock, WAnswered, WRelock2, WRead}"
| "legal (RemoteOp tx n op) p \<longleftrightarrow> p \<noteq> WSending"
| "legal (LockResponse peer msg) p \<longleftrightarrow> p = WBegin \<or> p = WBody \<or> (\<exists>r. p = WLeave r)"
| "legal (OpResponse peer msg) p \<longleftrightarrow> p = WBegin \<or> p = WBody \<or> (\<exists>r. p = WLeave r)"

text \<open>Where the operation of a call of \<open>execute_remote_operation\<close> is pending.\<close>

fun registered :: "dpc \<Rightarrow> bool" where
  "registered WRegistered = True"
| "registered WSend = True"
| "registered WRelock = True"
| "registered WChecking = True"
| "registered (WAsleep b) = True"
| "registered WTimedOut = True"
| "registered _ = False"

fun op_awaited :: "dcall list \<Rightarrow> dpc \<Rightarrow> TransactionId \<Rightarrow> (NodeID \<times> KeyType) set" where
  "op_awaited (RemoteOp tx' n op # cs) p tx = (if tx' = tx \<and> registered p then {(n, op_key op)} else {})"
| "op_awaited _ p tx = {}"

text \<open>The answer that a call waits for has not come yet.\<close>

fun outstanding :: "TwoPLScheduler \<Rightarrow> dcall \<Rightarrow> bool" where
  "outstanding s (AcquireLocks tx m) \<longleftrightarrow> pending_of s tx \<noteq> []"
| "outstanding s (RemoteOp tx n op) \<longleftrightarrow> (n, op_key op) \<in> set (ops_pending s tx)"
| "outstanding s _ \<longleftrightarrow> False"

text \<open>
  What keeps a sleeping thread from being notified: for a remote operation, any pending
  operation of its transaction, since \<open>handle_operation_response\<close> notifies only when none is left.
\<close>

fun unsettled :: "TwoPLScheduler \<Rightarrow> dcall \<Rightarrow> bool" where
  "unsettled s (AcquireLocks tx m) \<longleftrightarrow> pending_of s tx \<noteq> []"
| "unsettled s (RemoteOp tx n op) \<longleftrightarrow> ops_pending s tx \<noteq> []"
| "unsettled s _ \<longleftrightarrow> False"

text \<open>The operations whose requests could not be sent: \<open>send\<close> threw when they were handed over.\<close>

definition failed_ops :: "server_api \<Rightarrow> boost_json \<Rightarrow> TwoPLScheduler \<Rightarrow> TransactionId \<Rightarrow> (NodeID \<times> KeyType) set" where
  "failed_ops S J s tx = {(n, k). \<exists>op h rest e. k = op_key op \<and> sent s = h @ (n, op_request J tx op) # rest \<and>
     srv_send S h n (op_request J tx op) = Some e}"

definition sent_more :: "TwoPLScheduler \<Rightarrow> TwoPLScheduler \<Rightarrow> bool" where
  "sent_more s s' \<longleftrightarrow> (\<exists>ms. sent s' = sent s @ ms)"

lemma sent_more_same: "sent s' = sent s \<Longrightarrow> sent_more s s'"
  by (simp add: sent_more_def)

lemma failed_ops_mono: "sent_more s s' \<Longrightarrow> failed_ops S J s tx \<subseteq> failed_ops S J s' tx"
  unfolding failed_ops_def sent_more_def by fastforce

definition txs_of :: "dcall list \<Rightarrow> TransactionId set" where
  "txs_of cs = {tx. Some tx \<in> dcall_tx ` set cs}"

fun place_ok :: "TwoPLScheduler \<Rightarrow> dcall list \<Rightarrow> dpc \<Rightarrow> bool" where
  "place_ok s [] p \<longleftrightarrow> p = WBegin"
| "place_ok s (c # cs) p \<longleftrightarrow> legal c p \<and> (p = WAsleep False \<longrightarrow> unsettled s c)"

definition calls_ok :: "server_api \<Rightarrow> boost_json \<Rightarrow> TwoPLScheduler \<Rightarrow> dcall list \<Rightarrow> dpc \<Rightarrow> bool" where
  "calls_ok S J s cs p \<longleftrightarrow> place_ok s cs p \<and>
     (\<forall>tx \<in> txs_of cs. set (ops_pending s tx) \<subseteq> op_awaited cs p tx \<union> failed_ops S J s tx)"

abbreviation wthread_ok :: "server_api \<Rightarrow> boost_json \<Rightarrow> TwoPLScheduler \<Rightarrow> wthread \<Rightarrow> bool" where
  "wthread_ok S J s t \<equiv> calls_ok S J s (wt_calls t) (wt_pc t)"

lemma txs_of_simps [simp]: "txs_of [] = {}" "txs_of (c # cs) = set_option (dcall_tx c) \<union> txs_of cs"
  by (auto simp: txs_of_def)

lemma op_awaited_WBegin [simp]: "op_awaited cs WBegin tx = {}" "op_awaited cs (WLeave r) tx = {}"
  by (cases "(cs, WBegin, tx)" rule: op_awaited.cases; simp) (cases "(cs, WLeave r, tx)" rule: op_awaited.cases; simp)

lemma place_ok_WBegin [simp]: "place_ok s cs WBegin"
  by (cases cs; cases "hd cs") auto

lemma op_awaited_asleep: "op_awaited cs (WAsleep b) tx = op_awaited cs (WAsleep b') tx"
  by (cases "(cs, WAsleep b, tx)" rule: op_awaited.cases) simp_all

lemma calls_ok_asleep: "calls_ok S J s cs (WAsleep False) \<Longrightarrow> calls_ok S J s cs (WAsleep True)"
  unfolding calls_ok_def op_awaited_asleep [of cs True _ False] by (cases cs; cases "hd cs") auto

lemma calls_ok_notified: "wthread_ok S J s t \<Longrightarrow> wthread_ok S J s (notified cv t)"
  by (auto simp: notified_def intro: calls_ok_asleep)

text \<open>A change of the scheduler that keeps what a call waits for.\<close>

lemma calls_ok_frame:
  assumes "calls_ok S J s cs p" and "sent_more s s'"
    and "\<And>tx. tx \<in> txs_of cs \<Longrightarrow> set (ops_pending s' tx) \<subseteq> set (ops_pending s tx)"
    and "\<And>c cs'. cs = c # cs' \<Longrightarrow> p = WAsleep False \<Longrightarrow> unsettled s c \<Longrightarrow> unsettled s' c"
  shows "calls_ok S J s' cs p"
proof -
  have "place_ok s' cs p"
  proof (cases cs)
    case (Cons c cs')
    with assms(1) assms(4) [OF Cons] show ?thesis by (auto simp: calls_ok_def)
  qed (use assms(1) in \<open>simp add: calls_ok_def\<close>)
  moreover have "set (ops_pending s' tx) \<subseteq> op_awaited cs p tx \<union> failed_ops S J s' tx" if "tx \<in> txs_of cs" for tx
    using assms(1) assms(3) [OF that] that failed_ops_mono [OF assms(2), of S J tx] unfolding calls_ok_def by blast
  ultimately show ?thesis by (simp add: calls_ok_def)
qed

text \<open>How a step of a thread that does not touch the pending operations keeps its calls right.\<close>

lemma calls_ok_own:
  assumes "calls_ok S J s cs p" and "place_ok s' cs' p'" and "sent_more s s'" and "txs_of cs' \<subseteq> txs_of cs"
    and "\<And>tx. tx \<in> txs_of cs' \<Longrightarrow> set (ops_pending s' tx) \<subseteq> set (ops_pending s tx)"
    and "\<And>tx. op_awaited cs p tx = {}"
  shows "calls_ok S J s' cs' p'"
proof -
  have "set (ops_pending s' tx) \<subseteq> op_awaited cs' p' tx \<union> failed_ops S J s' tx" if "tx \<in> txs_of cs'" for tx
    using assms(1,4,6) assms(5) [OF that] that failed_ops_mono [OF assms(3), of S J tx] unfolding calls_ok_def by blast
  with assms(2) show ?thesis by (simp add: calls_ok_def)
qed

lemma wgoto_thread [simp]: "i < length (wthreads s) \<Longrightarrow>
    wt_calls (wthreads (wgoto i p s) ! i) = wt_calls (wthreads s ! i)"
  "i < length (wthreads s) \<Longrightarrow> wt_pc (wthreads (wgoto i p s) ! i) = p"
  "i < length (wthreads s) \<Longrightarrow> wt_calls (wthreads (wunlock i p s) ! i) = wt_calls (wthreads s ! i)"
  "i < length (wthreads s) \<Longrightarrow> wt_pc (wthreads (wunlock i p s) ! i) = p"
  "i < length (wthreads s) \<Longrightarrow> wt_calls (wthreads (wreturn i r s) ! i) = tl (wt_calls (wthreads s ! i))"
  "i < length (wthreads s) \<Longrightarrow> wt_pc (wthreads (wreturn i r s) ! i) = WBegin"
  by (simp_all add: wops)

lemma wlength [simp]:
  "length (wthreads (wgoto i p s)) = length (wthreads s)" "length (wthreads (wreturn i r s)) = length (wthreads s)"
  "length (wthreads (wunlock i p s)) = length (wthreads s)"
  by (simp_all add: wops)

lemma wt_pc_notified: "wt_pc t \<noteq> WAsleep False \<Longrightarrow> wt_pc (notified cv t) = wt_pc t"
  by (simp add: notified_def)

lemma wlock_thread:
  "wlock i p s = Some s' \<Longrightarrow> i < length (wthreads s) \<Longrightarrow>
     wt_calls (wthreads s' ! i) = wt_calls (wthreads s ! i) \<and> wt_pc (wthreads s' ! i) = p \<and> sched s' = sched s"
  by (auto simp: wops split: if_splits)

lemma acquire_step_sent: "acquire_step L J S i tx m p s = Some s' \<Longrightarrow> sent_more (sched s) (sched s')"
  by (cases p)
     (auto simp: Let_def sent_more_def add_pending_frame touch_pending_def split: if_splits prod.splits sum.splits
       dest!: wlock_sched send_each_result)

lemma acquire_step_ok:
  assumes "acquire_step L J S i tx m p s = Some s'" and "i < length (wthreads s)"
    and "wt_calls (wthreads s ! i) = AcquireLocks tx m # cs" and "calls_ok S J (sched s) (AcquireLocks tx m # cs) p"
  shows "wthread_ok S J (sched s') (wthreads s' ! i)"
proof (rule calls_ok_own [OF assms(4) _ acquire_step_sent [OF assms(1)]])
  show "set (ops_pending (sched s') u) \<subseteq> set (ops_pending (sched s) u)" for u
    using acquire_step_frame [OF assms(1)] by simp
  show "place_ok (sched s') (wt_calls (wthreads s' ! i)) (wt_pc (wthreads s' ! i))"
    using assms(1-3) by (cases p) (auto simp: Let_def dest!: wlock_thread split: if_splits prod.splits sum.splits)
  show "txs_of (wt_calls (wthreads s' ! i)) \<subseteq> txs_of (AcquireLocks tx m # cs)"
    using assms(1-3) by (cases p) (auto simp: Let_def dest!: wlock_thread split: if_splits prod.splits sum.splits)
qed simp

lemma ops_pending_simps [simp]:
  "ops_pending (s\<lparr>pending_remote_ops := (pending_remote_ops s)(tx \<mapsto> ps)\<rparr>) tx' = (if tx' = tx then ps else ops_pending s tx')"
  "ops_pending (s\<lparr>sent := ms\<rparr>) tx = ops_pending s tx"
  by (simp_all add: ops_pending_def)

lemma failed_opsI:
  "srv_send S h n (op_request J tx op) = Some e \<Longrightarrow> sent s = h @ (n, op_request J tx op) # rest \<Longrightarrow>
   (n, op_key op) \<in> failed_ops S J s tx"
  unfolding failed_ops_def by blast

lemma send_op_request:
  "send S n (op_request J tx op) s = (r, s') \<Longrightarrow> s' = s\<lparr>sent := sent s @ [(n, op_request J tx op)]\<rparr> \<and>
     ((\<exists>e. r = Inl e) \<longrightarrow> (n, op_key op) \<in> failed_ops S J s' tx)"
  by (auto simp: send_def split: option.splits intro: failed_opsI [where rest = "[]"])

lemma remote_op_step_sent: "remote_op_step J S i tx n op p s = Some s' \<Longrightarrow> sent_more (sched s) (sched s')"
  by (cases p) (auto simp: sent_more_def split: if_splits prod.splits sum.splits dest!: wlock_sched send_op_request)

lemma remote_op_step_ok:
  assumes "remote_op_step J S i tx n op p s = Some s'" and "i < length (wthreads s)"
    and "wt_calls (wthreads s ! i) = RemoteOp tx n op # cs" and "calls_ok S J (sched s) (RemoteOp tx n op # cs) p"
  shows "wthread_ok S J (sched s') (wthreads s' ! i)"
proof -
  let ?cs = "wt_calls (wthreads s' ! i)" and ?p = "wt_pc (wthreads s' ! i)"
  note more = failed_ops_mono [OF remote_op_step_sent [OF assms(1)], of S J]
  have "place_ok (sched s') ?cs ?p"
    using assms(1-3) by (cases p) (auto dest!: wlock_thread split: if_splits prod.splits sum.splits)
  moreover have txs: "txs_of ?cs \<subseteq> insert tx (txs_of cs)"
    using assms(1-3) by (cases p) (auto dest!: wlock_thread split: if_splits prod.splits sum.splits)
  moreover have "set (ops_pending (sched s') tx) \<subseteq> op_awaited ?cs ?p tx \<union> failed_ops S J (sched s') tx"
  proof -
    have "set (ops_pending (sched s) tx) \<subseteq> (if registered p then {(n, op_key op)} else {}) \<union> failed_ops S J (sched s) tx"
      using assms(4) by (simp add: calls_ok_def)
    then have "set (ops_pending (sched s) tx) \<subseteq> (if registered p then {(n, op_key op)} else {}) \<union> failed_ops S J (sched s') tx"
      using more [of tx] by blast
    with assms(1-3) show ?thesis
      by (cases p) (auto dest!: wlock_thread send_op_request split: if_splits prod.splits sum.splits)
  qed
  moreover have "set (ops_pending (sched s') tx') \<subseteq> op_awaited ?cs ?p tx' \<union> failed_ops S J (sched s') tx'"
    if "tx' \<in> txs_of cs" "tx' \<noteq> tx" for tx'
  proof -
    have "set (ops_pending (sched s) tx') \<subseteq> op_awaited (RemoteOp tx n op # cs) p tx' \<union> failed_ops S J (sched s) tx'"
      using assms(4) that(1) unfolding calls_ok_def by simp
    with remote_op_step_frame [OF assms(1), of tx'] that(2) more [of tx'] show ?thesis by auto
  qed
  ultimately show ?thesis unfolding calls_ok_def by blast
qed

lemma handlers_sent:
  "sent (handle_lock_response J peer msg s) = sent s" "sent (handle_operation_response J peer msg s) = sent s"
  by (auto simp: handle_lock_response_def handle_operation_response_def same_address_def log_error_def
      split: sum.split prod.split)

lemma response_step_sent:
  "lock_response_step J i peer msg p s = Some s' \<Longrightarrow> sent_more (sched s) (sched s')"
  "op_response_step J i peer msg p s = Some s' \<Longrightarrow> sent_more (sched s) (sched s')"
  by (cases p; auto simp: Let_def handlers_sent intro!: sent_more_same dest!: wlock_sched split: if_splits)+

lemma lock_response_step_ok:
  assumes "lock_response_step J i peer msg p s = Some s'" and "i < length (wthreads s)"
    and "wt_calls (wthreads s ! i) = LockResponse peer msg # cs" and "calls_ok S J (sched s) (LockResponse peer msg # cs) p"
  shows "wthread_ok S J (sched s') (wthreads s' ! i)"
proof -
  have ops: "ops_pending (sched s') = ops_pending (sched s)"
    using assms(1) by (cases p) (auto simp: Let_def handle_lock_response_awaited dest: wlock_sched split: if_splits)
  have "place_ok (sched s') (wt_calls (wthreads s' ! i)) (wt_pc (wthreads s' ! i)) \<and>
      txs_of (wt_calls (wthreads s' ! i)) = txs_of cs"
    using assms(1-3)
    by (cases p) (auto simp: Let_def notify_all_def wt_pc_notified dest!: wlock_thread split: if_splits)
  then show ?thesis
    by (intro calls_ok_own [OF assms(4) _ response_step_sent(1) [OF assms(1)]]) (simp_all add: ops)
qed

lemma op_response_step_ok:
  assumes "op_response_step J i peer msg p s = Some s'" and "i < length (wthreads s)"
    and "wt_calls (wthreads s ! i) = OpResponse peer msg # cs" and "calls_ok S J (sched s) (OpResponse peer msg # cs) p"
  shows "wthread_ok S J (sched s') (wthreads s' ! i)"
proof -
  have ops: "set (ops_pending (sched s') tx) \<subseteq> set (ops_pending (sched s) tx)" for tx
    using assms(1) handle_operation_response_awaited(2) [of J peer msg "sched s" tx]
    by (cases p) (auto simp: Let_def dest!: wlock_sched split: if_splits)
  have "place_ok (sched s') (wt_calls (wthreads s' ! i)) (wt_pc (wthreads s' ! i)) \<and>
      txs_of (wt_calls (wthreads s' ! i)) = txs_of cs"
    using assms(1-3)
    by (cases p) (auto simp: Let_def notify_all_def wt_pc_notified dest!: wlock_thread split: if_splits)
  then show ?thesis
    by (intro calls_ok_own [OF assms(4) _ response_step_sent(2) [OF assms(1)]]) (simp_all add: ops)
qed

lemmas own_step_ok = acquire_step_ok remote_op_step_ok lock_response_step_ok op_response_step_ok

text \<open>
  A thread that sleeps while another one takes a step: when the answer it waits for comes,
  it is notified.
\<close>

lemma calls_ok_wake:
  assumes "wthread_ok S J s t" and "sent_more s s'" and "t' = t \<or> (\<exists>cv. t' = notified cv t)"
    and "\<And>tx. tx \<in> txs_of (wt_calls t) \<Longrightarrow> set (ops_pending s' tx) \<subseteq> set (ops_pending s tx)"
    and "\<And>c cs. wt_calls t = c # cs \<Longrightarrow> unsettled s c \<Longrightarrow> \<not> unsettled s' c \<Longrightarrow> \<exists>cv. cv c \<and> t' = notified cv t"
  shows "wthread_ok S J s' t'"
proof (cases "wt_pc t = WAsleep False")
  case True
  with assms(1) obtain c cs where c: "wt_calls t = c # cs" "legal c (WAsleep False)" "unsettled s c"
    by (cases "wt_calls t") (auto simp: calls_ok_def)
  show ?thesis
  proof (cases "unsettled s' c")
    case True
    have "wthread_ok S J s' t" by (rule calls_ok_frame [OF assms(1,2,4)]) (use True c in auto)
    then show ?thesis using assms(3) calls_ok_notified by blast
  next
    case False
    then obtain cv where "cv c" "t' = notified cv t" using assms(5) c by blast
    then have t': "wt_calls t' = wt_calls t" "wt_pc t' = WAsleep True" using True c by (simp_all add: notified_def)
    have "set (ops_pending s' tx) \<subseteq> op_awaited (wt_calls t) (WAsleep True) tx \<union> failed_ops S J s' tx"
      if "tx \<in> txs_of (wt_calls t)" for tx
    proof -
      have "set (ops_pending s tx) \<subseteq> op_awaited (wt_calls t) (WAsleep False) tx \<union> failed_ops S J s tx"
        using assms(1) that True by (simp add: calls_ok_def)
      also have "op_awaited (wt_calls t) (WAsleep False) tx = op_awaited (wt_calls t) (WAsleep True) tx"
        using c by (cases c) simp_all
      finally show ?thesis using assms(4) [OF that] failed_ops_mono [OF assms(2), of S J tx] by blast
    qed
    moreover have "legal c (WAsleep True)" using c(2) by (cases c) simp_all
    ultimately show ?thesis using t' c by (simp add: calls_ok_def)
  qed
next
  case False
  have "wthread_ok S J s' t" by (rule calls_ok_frame [OF assms(1,2,4)]) (use False in auto)
  then show ?thesis using assms(3) calls_ok_notified by blast
qed

definition separate :: "wthread list \<Rightarrow> bool" where
  "separate ts \<longleftrightarrow> (\<forall>i < length ts. \<forall>j < length ts. i \<noteq> j \<longrightarrow> txs_of (wt_calls (ts ! i)) \<inter> txs_of (wt_calls (ts ! j)) = {})"

lemma lock_response_step_others:
  assumes "lock_response_step J i peer msg p s = Some s'" and "j < length (wthreads s)" and "j \<noteq> i"
  shows "sched s' = sched s \<and> wthreads s' ! j = wthreads s ! j \<or> sched s' = handle_lock_response J peer msg (sched s) \<and>
    wthreads s' ! j = (if notifies_lock J peer msg (sched s) then notified waits_locks (wthreads s ! j) else wthreads s ! j)"
proof -
  have "notifies_lock J peer msg (sched s) = False" if "lock_response_read J msg = None" using that by (simp add: notifies_lock_def)
  with assms show ?thesis by (cases p) (auto simp: Let_def wops split: if_splits)
qed

lemma op_response_step_others:
  assumes "op_response_step J i peer msg p s = Some s'" and "j < length (wthreads s)" and "j \<noteq> i"
  shows "sched s' = sched s \<and> wthreads s' ! j = wthreads s ! j \<or> sched s' = handle_operation_response J peer msg (sched s) \<and>
    wthreads s' ! j = (if notifies_op J peer msg (sched s) then notified waits_op (wthreads s ! j) else wthreads s ! j)"
proof -
  have "notifies_op J peer msg (sched s) = False" if "op_response_read J msg = None"
    using that by (auto simp: notifies_op_def op_response_read_def split: sum.splits prod.splits if_splits)
  with assms show ?thesis by (cases p) (auto simp: Let_def wops split: if_splits)
qed

lemma call_step_frame:
  assumes "dcall_step L J S i c p s = Some s'" and "dcall_tx c = Some tx" and "tx' \<noteq> tx"
  shows "pending_of (sched s') tx' = pending_of (sched s) tx' \<and> ops_pending (sched s') tx' = ops_pending (sched s) tx'"
proof (cases c)
  case (AcquireLocks u m)
  with assms acquire_step_frame [of L J S i u m p s s' tx'] show ?thesis by simp
next
  case (RemoteOp u n op)
  with assms remote_op_step_frame [of J S i u n op p s s' tx'] show ?thesis by simp
qed (use assms in simp_all)

lemma unsettled_cong:
  "pending_of s' = pending_of s \<or> waits_op c \<Longrightarrow> ops_pending s' = ops_pending s \<or> waits_locks c \<Longrightarrow> unsettled s' c = unsettled s c"
  "(\<And>tx. dcall_tx c = Some tx \<Longrightarrow> pending_of s' tx = pending_of s tx \<and> ops_pending s' tx = ops_pending s tx) \<Longrightarrow>
     unsettled s' c = unsettled s c"
  by (cases c; auto)+

lemma other_step_ok:
  assumes step: "dcall_step L J S i c p s = Some s'" and i: "i < length (wthreads s)" "wt_calls (wthreads s ! i) = c # cs"
    and j: "j < length (wthreads s)" "j \<noteq> i" and ok: "wthread_ok S J (sched s) (wthreads s ! j)" and sep: "separate (wthreads s)"
  shows "wthread_ok S J (sched s') (wthreads s' ! j)"
proof -
  let ?t = "wthreads s ! j" and ?t' = "wthreads s' ! j"
  have t': "?t' = ?t \<or> (\<exists>cv. ?t' = notified cv ?t)"
    using wmove_threads(2) [OF dcall_step_wmove [OF step] i(1) j] .
  have more: "sent_more (sched s) (sched s')"
    using step by (cases c) (auto dest: acquire_step_sent remote_op_step_sent response_step_sent)
  consider (tx) tx where "dcall_tx c = Some tx" | (lock) peer msg where "c = LockResponse peer msg" | (op) peer msg where "c = OpResponse peer msg"
    by (cases c) auto
  then show ?thesis
  proof cases
    case tx
    have "tx \<notin> txs_of (wt_calls ?t)" using sep i j tx by (fastforce simp: separate_def)
    then have same: "pending_of (sched s') u = pending_of (sched s) u \<and> ops_pending (sched s') u = ops_pending (sched s) u"
      if "u \<in> txs_of (wt_calls ?t)" for u using call_step_frame [OF step tx, of u] that by metis
    show ?thesis
    proof (rule calls_ok_wake [OF ok more t'])
      fix d ds
      assume d: "wt_calls ?t = d # ds" "unsettled (sched s) d" "\<not> unsettled (sched s') d"
      have "unsettled (sched s') d = unsettled (sched s) d" by (rule unsettled_cong(2)) (use same d(1) in simp)
      with d show "\<exists>cv. cv d \<and> ?t' = notified cv ?t" by simp
    qed (use same in simp)
  next
    case lock
    then have st: "lock_response_step J i peer msg p s = Some s'" using step by simp
    note o = lock_response_step_others [OF st j]
    have ops: "ops_pending (sched s') = ops_pending (sched s)" using o handle_lock_response_awaited(1) by metis
    show ?thesis
    proof (rule calls_ok_wake [OF ok more t'])
      fix d ds
      assume d: "wt_calls ?t = d # ds" "unsettled (sched s) d" "\<not> unsettled (sched s') d"
      with ops obtain tx m where "d = AcquireLocks tx m" by (cases d) auto
      with d o handle_lock_response_awaited(2) [of J peer msg "sched s" tx] show "\<exists>cv. cv d \<and> ?t' = notified cv ?t"
        by (intro exI [of _ waits_locks]) auto
    qed (use ops in simp)
  next
    case op
    then have st: "op_response_step J i peer msg p s = Some s'" using step by simp
    note o = op_response_step_others [OF st j]
    have pend: "pending_of (sched s') = pending_of (sched s)" using o handle_operation_response_awaited(1) by metis
    have sub: "set (ops_pending (sched s') u) \<subseteq> set (ops_pending (sched s) u)" for u
      using o handle_operation_response_awaited(2) by (metis order_refl)
    show ?thesis
    proof (rule calls_ok_wake [OF ok more t'])
      fix d ds
      assume d: "wt_calls ?t = d # ds" "unsettled (sched s) d" "\<not> unsettled (sched s') d"
      with pend obtain tx n oper where D: "d = RemoteOp tx n oper" by (cases d) auto
      from d D o handle_operation_response_awaited(3) [of J peer msg "sched s" tx] show "\<exists>cv. cv d \<and> ?t' = notified cv ?t"
        by (intro exI [of _ waits_op]) auto
    qed (use sub in simp)
  qed
qed

definition waits_inv :: "server_api \<Rightarrow> boost_json \<Rightarrow> wsystem \<Rightarrow> bool" where
  "waits_inv S J s \<longleftrightarrow> guarded (distributed_mutex s) (\<lambda>t. has_distributed (wt_pc t)) (wthreads s) \<and> separate (wthreads s) \<and>
     (\<forall>j < length (wthreads s). wthread_ok S J (sched s) (wthreads s ! j))"

lemma wmove_calls:
  assumes "wmove i p s s'" and "i < length (wthreads s)" and "j < length (wthreads s)"
  shows "wt_calls (wthreads s' ! j) = wt_calls (wthreads s ! j) \<or> wt_calls (wthreads s' ! j) = tl (wt_calls (wthreads s ! j))"
  using assms by (induction rule: wmove.induct) (auto simp: wops nth_list_update split: if_splits)

lemma separate_step:
  assumes "wmove i p s s'" and "i < length (wthreads s)" and "separate (wthreads s)"
  shows "separate (wthreads s')"
proof -
  have "txs_of (tl cs) \<subseteq> txs_of cs" for cs by (cases cs) auto
  then have "txs_of (wt_calls (wthreads s' ! j)) \<subseteq> txs_of (wt_calls (wthreads s ! j))" if "j < length (wthreads s)" for j
    using wmove_calls [OF assms(1,2) that] by (metis order_refl)
  with assms(3) show ?thesis
    unfolding separate_def wmove_threads(1) [OF assms(1,2)] by (meson disjoint_iff subsetD)
qed

lemma waits_inv_step:
  assumes inv: "waits_inv S J s" and step: "wstep L J S kind i s = Some s'"
  shows "waits_inv S J s'"
proof -
  note w = wstep_wmove [OF step]
  have g: "guarded (distributed_mutex s') (\<lambda>t. has_distributed (wt_pc t)) (wthreads s')"
    using distributed.exclusive [OF _ step] inv by (simp add: waits_inv_def)
  have sep: "separate (wthreads s')" using separate_step w inv by (auto simp: waits_inv_def)
  have "wthread_ok S J (sched s') (wthreads s' ! j)" if j: "j < length (wthreads s)" for j
    using step
  proof (cases rule: wstepE)
    case (1 c cs p)
    have ok: "wthread_ok S J (sched s) (wthreads s ! j)" using inv j by (simp add: waits_inv_def)
    from 1(4) show ?thesis
    proof (elim disjE exE conjE)
      assume d: "dcall_step L J S i c p s = Some s'"
      show ?thesis
      proof (cases "j = i")
        case True
        with ok 1 d own_step_ok show ?thesis by (cases c) auto
      next
        case False
        with other_step_ok [OF d 1(1,2) j] ok inv show ?thesis by (simp add: waits_inv_def)
      qed
    next
      fix b
      assume p: "p = WAsleep b" and l: "wlock i WTimedOut s = Some s'"
      have sched: "sched s' = sched s" "j \<noteq> i \<Longrightarrow> wthreads s' ! j = wthreads s ! j"
        using l by (auto simp: wops split: if_splits)
      show ?thesis
      proof (cases "j = i")
        case True
        then show ?thesis using ok 1(2,3) p wlock_thread [OF l 1(1)] by (cases c) (auto simp: calls_ok_def)
      qed (use sched ok in simp)
    qed
  qed
  with g sep wmove_threads(1) [OF conjunct2 [OF w] conjunct1 [OF w]] show ?thesis by (simp add: waits_inv_def)
qed

text \<open>At the start nothing is pending, and the calls of two threads belong to different transactions.\<close>

definition fresh_waits :: "TwoPLScheduler \<Rightarrow> dcall list list \<Rightarrow> bool" where
  "fresh_waits s progs \<longleftrightarrow> pending_remote_ops s = Map.empty \<and> separate (wthreads (init_wsystem s progs))"

lemma waits_inv_init: "fresh_waits s progs \<Longrightarrow> waits_inv S J (init_wsystem s progs)"
  by (auto simp: waits_inv_def fresh_waits_def init_wsystem_def calls_ok_def ops_pending_def intro!: guarded_none)

lemma run_waits_inv: "run_waits L J S es s = Some s' \<Longrightarrow> waits_inv S J s \<Longrightarrow> waits_inv S J s'"
proof (induction es arbitrary: s)
  case (Cons e es)
  then show ?case by (cases e) (auto split: option.splits intro: waits_inv_step)
qed simp

section \<open>Properties\<close>

text \<open>The answer is outstanding, or an operation of the transaction is pending whose request was never sent.\<close>

definition kept_waiting :: "server_api \<Rightarrow> boost_json \<Rightarrow> TwoPLScheduler \<Rightarrow> dcall \<Rightarrow> bool" where
  "kept_waiting S J s c \<longleftrightarrow> outstanding s c \<or>
     (\<exists>tx n op. c = RemoteOp tx n op \<and> set (ops_pending s tx) \<inter> failed_ops S J s tx \<noteq> {})"

lemma unsettled_waiting:
  assumes "calls_ok S J s (c # cs) (WAsleep False)"
  shows "kept_waiting S J s c"
proof (cases c)
  case (RemoteOp tx n op)
  with assms have "ops_pending s tx \<noteq> []" "set (ops_pending s tx) \<subseteq> insert (n, op_key op) (failed_ops S J s tx)"
    by (auto simp: calls_ok_def)
  moreover from this(1) obtain x where "x \<in> set (ops_pending s tx)" by (cases "ops_pending s tx") auto
  ultimately have "x = (n, op_key op) \<and> x \<in> set (ops_pending s tx) \<or> x \<in> set (ops_pending s tx) \<inter> failed_ops S J s tx" by blast
  with RemoteOp show ?thesis by (auto simp: kept_waiting_def)
qed (use assms in \<open>auto simp: calls_ok_def kept_waiting_def\<close>)

text \<open>
  C14 (which wake-ups can be missing). Threads wait for remote locks and for remote
  operations while others handle the answers of peers, in any interleaving, with spurious
  wake-ups and timeouts, and with a server on which any send may fail. Whenever a thread
  sleeps and has not been notified, the answer it waits for has not been handled, or it
  waits for a remote operation and another operation of its transaction is pending whose
  request could not be sent: such an operation is never removed, and the answers that follow
  notify nobody. Otherwise a notification can come neither before the thread sleeps nor
  go to nobody. The pending answers are accessed by the one thread that has locked
  \<open>distributed_mutex\<close>.
\<close>

theorem no_lost_wakeup:
  assumes "fresh_waits s0 progs" and "run_waits L J S es (init_wsystem s0 progs) = Some s" and "i < length (wthreads s)"
  shows "(wt_pc (wthreads s ! i) = WAsleep False \<longrightarrow>
      (\<exists>c cs. wt_calls (wthreads s ! i) = c # cs \<and> kept_waiting S J (sched s) c)) \<and>
    (has_distributed (wt_pc (wthreads s ! i)) \<longleftrightarrow> distributed_mutex s = Some i)"
proof -
  have inv: "waits_inv S J s" using run_waits_inv [OF assms(2) waits_inv_init [OF assms(1)]] .
  then have ok: "wthread_ok S J (sched s) (wthreads s ! i)" using assms(3) by (simp add: waits_inv_def)
  then have "wt_pc (wthreads s ! i) = WAsleep False \<longrightarrow>
      (\<exists>c cs. wt_calls (wthreads s ! i) = c # cs \<and> kept_waiting S J (sched s) c)"
    by (cases "wt_calls (wthreads s ! i)") (auto simp: calls_ok_def intro: unsettled_waiting)
  moreover have "has_distributed (wt_pc (wthreads s ! i)) \<longleftrightarrow> distributed_mutex s = Some i"
    using inv assms(3) unfolding waits_inv_def guarded_def by blast
  ultimately show ?thesis ..
qed

section \<open>Witnesses\<close>

text \<open>
  Transaction 7 locks key 5 on node 1 and reads it there, another thread handles the two
  answers. In \<open>sleeping\<close> the transaction waits for the lock.
\<close>

definition asker_and_handler :: "dcall list list" where
  "asker_and_handler =
     [[AcquireLocks 7 [(1, [5])], RemoteOp 7 1 (ReadOp 5)],
      [LockResponse 1 (lock_message boost_ref MT_LOCK_GRANTED 7 5), OpResponse 1 (op_response boost_ref 7 5 (Some [3]))]]"

definition sleeping_run :: "(wkind \<times> nat) list" where
  "sleeping_run = replicate 4 (Next, 0)"

definition sleeping :: wsystem where
  "sleeping = the (run_waits std_ref boost_ref server_up sleeping_run (init_wsystem sched0 asker_and_handler))"

lemma sleeping_reached: "run_waits std_ref boost_ref server_up sleeping_run (init_wsystem sched0 asker_and_handler) = Some sleeping"
  unfolding sleeping_def by (rule run_the) code_simp

lemma sleeping_facts: "length (wthreads sleeping) = 2" "wt_pc (wthreads sleeping ! 0) = WAsleep False"
  by code_simp+

lemma asker_and_handler_fresh: "fresh_waits sched0 asker_and_handler"
proof -
  have "pending_remote_ops sched0 = Map.empty" by (simp add: sched0_def make_scheduler_def)
  then show ?thesis
    by (simp add: fresh_waits_def separate_def init_wsystem_def asker_and_handler_def All_less_Suc numeral_2_eq_2)
qed

text \<open>
  The server cannot send to node 1. A transaction reads a key there, which fails, and then
  a key of node 2; the answer of node 2 has been handled, and the thread still sleeps and
  has not been notified.
\<close>

definition server_partial :: server_api where
  "server_partial = \<lparr>srv_send = (\<lambda>_ n _. if n = 1 then Some (RuntimeError ''peer'') else None), srv_startup = (\<lambda>_ _. None)\<rparr>"

definition silenced_progs :: "dcall list list" where
  "silenced_progs = [[RemoteOp 7 1 (ReadOp 5), RemoteOp 7 2 (ReadOp 6)], [OpResponse 2 (op_response boost_ref 7 6 (Some [3]))]]"

definition silenced :: wsystem where
  "silenced = the (run_waits std_ref boost_ref server_partial (replicate 10 (Next, 0) @ replicate 3 (Next, 1))
     (init_wsystem sched0 silenced_progs))"

lemma answer_without_wakeup:
  "run_waits std_ref boost_ref server_partial (replicate 10 (Next, 0) @ replicate 3 (Next, 1))
     (init_wsystem sched0 silenced_progs) = Some silenced"
  "length (wthreads silenced) = 2" "wt_calls (wthreads silenced ! 0) = [RemoteOp 7 2 (ReadOp 6)]"
  "wt_pc (wthreads silenced ! 0) = WAsleep False" "\<not> outstanding (sched silenced) (RemoteOp 7 2 (ReadOp 6))"
  "wt_results (wthreads silenced ! 1) = [Handled]" "ops_pending (sched silenced) 7 = [(1, 5)]"
proof -
  show "run_waits std_ref boost_ref server_partial (replicate 10 (Next, 0) @ replicate 3 (Next, 1))
     (init_wsystem sched0 silenced_progs) = Some silenced"
    unfolding silenced_def by (rule run_the) code_simp
qed code_simp+

lemma silenced_fresh: "fresh_waits sched0 silenced_progs"
proof -
  have "pending_remote_ops sched0 = Map.empty" by (simp add: sched0_def make_scheduler_def)
  then show ?thesis
    by (simp add: fresh_waits_def separate_def init_wsystem_def silenced_progs_def All_less_Suc numeral_2_eq_2)
qed

theorem no_lost_wakeup_witness:
  "outstanding (sched sleeping) (hd (wt_calls (wthreads sleeping ! 0))) \<and> distributed_mutex sleeping \<noteq> Some 0 \<and>
   (1, 5) \<in> failed_ops server_partial boost_ref (sched silenced) 7"
proof -
  have "outstanding (sched sleeping) (hd (wt_calls (wthreads sleeping ! 0))) \<and> distributed_mutex sleeping \<noteq> Some 0"
    using no_lost_wakeup [OF asker_and_handler_fresh sleeping_reached, of 0] sleeping_facts
    by (auto simp: kept_waiting_def failed_ops_def)
  moreover have "(1, 5) \<in> failed_ops server_partial boost_ref (sched silenced) 7"
    using no_lost_wakeup [OF silenced_fresh answer_without_wakeup(1), of 0] answer_without_wakeup(2-5,7)
    by (auto simp: kept_waiting_def)
  ultimately show ?thesis by blast
qed

text \<open>
  A timeout and an answer can meet: the handler has notified the sleeping thread, but the
  deadline passes before it has the mutex again. It then returns that the locks were not
  taken, and the request is all that was sent: the case of \<open>late_answer_leaks_locks\<close>.
\<close>

definition late_run :: "(wkind \<times> nat) list" where
  "late_run = sleeping_run @ replicate 3 (Next, 1) @ [(Deadline, 0), (Next, 0), (Next, 0)]"

definition late :: wsystem where
  "late = the (run_waits std_ref boost_ref server_up late_run (init_wsystem sched0 asker_and_handler))"

lemma late_answer:
  "run_waits std_ref boost_ref server_up late_run (init_wsystem sched0 asker_and_handler) = Some late"
  "map wt_results (wthreads late) = [[LocksTaken False], [Handled]]"
  "sent (sched late) = [(1, lock_message boost_ref MT_LOCK_REQUEST 7 5)]"
proof -
  show "run_waits std_ref boost_ref server_up late_run (init_wsystem sched0 asker_and_handler) = Some late"
    unfolding late_def by (rule run_the) code_simp
qed code_simp+

end
