(* ===== verification/Remote_Progress.thy ===== *)
theory Remote_Progress
  imports Remote_Waits
begin

text \<open>
  The threads of \<open>Remote_Waits\<close> do not block each other: whoever has locked
  \<open>distributed_mutex\<close> can go on, every step that is not a spurious wake-up brings the calls
  closer to their ends, and what is left in the end are threads that wait for an answer
  that no peer has given, or that an operation left pending by a failed send keeps asleep.
\<close>

section \<open>Progress\<close>

lemma dcall_step_None:
  "legal c p \<Longrightarrow> dcall_step L J S i c p s = None \<Longrightarrow> \<not> has_distributed p \<and> distributed_mutex s \<noteq> None"
  by (cases c; cases p) (auto simp: Let_def wlock_def split: if_splits prod.splits sum.splits)

lemma waits_stuck:
  assumes inv: "waits_inv S J s" and stuck: "\<And>i. wstep L J S Next i s = None" and j: "j < length (wthreads s)"
  shows "wt_calls (wthreads s ! j) = [] \<or>
    (\<exists>c cs. wt_calls (wthreads s ! j) = c # cs \<and> wt_pc (wthreads s ! j) = WAsleep False \<and> kept_waiting S J (sched s) c)"
proof -
  have place: "wt_pc (wthreads s ! k) = WAsleep False \<and> kept_waiting S J (sched s) c \<or>
      \<not> has_distributed (wt_pc (wthreads s ! k)) \<and> distributed_mutex s \<noteq> None"
    if k: "k < length (wthreads s)" "wt_calls (wthreads s ! k) = c # cs" for k c cs
  proof -
    have ok: "calls_ok S J (sched s) (c # cs) (wt_pc (wthreads s ! k))" using inv k by (fastforce simp: waits_inv_def)
    then have "legal c (wt_pc (wthreads s ! k))" by (simp add: calls_ok_def)
    with unsettled_waiting [of S J "sched s" c cs] ok show ?thesis
      using stuck [of k] k dcall_step_None [of c "wt_pc (wthreads s ! k)" L J S k s]
      by (auto simp: wstep_def Let_def split: if_splits)
  qed
  have free: "distributed_mutex s = None"
  proof (rule ccontr)
    assume "distributed_mutex s \<noteq> None"
    then obtain k where k: "k < length (wthreads s)" "has_distributed (wt_pc (wthreads s ! k))"
      using guardedE [of "distributed_mutex s"] inv unfolding waits_inv_def by metis
    then have "wt_calls (wthreads s ! k) \<noteq> []"
      using inv k by (cases "wt_calls (wthreads s ! k)") (fastforce simp: waits_inv_def calls_ok_def)+
    then obtain c cs where c: "wt_calls (wthreads s ! k) = c # cs" by (auto simp: neq_Nil_conv)
    show False using place [OF k(1) c] k(2) by auto
  qed
  show ?thesis using place [OF j] free by (cases "wt_calls (wthreads s ! j)") auto
qed

text \<open>
  How many steps are left of a call, among \<open>n\<close> threads: at most ten of its own, and three for
  every thread that the body of a handler may wake up.
\<close>

fun dpc_left :: "nat \<Rightarrow> dpc \<Rightarrow> nat" where
  "dpc_left n WBegin = 10 + 3 * n"
| "dpc_left n WBody = 9 + 3 * n"
| "dpc_left n WRegistered = 8"
| "dpc_left n WSend = 7"
| "dpc_left n WSending = 6"
| "dpc_left n WRelock = 6"
| "dpc_left n (WAsleep b) = (if b then 6 else 3)"
| "dpc_left n WChecking = 5"
| "dpc_left n WAnswered = 4"
| "dpc_left n WRelock2 = 3"
| "dpc_left n WRead = 2"
| "dpc_left n WTimedOut = 2"
| "dpc_left n (WLeave r) = 1"

definition wthread_left :: "nat \<Rightarrow> wthread \<Rightarrow> nat" where
  "wthread_left n t = (case wt_calls t of [] \<Rightarrow> 0 | c # cs \<Rightarrow> (10 + 3 * n) * length cs + dpc_left n (wt_pc t))"

definition waits_left :: "wsystem \<Rightarrow> nat" where
  "waits_left s = (\<Sum>j < length (wthreads s). wthread_left (length (wthreads s)) (wthreads s ! j))"

lemma wthread_left_notified: "wthread_left n (notified cv t) \<le> wthread_left n t + 3"
  by (auto simp: wthread_left_def notified_def split: list.split)

lemma wthread_left_WBegin: "wt_pc t = WBegin \<Longrightarrow> wthread_left n t = (10 + 3 * n) * length (wt_calls t)"
  by (cases "wt_calls t") (simp_all add: wthread_left_def)

lemma dpc_left_pos: "0 < dpc_left n p"
  by (cases p) simp_all

text \<open>A step goes to a place closer to the end of the call, or is its last.\<close>

lemma dcall_step_place:
  assumes "dcall_step L J S i c p s = Some s'" and "i < length (wthreads s)" and "p \<noteq> WAsleep False"
    and "wt_calls (wthreads s ! i) = c # cs"
  defines "t \<equiv> wthreads s' ! i"
  shows "wt_calls t = c # cs \<and> dpc_left n (wt_pc t) + (if p = WBody then 3 * n else 0) < dpc_left n p \<or>
    wt_calls t = cs \<and> wt_pc t = WBegin \<and> p \<noteq> WBody"
proof (cases c)
  case (AcquireLocks tx m)
  with assms show ?thesis
    by (cases p) (auto simp: Let_def dest!: wlock_thread split: if_splits prod.splits sum.splits)
next
  case (RemoteOp tx k op)
  with assms show ?thesis
    by (cases p) (auto dest!: wlock_thread split: if_splits prod.splits sum.splits)
next
  case (LockResponse peer msg)
  with assms show ?thesis
    by (cases p) (auto simp: Let_def notify_all_def wt_pc_notified dest!: wlock_thread split: if_splits)
next
  case (OpResponse peer msg)
  with assms show ?thesis
    by (cases p) (auto simp: Let_def notify_all_def wt_pc_notified dest!: wlock_thread split: if_splits)
qed

lemma wstep_left_own:
  assumes "wstep L J S kind i s = Some s'" and "kind \<noteq> Spurious"
  defines "p \<equiv> wt_pc (wthreads s ! i)"
  shows "wthread_left n (wthreads s' ! i) + (if p = WBody then 3 * n else 0) < wthread_left n (wthreads s ! i)"
  using assms(1)
proof (cases rule: wstepE)
  case (1 c cs q)
  have q: "q = p" using 1(3) by (simp add: p_def)
  have left: "wthread_left n (wthreads s ! i) = (10 + 3 * n) * length cs + dpc_left n p"
    using 1(2) by (simp add: wthread_left_def p_def)
  consider (next_step) "dcall_step L J S i c p s = Some s'" "p \<noteq> WAsleep False" | (late) b where "p = WAsleep b" "wlock i WTimedOut s = Some s'"
    using assms(1,2) 1(1,2) unfolding wstep_def p_def
    by (auto simp: Let_def split: if_splits wkind.splits dpc.splits)
  then show ?thesis
  proof cases
    case next_step
    from dcall_step_place [OF next_step(1) 1(1) next_step(2) 1(2), of n] show ?thesis
      using left dpc_left_pos [of n p] wthread_left_WBegin [of "wthreads s' ! i" n]
      by (auto simp: wthread_left_def)
  next
    case late
    with wlock_thread [OF late(2) 1(1)] left 1(2) show ?thesis by (auto simp: wthread_left_def)
  qed
qed

lemma dcall_step_quiet:
  assumes "dcall_step L J S i c p s = Some s'" and "j \<noteq> i" and "p \<noteq> WBody"
  shows "wthreads s' ! j = wthreads s ! j"
  using assms by (cases c; cases p) (auto simp: Let_def wops split: if_splits prod.splits sum.splits)

lemma wstep_left_others:
  assumes "wstep L J S kind i s = Some s'" and "j < length (wthreads s)" and "j \<noteq> i"
  shows "wthread_left n (wthreads s' ! j) \<le> wthread_left n (wthreads s ! j) + (if wt_pc (wthreads s ! i) = WBody then 3 else 0)"
proof (cases "wt_pc (wthreads s ! i) = WBody")
  case True
  note w = wstep_wmove [OF assms(1)]
  show ?thesis using wmove_threads(2) [OF conjunct2 [OF w] conjunct1 [OF w] assms(2,3)] wthread_left_notified True by fastforce
next
  case False
  have "wthreads s' ! j = wthreads s ! j"
    using assms(1)
  proof (cases rule: wstepE)
    case (1 c cs p)
    then show ?thesis using dcall_step_quiet [OF _ assms(3)] False assms(3) by (auto simp: wops split: if_splits)
  qed
  with False show ?thesis by simp
qed

lemma wstep_left:
  assumes "wstep L J S kind i s = Some s'" and "kind \<noteq> Spurious"
  shows "waits_left s' < waits_left s"
proof -
  let ?n = "length (wthreads s)" and ?d = "if wt_pc (wthreads s ! i) = WBody then 3 else (0 :: nat)"
  let ?f = "\<lambda>s j. wthread_left ?n (wthreads s ! j)"
  note w = wstep_wmove [OF assms(1)]
  have i: "i \<in> {..< ?n}" and len: "length (wthreads s') = ?n"
    using w wmove_threads(1) [OF conjunct2 [OF w] conjunct1 [OF w]] by simp_all
  have "(\<Sum>j \<in> {..< ?n} - {i}. ?f s' j) \<le> (\<Sum>j \<in> {..< ?n} - {i}. ?f s j + ?d)"
    by (rule sum_mono) (use wstep_left_others [OF assms(1)] in auto)
  also have "\<dots> = (\<Sum>j \<in> {..< ?n} - {i}. ?f s j) + (?n - 1) * ?d"
    using i by (simp add: sum.distrib card_Diff_subset)
  finally have "(\<Sum>j < ?n. ?f s' j) \<le> ?f s' i + ((\<Sum>j \<in> {..< ?n} - {i}. ?f s j) + (?n - 1) * ?d)"
    unfolding sum.remove [OF finite_lessThan i, of "?f s'"] by simp
  also have "\<dots> < ?f s i + (\<Sum>j \<in> {..< ?n} - {i}. ?f s j)"
    using wstep_left_own [OF assms, of ?n] by (auto split: if_splits)
  also have "\<dots> = (\<Sum>j < ?n. ?f s j)" by (rule sum.remove [OF finite_lessThan i, symmetric])
  finally show ?thesis by (simp add: waits_left_def len)
qed

lemma run_waits_left:
  "run_waits L J S es s = Some s' \<Longrightarrow> \<forall>e \<in> set es. fst e \<noteq> Spurious \<Longrightarrow> length es + waits_left s' \<le> waits_left s"
proof (induction es arbitrary: s)
  case (Cons e es)
  obtain kind i where e: "e = (kind, i)" by (cases e)
  with Cons.prems obtain s1 where s1: "wstep L J S kind i s = Some s1" "run_waits L J S es s1 = Some s'" by (auto split: option.splits)
  show ?case using Cons.IH [OF s1(2)] Cons.prems(2) e wstep_left [OF s1(1)] by simp
qed simp

lemma waits_left_init: "waits_left (init_wsystem s progs) = (10 + 3 * length progs) * length (concat progs)"
proof -
  have "waits_left (init_wsystem s progs) = (\<Sum>j < length progs. (10 + 3 * length progs) * length (progs ! j))"
    by (auto simp: waits_left_def init_wsystem_def wthread_left_WBegin intro: sum.cong)
  also have "\<dots> = (10 + 3 * length progs) * (\<Sum>j < length progs. length (progs ! j))" by (rule sum_distrib_left [symmetric])
  also have "(\<Sum>j < length progs. length (progs ! j)) = length (concat progs)"
    by (simp add: length_concat sum_list_sum_nth atLeast0LessThan)
  finally show ?thesis .
qed

section \<open>Properties\<close>

text \<open>
  C15 (what threads wait for in the end). With a server on which any send may fail: apart
  from spurious wake-ups the threads take a bounded number of steps, and when none of them
  can take another one before a deadline, every call has returned, or sleeps until a peer
  answers, or waits for a remote operation while another operation of its transaction is
  pending whose request could not be sent: the threads do not deadlock on
  \<open>distributed_mutex\<close>, and only after a failed send does one sleep although its answer is there.
\<close>

theorem waits_complete:
  assumes "fresh_waits s0 progs" and "run_waits L J S es (init_wsystem s0 progs) = Some s"
    and "\<forall>e \<in> set es. fst e \<noteq> Spurious"
  shows "length es \<le> (10 + 3 * length progs) * length (concat progs) \<and>
    ((\<forall>i. wstep L J S Next i s = None) \<longrightarrow> (\<forall>j < length (wthreads s). wt_calls (wthreads s ! j) = [] \<or>
      (\<exists>c cs. wt_calls (wthreads s ! j) = c # cs \<and> wt_pc (wthreads s ! j) = WAsleep False \<and> kept_waiting S J (sched s) c)))"
proof (intro conjI impI allI)
  show "length es \<le> (10 + 3 * length progs) * length (concat progs)"
    using run_waits_left [OF assms(2,3)] unfolding waits_left_init by simp
  fix j
  assume "\<forall>i. wstep L J S Next i s = None" and "j < length (wthreads s)"
  then show "wt_calls (wthreads s ! j) = [] \<or>
      (\<exists>c cs. wt_calls (wthreads s ! j) = c # cs \<and> wt_pc (wthreads s ! j) = WAsleep False \<and> kept_waiting S J (sched s) c)"
    using waits_stuck [OF run_waits_inv [OF assms(2) waits_inv_init [OF assms(1)]]] by blast
qed

section \<open>Witness\<close>

text \<open>The transaction of \<open>asker_and_handler\<close> gets its lock and its value; both threads have returned.\<close>

definition all_answered_run :: "(wkind \<times> nat) list" where
  "all_answered_run = sleeping_run @ replicate 3 (Next, 1) @ replicate 9 (Next, 0) @ replicate 3 (Next, 1) @ replicate 6 (Next, 0)"

definition all_answered :: wsystem where
  "all_answered = the (run_waits std_ref boost_ref server_up all_answered_run (init_wsystem sched0 asker_and_handler))"

lemma all_answered_reached: "run_waits std_ref boost_ref server_up all_answered_run (init_wsystem sched0 asker_and_handler) = Some all_answered"
  unfolding all_answered_def by (rule run_the) code_simp

lemma all_answered_facts:
  "length (wthreads all_answered) = 2" "map wt_pc (wthreads all_answered) = [WBegin, WBegin]"
  "map wt_results (wthreads all_answered) = [[LocksTaken True, OpResult (Some [3])], [Handled, Handled]]"
  "wstep std_ref boost_ref server_up Next 0 all_answered = None" "wstep std_ref boost_ref server_up Next 1 all_answered = None"
  by code_simp+

theorem waits_complete_witness:
  "25 \<le> (10 + 3 * length asker_and_handler) * length (concat asker_and_handler) \<and>
   list_all (\<lambda>t. wt_calls t = []) (wthreads all_answered) \<and>
   map wt_results (wthreads all_answered) = [[LocksTaken True, OpResult (Some [3])], [Handled, Handled]]"
proof -
  have "wstep std_ref boost_ref server_up Next i all_answered = None" for i
  proof (cases "i < 2")
    case True
    then have "i = 0 \<or> i = 1" by auto
    then show ?thesis using all_answered_facts(4,5) by auto
  next
    case False
    then show ?thesis using all_answered_facts(1) by (simp add: wstep_def)
  qed
  moreover have "length all_answered_run = 25" "\<forall>e \<in> set all_answered_run. fst e \<noteq> Spurious"
    by (simp_all add: all_answered_run_def sleeping_run_def)
  moreover have "wt_pc (wthreads all_answered ! j) = WBegin" if "j < 2" for j
    using all_answered_facts(1,2) that by (metis length_map nth_map nth_Cons_0 nth_Cons_Suc One_nat_def less_2_cases)
  ultimately show ?thesis
    using waits_complete [OF asker_and_handler_fresh all_answered_reached] all_answered_facts(1,3)
    by (auto simp: list_all_length)
qed

end
