(* ===== verification/Stdout.thy ===== *)
theory Stdout
  imports Maelstrom Mutual_Exclusion
begin

text \<open>
  Standard output and \<open>cout_mutex\<close>. The workers of the pool and the main thread print their
  messages with \<open>Message::send\<close> at the same time; here locking \<open>cout_mutex\<close>, every character
  that is written and unlocking are steps of their own. The theory shows that messages never
  mix: a reader that takes the output line by line gets whole messages. The characters
  of a message are those of \<open>boost::json\<close>, the parameter \<open>text_of\<close>.
\<close>

section \<open>Threads\<close>

text \<open>\<open>Printing cs\<close>: the thread has locked the mutex and has still to write \<open>cs\<close>.\<close>

datatype out_pc = Ready | Printing string

record sender_thread =
  to_send :: "Message list"
  out_pc :: out_pc

text \<open>\<open>out_history\<close> are the messages whose printing has begun, with their threads.\<close>

record out_system =
  cout_mutex :: "nat option"
  stdout_text :: string
  senders :: "sender_thread list"
  out_history :: "(nat \<times> Message) list"

definition init_out_system :: "Message list list \<Rightarrow> out_system" where
  "init_out_system progs = \<lparr>cout_mutex = None, stdout_text = [],
     senders = map (\<lambda>ms. \<lparr>to_send = ms, out_pc = Ready\<rparr>) progs, out_history = []\<rparr>"

definition newline :: char where
  "newline = CHR 0x0A"

text \<open>The object, then \<open>std::endl\<close>.\<close>

definition message_line :: "boost_json \<Rightarrow> (jobject \<Rightarrow> string) \<Rightarrow> Message \<Rightarrow> string" where
  "message_line J text_of m = text_of (message_json J m) @ [newline]"

text \<open>A step of thread \<open>i\<close> in \<open>Message::send\<close>; \<open>None\<close>: it waits for the mutex or has sent everything.\<close>

definition send_step :: "boost_json \<Rightarrow> (jobject \<Rightarrow> string) \<Rightarrow> nat \<Rightarrow> out_system \<Rightarrow> out_system option" where
  "send_step J text_of i s =
     (if i < length (senders s)
      then (case out_pc (senders s ! i) of
              Ready \<Rightarrow>
                (case to_send (senders s ! i) of
                   [] \<Rightarrow> None
                 | m # ms \<Rightarrow>
                     if cout_mutex s = None
                     then Some (s\<lparr>cout_mutex := Some i,
                       senders := (senders s)[i := \<lparr>to_send = ms, out_pc = Printing (message_line J text_of m)\<rparr>],
                       out_history := out_history s @ [(i, m)]\<rparr>)
                     else None)
            | Printing (c # cs) \<Rightarrow>
                Some (s\<lparr>stdout_text := stdout_text s @ [c], senders := (senders s)[i := (senders s ! i)\<lparr>out_pc := Printing cs\<rparr>]\<rparr>)
            | Printing [] \<Rightarrow>
                Some (s\<lparr>cout_mutex := None, senders := (senders s)[i := (senders s ! i)\<lparr>out_pc := Ready\<rparr>]\<rparr>))
      else None)"

fun run_senders :: "boost_json \<Rightarrow> (jobject \<Rightarrow> string) \<Rightarrow> nat list \<Rightarrow> out_system \<Rightarrow> out_system option" where
  "run_senders J text_of [] s = Some s"
| "run_senders J text_of (i # is) s =
     (case send_step J text_of i s of None \<Rightarrow> None | Some s' \<Rightarrow> run_senders J text_of is s')"

text \<open>What a loop of \<open>std::getline\<close> reads.\<close>

function read_lines :: "string \<Rightarrow> string list" where
  "read_lines [] = []"
| "read_lines (c # cs) = takeWhile (\<lambda>x. x \<noteq> newline) (c # cs) # read_lines (tl (dropWhile (\<lambda>x. x \<noteq> newline) (c # cs)))"
  by pat_completeness auto
termination
proof (relation "measure length")
  fix c :: char and cs
  show "(tl (dropWhile (\<lambda>x. x \<noteq> newline) (c # cs)), c # cs) \<in> measure length"
    using length_dropWhile_le [of "\<lambda>x. x \<noteq> newline" cs] by auto
qed simp

lemma read_lines_line: "newline \<notin> set l \<Longrightarrow> read_lines (l @ [newline] @ rest) = l # read_lines rest"
proof (cases "l @ [newline] @ rest")
  case (Cons c cs)
  assume l: "newline \<notin> set l"
  then have "takeWhile (\<lambda>x. x \<noteq> newline) (l @ [newline] @ rest) = l" "dropWhile (\<lambda>x. x \<noteq> newline) (l @ [newline] @ rest) = newline # rest"
    by (simp_all add: takeWhile_append dropWhile_append)
  then show ?thesis unfolding Cons by simp
qed simp

lemma read_lines_lines: "\<forall>l \<in> set ls. newline \<notin> set l \<Longrightarrow> read_lines (concat (map (\<lambda>l. l @ [newline]) ls)) = ls"
  by (induction ls) (simp_all add: read_lines_line [simplified])

section \<open>The invariant\<close>

fun printing :: "out_pc \<Rightarrow> bool" where
  "printing (Printing cs) = True"
| "printing Ready = False"

fun unprinted :: "out_pc \<Rightarrow> string" where
  "unprinted (Printing cs) = cs"
| "unprinted Ready = []"

text \<open>What the thread that has locked the mutex has still to write.\<close>

definition out_rest :: "out_system \<Rightarrow> string" where
  "out_rest s = (case cout_mutex s of None \<Rightarrow> [] | Some i \<Rightarrow> unprinted (out_pc (senders s ! i)))"

interpretation cout: mutex_user "send_step J text_of" senders cout_mutex "\<lambda>t. printing (out_pc t)" for J text_of
  by unfold_locales
    (auto simp: send_step_def moves_def split: if_splits out_pc.splits list.splits)

definition out_inv :: "boost_json \<Rightarrow> (jobject \<Rightarrow> string) \<Rightarrow> Message list list \<Rightarrow> out_system \<Rightarrow> bool" where
  "out_inv J text_of progs s \<longleftrightarrow> guarded (cout_mutex s) (\<lambda>t. printing (out_pc t)) (senders s) \<and>
     stdout_text s @ out_rest s = concat (map (\<lambda>e. message_line J text_of (snd e)) (out_history s)) \<and>
     length (senders s) = length progs \<and>
     (\<forall>i < length progs. map snd (filter (\<lambda>e. fst e = i) (out_history s)) @ to_send (senders s ! i) = progs ! i)"

lemma out_inv_init: "out_inv J text_of progs (init_out_system progs)"
  by (auto simp: out_inv_def init_out_system_def out_rest_def intro!: guarded_none)

lemma out_inv_step:
  assumes inv: "out_inv J text_of progs s" and step: "send_step J text_of i s = Some s'"
  shows "out_inv J text_of progs s'"
proof -
  have g: "guarded (cout_mutex s) (\<lambda>t. printing (out_pc t)) (senders s)" using inv by (simp add: out_inv_def)
  have i: "i < length (senders s)" using step by (simp add: send_step_def split: if_splits)
  have holder: "cout_mutex s = Some i" if "out_pc (senders s ! i) = Printing cs" for cs
    using guarded_locked [OF g i] that by simp
  have out: "stdout_text s' @ out_rest s' = concat (map (\<lambda>e. message_line J text_of (snd e)) (out_history s'))"
    using inv step i holder
    by (auto simp: out_inv_def send_step_def out_rest_def split: if_splits out_pc.splits list.splits)
  have "map snd (filter (\<lambda>e. fst e = k) (out_history s')) @ to_send (senders s' ! k) =
      map snd (filter (\<lambda>e. fst e = k) (out_history s)) @ to_send (senders s ! k)" for k
    using step i by (auto simp: send_step_def nth_list_update split: if_splits out_pc.splits list.splits)
  moreover have "length (senders s') = length (senders s)"
    using step by (auto simp: send_step_def split: if_splits out_pc.splits list.splits)
  ultimately show ?thesis using inv out cout.exclusive [OF g step] by (simp add: out_inv_def)
qed

lemma run_senders_inv:
  "run_senders J text_of is s = Some s' \<Longrightarrow> out_inv J text_of progs s \<Longrightarrow> out_inv J text_of progs s'"
  by (induction "is" arbitrary: s) (auto split: option.splits intro: out_inv_step)

section \<open>Properties\<close>

text \<open>
  C39 (messages do not mix on standard output). Threads print messages at the same time, in
  any interleaving of single characters. If the text of an object has no newline, then a
  reader that takes the output line by line, once the thread in the section of
  \<open>cout_mutex\<close> has written its rest, gets exactly the printed messages, each whole and those of a
  thread in its order; when nobody has locked the mutex there is no rest.
\<close>

theorem whole_lines:
  assumes "\<forall>obj. newline \<notin> set (text_of obj)" and "run_senders J text_of is (init_out_system progs) = Some s"
  shows "read_lines (stdout_text s @ out_rest s) = map (\<lambda>e. text_of (message_json J (snd e))) (out_history s) \<and>
    (cout_mutex s = None \<longrightarrow> out_rest s = []) \<and>
    (\<forall>i < length progs. map snd (filter (\<lambda>e. fst e = i) (out_history s)) @ to_send (senders s ! i) = progs ! i)"
proof -
  have inv: "out_inv J text_of progs s" using run_senders_inv [OF assms(2) out_inv_init] .
  let ?ls = "map (\<lambda>e. text_of (message_json J (snd e))) (out_history s)"
  have "stdout_text s @ out_rest s = concat (map (\<lambda>l. l @ [newline]) ?ls)"
    using inv by (simp add: out_inv_def message_line_def o_def)
  then have "read_lines (stdout_text s @ out_rest s) = ?ls" using read_lines_lines [of ?ls] assms(1) by simp
  with inv show ?thesis by (simp add: out_inv_def out_rest_def)
qed

section \<open>Witness\<close>

text \<open>A text without newlines, two threads with a message each, the second in the middle of its line.\<close>

definition text_ref :: "jobject \<Rightarrow> string" where
  "text_ref obj = filter (\<lambda>c. c \<noteq> newline) (concat (map (\<lambda>(k, v). k @ (case v of JString x \<Rightarrow> x | _ \<Rightarrow> [])) obj))"

definition out_message :: "string \<Rightarrow> Message" where
  "out_message from = \<lparr>sender = from, recipient = ''c1'', msg_type = ''echo_ok'', body = [], msgId = None, inReplyTo = None\<rparr>"

definition half_printed :: out_system where
  "half_printed = the (run_senders boost_ref text_ref (replicate 18 0 @ replicate 5 1)
     (init_out_system [[out_message ''n1''], [out_message ''n2'']]))"

lemma half_printed_run: "run_senders boost_ref text_ref (replicate 18 0 @ replicate 5 1)
    (init_out_system [[out_message ''n1''], [out_message ''n2'']]) = Some half_printed"
  unfolding half_printed_def by (rule run_the) code_simp

lemma half_printed_facts:
  "out_history half_printed = [(0, out_message ''n1''), (1, out_message ''n2'')]"
  "stdout_text half_printed = ''bodydestc1srcn1'' @ [newline] @ ''body''"
  "text_ref (message_json boost_ref (out_message ''n1'')) = ''bodydestc1srcn1''"
  "text_ref (message_json boost_ref (out_message ''n2'')) = ''bodydestc1srcn2''"
  by code_simp+

theorem whole_lines_witness:
  "stdout_text half_printed = ''bodydestc1srcn1'' @ [newline] @ ''body'' \<and>
   read_lines (stdout_text half_printed @ out_rest half_printed) = [''bodydestc1srcn1'', ''bodydestc1srcn2'']"
proof -
  have "\<forall>obj. newline \<notin> set (text_ref obj)" by (simp add: text_ref_def)
  from whole_lines [OF this half_printed_run] half_printed_facts show ?thesis by simp
qed

end
