(* ===== verification/Spec2Isabelle.thy ===== *)
theory Spec2Isabelle
  imports Node_Process Cluster_Start Mutex_Progress Distributed_Runs Store_Mutexes Remote_Progress Stdout
begin

text \<open>
  A verification of the transaction processing system of this repository: a
  key-value store node that speaks the Maelstrom protocol on standard input and
  output and executes transactions of reads and appends under two-phase locking
  (\<open>src/lib\<close>).

  \<^bold>\<open>The program.\<close> \<open>main.cpp\<close> builds a node (\<open>system/maelstrom\<close>) with an echo handler
  and a transaction handler (\<open>system/TransactionMessageHandler\<close>). The node reads one
  message per line and posts it to a thread pool, so any number of transactions run
  at the same time. The handler turns the request into operations and calls
  \<open>TwoPLScheduler::execute_transaction\<close>, which routes every key to a node
  (\<open>DistributedCoordinator\<close>), locks all keys (\<open>LockManager\<close> for local ones, messages to
  peers for remote ones), executes the operations on the striped store
  (\<open>ThreadSafeKVStore\<close>) or on the peers, releases the locks and returns the reads,
  which the handler fills into the reply. Peers are connected by framed TCP streams
  (\<open>system/Peer\<close>).

  \<^bold>\<open>The theories.\<close>

  \<^item> \<open>Prelude\<close>: machine types (keys and values are 64-bit words, node ids 16-bit),
    exceptions as values, and the open parts of the C++ library (hash function,
    iteration order of unordered containers) as the parameter \<open>stdlib\<close>.
  \<^item> \<open>Mutual_Exclusion\<close>: what the theories with mutexes in their state share. The locale
    \<open>mutex_user\<close> is the contract of a machine with the code between a lock and its unlock; it
    is interpreted for every mutex of the lock manager, the store, the scheduler and the
    output.
  \<^item> \<open>KVStore\<close>: \<open>storage/KVStore.h\<close> as the locale \<open>kv_store\<close>, interpreted on the model of
    \<open>ThreadSafeKVStore\<close>: for every hash function the 256 stripes are one log per key.
  \<^item> \<open>Store_Mutexes\<close>: \<open>get\<close> and \<open>append\<close> called by any number of threads, with the lock of the
    stripe, \<open>contains\<close>, every further access and the unlock as steps of their own. The store
    is linearizable: it refines the whole calls of \<open>KVStore\<close>, which are what the other
    theories use; no access throws, and all calls return.
  \<^item> \<open>Json\<close>: the JSON values; the operations of \<open>boost::json\<close> are the parameter
    \<open>boost_json\<close>, their documented behaviour the hypotheses \<open>boost_ok\<close> and \<open>wire_ok\<close>.
  \<^item> \<open>Operations\<close>: reads and appends, the visitor as the parameter \<open>executor_api\<close>, and
    the reference semantics \<open>run_ops\<close> of a transaction on a map, the abstract
    specification of everything above it.
  \<^item> \<open>Lock_Manager\<close>: every operation of \<open>LockManager\<close>. Where \<open>acquire\<close> holds no mutex,
    other threads act through an interference function. The locales \<open>rely_env\<close>,
    \<open>exclusive_locks\<close> and \<open>rely_family\<close> are the contract between threads and the
    interface the scheduler uses: exact acquisition, no stealing, a bounded number
    of checks against a reference, exact release. They are interpreted on the calls that
    other transactions make to the same lock manager.
  \<^item> \<open>Coordinator\<close>: \<open>DistributedCoordinator\<close>, routing and message round trips.
  \<^item> \<open>Scheduler_State\<close>, \<open>Scheduler\<close>: the state of \<open>TwoPLScheduler\<close>, start-up, routing,
    and the execution of transactions with growing, execution and shrinking phase,
    local and remote. Waits on condition variables consume a tape of events that
    says what other threads did and whether the wait timed out.
  \<^item> \<open>Single_Node\<close>: \<open>execute_transaction\<close> on a node without peers refines \<open>run_ops\<close>, is
    all or nothing under interference, and gives back its locks also when it throws.
  \<^item> \<open>Concurrent\<close>, \<open>Serializability\<close>, \<open>Thread_Runs\<close>: all transactions of a node at
    once, as an interleaving of their critical sections. The invariant (locale
    \<open>named_threads\<close>, extended by \<open>transaction_threads\<close>) gives serializability in
    commit order, isolation, real-time order and clean quiescence; every transaction
    takes a bounded number of steps and is never stuck; a thread alone computes what
    \<open>execute_transaction\<close> computes.
  \<^item> \<open>Mutexes\<close>, \<open>Mutex_Progress\<close>: the same transactions with every lock and unlock of \<open>table_mutex\<close>, of the
    mutexes of the entries and of \<open>held_locks_mutex\<close> as a step of its own, in the order of
    \<open>LockManager.cpp\<close>. The threads never deadlock on the mutexes and all transactions come
    to an end after a bounded number of steps; the only access that is
    not protected is the lookup of the entry in \<open>acquire\<close>; a simulation relates every
    state to one of \<open>Concurrent\<close>, so that the atomic sections used there, and
    serializability with them, are justified.
  \<^item> \<open>Peer_Messages\<close>, \<open>Distributed\<close>: the handlers for the messages of peers, the order
    of messages of a distributed transaction, what a timeout of the wait for remote locks
    does, that the first answer to any lock request ends this wait, and the other places
    where the distributed protocol does not do what it is meant to.
  \<^item> \<open>Remote_Waits\<close>, \<open>Remote_Progress\<close>: \<open>distributed_mutex\<close> and the two condition variables. Threads
    wait for remote locks and remote operations, others handle the answers of peers; locks,
    sections, sleeps, notifications, spurious wake-ups and timeouts are steps of their own.
    No wake-up is lost but those that the code leaves out when a failed send has left an
    operation pending, and the threads block nobody: in the end they wait for peers only,
    or for such a wake-up.
  \<^item> \<open>Scheduler_Wf\<close>: what every operation of the scheduler keeps. The locale
    \<open>scheduler_invariant\<close> lifts a predicate from the elementary changes of the state to
    whole transactions and message handlers; its instance \<open>wf_context\<close> is the
    well-formedness of the containers and of the view of the cluster.
  \<^item> \<open>Cluster\<close>: several schedulers and a network that delivers their messages in any
    order and may lose some: the exchange ends, and messages in the form in which
    \<open>boost::json\<close> parses them back change nothing.
  \<^item> \<open>Distributed_Runs\<close>: a distributed transaction from end to end. When its messages survive
    serialization (ids from 2^63 on) and peers handle them in order and answer, the map that
    all nodes hold together changes as in \<open>run_ops\<close>, and afterwards the locks of all nodes
    are as before. Without answers, and over the wire with ids below 2^63, nothing is
    executed.
  \<^item> \<open>Maelstrom\<close>, \<open>Txn_Handler\<close>: messages, node, the two handlers and \<open>main\<close>: round
    trip of messages, the width of message ids, initialization, one answer per request
    with the reads filled in, or with the operations as they came when the transaction was
    aborted.
  \<^item> \<open>Stdout\<close>: \<open>Message::send\<close> of several threads, character by character under \<open>cout_mutex\<close>:
    the lines of the output are whole messages.
  \<^item> \<open>Node_Process\<close>: the whole process of a node without peers, the main thread that
    reads lines and the workers of the pool that run the handlers at the same time. Its
    steps are those of \<open>Concurrent\<close> with the messages around them, so that what clients
    read is a serial execution; the input may end, with queued messages dropped by the pool,
    and an exception in the main thread ends the process. The process comes to rest, and
    then every message read was either dropped so or taken and answered by one line.
  \<^item> \<open>Logger\<close>: the log, against the documented laws of the logging core (\<open>log_ok\<close>).
  \<^item> \<open>Peer\<close>: length-prefixed framing, connecting with retries and its bounds, receiving
    before the connection is there, closing, with the records each of them logs.
  \<^item> \<open>Cluster_Start\<close>: from the names in the \<open>init\<close> messages to the routing of keys: all
    nodes of a cluster agree on the node of a key.

  \<^bold>\<open>How code becomes definitions.\<close> Classes are records, enumerations are datatypes,
  every member function is a definition of nearly the same name that takes the object
  and returns it updated. A function that may throw returns \<open>exn + 'a\<close>; one that may
  also wait for ever returns an \<open>outcome\<close>, with \<open>Blocked\<close> for the latter. Unordered maps
  and sets are lists without duplicates, or maps where the order is not observed, and
  a loop over them follows the order that \<open>stdlib\<close> chooses. Mutexes appear as the extent
  of atomic steps, except in \<open>Mutexes\<close>, \<open>Store_Mutexes\<close>, \<open>Remote_Waits\<close> and \<open>Stdout\<close>, where they are
  part of the state and the steps are those between a lock and its unlock. Integers have
  their width where they wrap: transaction ids at 2^64, node ids at 2^16, message ids at
  2^32. No definition uses fuel: the retry loops
  recurse on their constant bounds (1000 and 500 checks, 10 connection attempts) and
  the waits on the length of the tape. The concurrent theorems assume at most 2^64
  transactions, the point where ids would repeat.

  \<^bold>\<open>Not in the repository, hence parameters:\<close> the bodies of \<open>Transaction\<close>'s constructor,
  of \<open>Operation::makeOperation\<close> and \<open>Accept\<close>, of \<open>NaiveOpExecutor\<close>, of
  \<open>TransactionManager\<close>'s base class and of \<open>TransactionServer\<close>; \<open>boost::json\<close>,
  \<open>boost::asio\<close> and \<open>boost::log\<close>.

  \<^bold>\<open>Not modelled:\<close> the text form of JSON; what a data race on the
  lock table does to it (a step reads or writes the whole map at once); all mutexes
  in one machine (each of the four theories has those of its component, and the sections
  of the others stay whole steps; no section under one of them locks a mutex of another
  component); time (a timeout is an event that may occur at any
  wait, a sleep is its duration). The scheduler keeps the exceptions it logs and not the text of the log lines. Of
  \<open>Transaction.h\<close>, \<open>TransactionManager.h\<close> and
  \<open>TransactionServer.h\<close> there are declarations only, besides the
  iteration over a transaction: a transaction is its list of operations, the manager's
  members are members of the scheduler, and of the server only the constants are
  modelled.
\<close>

end
